(* ===== verification/Rust_Text.thy ===== *)
theory Rust_Text
  imports Prelude "HOL-Library.Char_ord"
begin

text \<open>
  Rust's \<open>str\<close> as a list of UTF-8 bytes.  A \<open>char\<close> of HOL is one byte, so \<open>length\<close> is
  \<open>str::len\<close>; positions inside a multi-byte character are recognised as such
  (\<open>is_char_boundary\<close>).  The operations are those of the standard library that the program calls:
  prefixes and suffixes, splitting, joining, trimming of Unicode white space, ASCII case, decimal
  printing and parsing.
\<close>

section \<open>Bytes and character boundaries\<close>

definition byte_val :: "char \<Rightarrow> nat" where
  "byte_val c = of_char c"

text \<open>A continuation byte \<open>10xxxxxx\<close> is never the first byte of a character.\<close>

definition is_continuation :: "char \<Rightarrow> bool" where
  "is_continuation c = (128 \<le> byte_val c \<and> byte_val c < 192)"

definition is_char_boundary :: "string \<Rightarrow> nat \<Rightarrow> bool" where
  "is_char_boundary s i =
     (if i = 0 \<or> i = length s then True
      else if length s < i then False
      else \<not> is_continuation (s ! i))"

text \<open>\<open>str::split_at\<close> panics off a boundary: \<open>None\<close> is the panic.\<close>

definition split_at :: "string \<Rightarrow> nat \<Rightarrow> (string \<times> string) option" where
  "split_at s i = (if is_char_boundary s i then Some (take i s, drop i s) else None)"

definition is_ascii_digit :: "char \<Rightarrow> bool" where
  "is_ascii_digit c = (48 \<le> byte_val c \<and> byte_val c \<le> 57)"

definition digit_char :: "nat \<Rightarrow> char" where
  "digit_char d = char_of (48 + d)"

definition digit_val :: "char \<Rightarrow> nat" where
  "digit_val c = byte_val c - 48"

definition to_ascii_uppercase :: "char \<Rightarrow> char" where
  "to_ascii_uppercase c =
     (if 97 \<le> byte_val c \<and> byte_val c \<le> 122 then char_of (byte_val c - 32) else c)"

definition eq_ignore_ascii_case :: "string \<Rightarrow> string \<Rightarrow> bool" where
  "eq_ignore_ascii_case s t = (map to_ascii_uppercase s = map to_ascii_uppercase t)"

lemma byte_val_digit_char: "d < 10 \<Longrightarrow> byte_val (digit_char d) = 48 + d"
  by (simp add: byte_val_def digit_char_def)

lemma is_ascii_digit_digit_char [simp]: "d < 10 \<Longrightarrow> is_ascii_digit (digit_char d)"
  by (simp add: is_ascii_digit_def byte_val_digit_char)

lemma digit_val_digit_char [simp]: "d < 10 \<Longrightarrow> digit_val (digit_char d) = d"
  by (simp add: digit_val_def byte_val_digit_char)

lemma digit_val_less: "is_ascii_digit c \<Longrightarrow> digit_val c < 10"
  unfolding is_ascii_digit_def digit_val_def by arith

lemma digit_char_digit_val: "is_ascii_digit c \<Longrightarrow> digit_char (digit_val c) = c"
  by (simp add: is_ascii_digit_def digit_val_def digit_char_def byte_val_def)

section \<open>Prefixes, splitting and joining\<close>

fun strip_prefix :: "string \<Rightarrow> string \<Rightarrow> string option" where
  "strip_prefix [] s = Some s"
| "strip_prefix (p # ps) [] = None"
| "strip_prefix (p # ps) (c # s) = (if p = c then strip_prefix ps s else None)"

definition strip_suffix :: "string \<Rightarrow> string \<Rightarrow> string option" where
  "strip_suffix p s = map_option rev (strip_prefix (rev p) (rev s))"

lemma strip_prefix_Some: "strip_prefix p s = Some t \<longleftrightarrow> s = p @ t"
  by (induction p s rule: strip_prefix.induct) auto

lemma strip_prefix_append [simp]: "strip_prefix p (p @ t) = Some t"
  by (simp add: strip_prefix_Some)

lemma strip_suffix_Some: "strip_suffix p s = Some t \<longleftrightarrow> s = t @ p"
proof
  assume "strip_suffix p s = Some t"
  then obtain u where "strip_prefix (rev p) (rev s) = Some u" and "t = rev u"
    by (auto simp: strip_suffix_def)
  then have "rev s = rev p @ u" by (simp add: strip_prefix_Some)
  then have "rev (rev s) = rev (rev p @ u)" by (rule arg_cong)
  with \<open>t = rev u\<close> show "s = t @ p" by simp
next
  assume "s = t @ p"
  then show "strip_suffix p s = Some t" by (simp add: strip_suffix_def)
qed

text \<open>\<open>str::split_once(c)\<close> for an ASCII character.\<close>

fun split_once :: "char \<Rightarrow> string \<Rightarrow> (string \<times> string) option" where
  "split_once c [] = None"
| "split_once c (x # xs) =
     (if x = c then Some ([], xs) else map_option (\<lambda>(a, b). (x # a, b)) (split_once c xs))"

lemma split_once_Some:
  "split_once c s = Some (a, b) \<longleftrightarrow> s = a @ c # b \<and> c \<notin> set a"
proof (induction s arbitrary: a)
  case Nil
  then show ?case by simp
next
  case (Cons x xs)
  show ?case
    by (cases a) (auto simp: Cons.IH)
qed

lemma split_once_None: "split_once c s = None \<longleftrightarrow> c \<notin> set s"
  by (induction s) auto

lemma split_once_append [simp]: "c \<notin> set a \<Longrightarrow> split_once c (a @ c # b) = Some (a, b)"
  by (simp add: split_once_Some)

text \<open>\<open>str::split(c)\<close>: always at least one piece.\<close>

fun split_on :: "char \<Rightarrow> string \<Rightarrow> string list" where
  "split_on c [] = [[]]"
| "split_on c (x # xs) =
     (if x = c then [] # split_on c xs
      else (case split_on c xs of [] \<Rightarrow> [[x]] | p # ps \<Rightarrow> (x # p) # ps))"

lemma split_on_nonempty [simp]: "split_on c s \<noteq> []"
  by (induction s) (auto split: list.splits)

lemma split_on_no_sep: "p \<in> set (split_on c s) \<Longrightarrow> c \<notin> set p"
proof (induction s arbitrary: p)
  case Nil
  then show ?case by simp
next
  case (Cons x xs)
  then show ?case
    by (auto split: if_splits list.splits)
qed

lemma split_on_none: "c \<notin> set s \<Longrightarrow> split_on c s = [s]"
  by (induction s) auto

lemma split_on_append:
  "c \<notin> set a \<Longrightarrow> split_on c (a @ c # b) = a # split_on c b"
  by (induction a) auto

text \<open>\<open>slice.join(sep)\<close>.\<close>

fun join :: "string \<Rightarrow> string list \<Rightarrow> string" where
  "join sep [] = []"
| "join sep [x] = x"
| "join sep (x # y # xs) = x @ sep @ join sep (y # xs)"

lemma join_Cons: "xs \<noteq> [] \<Longrightarrow> join sep (x # xs) = x @ sep @ join sep xs"
  by (cases xs) simp_all

lemma split_on_join:
  assumes "xs \<noteq> []" and "\<forall>x \<in> set xs. c \<notin> set x"
  shows "split_on c (join [c] xs) = xs"
  using assms
proof (induction xs rule: list_nonempty_induct)
  case (single x)
  then show ?case by (simp add: split_on_none)
next
  case (cons x xs)
  then show ?case by (simp add: join_Cons split_on_append)
qed

lemma join_split_on: "join [c] (split_on c s) = s"
proof (induction s)
  case Nil
  then show ?case by simp
next
  case (Cons x xs)
  show ?case
  proof (cases "x = c")
    case True
    then show ?thesis using Cons.IH by (simp add: join_Cons)
  next
    case False
    obtain p ps where "split_on c xs = p # ps" by (cases "split_on c xs") auto
    then show ?thesis using Cons.IH False by (cases ps) simp_all
  qed
qed

text \<open>\<open>Path::join\<close> of a directory and a bare file name.\<close>

definition path_join :: "string \<Rightarrow> string \<Rightarrow> string" where
  "path_join dir name = (if dir = [] \<or> last dir = CHR ''/'' then dir @ name else dir @ ''/'' @ name)"

definition contains_str :: "string \<Rightarrow> string \<Rightarrow> bool" where
  "contains_str needle s = (\<exists>i \<in> set [0..<Suc (length s)]. strip_prefix needle (drop i s) \<noteq> None)"

text \<open>\<open>str::lines\<close>: pieces between newlines, a final empty piece dropped, a trailing carriage
  return removed from each.\<close>

definition strip_cr :: "string \<Rightarrow> string" where
  "strip_cr s = (case strip_suffix [CHR 0x0D] s of Some t \<Rightarrow> t | None \<Rightarrow> s)"

definition text_lines :: "string \<Rightarrow> string list" where
  "text_lines s =
     (let ps = split_on (CHR 0x0A) s
      in map strip_cr (if last ps = [] then butlast ps else ps))"

section \<open>Trimming\<close>

text \<open>
  The UTF-8 encodings of the characters with the Unicode property \<open>White_Space\<close>, which
  \<open>str::trim\<close> removes.
\<close>

definition white_space :: "string list" where
  "white_space =
     [[CHR 0x09], [CHR 0x0A], [CHR 0x0B], [CHR 0x0C], [CHR 0x0D], [CHR 0x20],
      [CHR 0xC2, CHR 0x85], [CHR 0xC2, CHR 0xA0], [CHR 0xE1, CHR 0x9A, CHR 0x80],
      [CHR 0xE2, CHR 0x80, CHR 0x80], [CHR 0xE2, CHR 0x80, CHR 0x81],
      [CHR 0xE2, CHR 0x80, CHR 0x82], [CHR 0xE2, CHR 0x80, CHR 0x83],
      [CHR 0xE2, CHR 0x80, CHR 0x84], [CHR 0xE2, CHR 0x80, CHR 0x85],
      [CHR 0xE2, CHR 0x80, CHR 0x86], [CHR 0xE2, CHR 0x80, CHR 0x87],
      [CHR 0xE2, CHR 0x80, CHR 0x88], [CHR 0xE2, CHR 0x80, CHR 0x89],
      [CHR 0xE2, CHR 0x80, CHR 0x8A], [CHR 0xE2, CHR 0x80, CHR 0xA8],
      [CHR 0xE2, CHR 0x80, CHR 0xA9], [CHR 0xE2, CHR 0x80, CHR 0xAF],
      [CHR 0xE2, CHR 0x81, CHR 0x9F], [CHR 0xE3, CHR 0x80, CHR 0x80]]"

text \<open>Drop leading members of a list of non-empty encodings, as long as one matches.\<close>

function drop_leading :: "string list \<Rightarrow> string \<Rightarrow> string" where
  "drop_leading ws s =
     (case find_map (\<lambda>w. if w = [] then None else strip_prefix w s) ws of
        None \<Rightarrow> s
      | Some t \<Rightarrow> drop_leading ws t)"
  by pat_completeness auto
termination
proof (relation "measure (\<lambda>(ws, s). length s)")
  show "wf (measure (\<lambda>(ws, s :: string). length s))" by simp
next
  fix ws :: "string list" and s t :: string
  assume "find_map (\<lambda>w. if w = [] then None else strip_prefix w s) ws = Some t"
  then obtain w where "w \<noteq> []" and "strip_prefix w s = Some t"
    by (auto dest!: find_map_Some split: if_splits)
  then show "((ws, t), ws, s) \<in> measure (\<lambda>(ws, s). length s)"
    by (auto simp: strip_prefix_Some)
qed

declare drop_leading.simps [simp del]

definition trim_start :: "string \<Rightarrow> string" where
  "trim_start s = drop_leading white_space s"

definition trim_end :: "string \<Rightarrow> string" where
  "trim_end s = rev (drop_leading (map rev white_space) (rev s))"

definition trim :: "string \<Rightarrow> string" where
  "trim s = trim_end (trim_start s)"

text \<open>A string of printable ASCII without blanks is left alone by \<open>trim\<close>.\<close>

definition ascii_graphic :: "char \<Rightarrow> bool" where
  "ascii_graphic c = (33 \<le> byte_val c \<and> byte_val c \<le> 126)"

lemma white_space_ends:
  assumes "w \<in> set white_space"
  shows "w \<noteq> [] \<and> \<not> ascii_graphic (hd w) \<and> \<not> ascii_graphic (last w)"
  using assms by (auto simp: white_space_def ascii_graphic_def byte_val_def)

lemma drop_leading_stop:
  assumes "\<And>w. w \<in> set ws \<Longrightarrow> w \<noteq> [] \<Longrightarrow> strip_prefix w s = None"
  shows "drop_leading ws s = s"
proof -
  have "find_map (\<lambda>w. if w = [] then None else strip_prefix w s) ws = None"
    using assms by (auto simp: find_map_None)
  then show ?thesis by (simp add: drop_leading.simps [of ws s])
qed

lemma trim_start_graphic:
  assumes "s = [] \<or> ascii_graphic (hd s)"
  shows "trim_start s = s"
  unfolding trim_start_def
proof (rule drop_leading_stop)
  fix w assume w: "w \<in> set white_space" and "w \<noteq> []"
  show "strip_prefix w s = None"
  proof (cases "strip_prefix w s")
    case None
    then show ?thesis .
  next
    case (Some t)
    then have "s = w @ t" by (simp add: strip_prefix_Some)
    with assms \<open>w \<noteq> []\<close> white_space_ends [OF w] show ?thesis by auto
  qed
qed

lemma trim_end_graphic:
  assumes "s = [] \<or> ascii_graphic (last s)"
  shows "trim_end s = s"
proof -
  have "drop_leading (map rev white_space) (rev s) = rev s"
  proof (rule drop_leading_stop)
    fix w assume w: "w \<in> set (map rev white_space)" and "w \<noteq> []"
    then obtain v where v: "v \<in> set white_space" "w = rev v" by auto
    show "strip_prefix w (rev s) = None"
    proof (cases "strip_prefix w (rev s)")
      case None
      then show ?thesis .
    next
      case (Some t)
      then have "rev s = rev v @ t" by (simp add: strip_prefix_Some v)
      then have "s = rev t @ v" by (metis rev_append rev_rev_ident)
      with assms v white_space_ends [OF v(1)] show ?thesis by auto
    qed
  qed
  then show ?thesis by (simp add: trim_end_def)
qed

lemma trim_graphic: "\<forall>c \<in> set s. ascii_graphic c \<Longrightarrow> trim s = s"
proof -
  assume a: "\<forall>c \<in> set s. ascii_graphic c"
  have "s = [] \<or> ascii_graphic (hd s)" and "s = [] \<or> ascii_graphic (last s)"
    using a by (cases s; auto)+
  then show ?thesis by (simp add: trim_def trim_start_graphic trim_end_graphic)
qed

lemma drop_leading_suffix: "\<exists>p. s = p @ drop_leading ws s"
proof (induction ws s rule: drop_leading.induct)
  case (1 ws s)
  show ?case
  proof (cases "find_map (\<lambda>w. if w = [] then None else strip_prefix w s) ws")
    case None
    then show ?thesis by (simp add: drop_leading.simps [of ws s])
  next
    case (Some t)
    then obtain w where w: "strip_prefix w s = Some t"
      by (auto dest!: find_map_Some split: if_splits)
    obtain q where "t = q @ drop_leading ws t" using 1 [OF Some] by auto
    then have "s = (w @ q) @ drop_leading ws t" using w by (simp add: strip_prefix_Some)
    moreover have "drop_leading ws s = drop_leading ws t" using Some by (simp add: drop_leading.simps [of ws s])
    ultimately show ?thesis by metis
  qed
qed

lemma set_trim: "set (trim s) \<subseteq> set s"
proof -
  have one: "set (trim_start t) \<subseteq> set t" for t
    using drop_leading_suffix [of t white_space] unfolding trim_start_def by (metis Un_upper2 set_append)
  have "set (trim_end t) \<subseteq> set t" for t
    using drop_leading_suffix [of "rev t" "map rev white_space"] unfolding trim_end_def
    by (metis Un_upper2 set_append set_rev)
  then show ?thesis using one [of s] unfolding trim_def by blast
qed

lemma join_nonempty: "xs \<noteq> [] \<Longrightarrow> \<forall>x \<in> set xs. x \<noteq> [] \<Longrightarrow> join sep xs \<noteq> []"
  by (induction sep xs rule: join.induct) auto

section \<open>Decimal numbers\<close>

text \<open>\<open>to_string\<close> of an unsigned integer.\<close>

fun show_nat :: "nat \<Rightarrow> string" where
  "show_nat n = (if n < 10 then [digit_char n] else show_nat (n div 10) @ [digit_char (n mod 10)])"

declare show_nat.simps [simp del]

definition digits_val :: "string \<Rightarrow> nat" where
  "digits_val s = foldl (\<lambda>acc c. acc * 10 + digit_val c) 0 s"

text \<open>
  \<open>str::parse\<close> for an unsigned integer type with the given maximum: an optional \<open>+\<close>, at least one
  ASCII digit, nothing else, and no overflow.
\<close>

definition parse_unsigned :: "nat \<Rightarrow> string \<Rightarrow> nat option" where
  "parse_unsigned mx s =
     (let ds = (case s of [] \<Rightarrow> [] | c # cs \<Rightarrow> if c = CHR ''+'' then cs else s)
      in if ds = [] \<or> \<not> list_all is_ascii_digit ds then None
         else if digits_val ds \<le> mx then Some (digits_val ds) else None)"

definition u8_max :: nat where "u8_max = 255"
definition u16_max :: nat where "u16_max = 65535"
definition u32_max :: nat where "u32_max = 4294967295"
definition usize_max :: nat where "usize_max = 18446744073709551615"

lemma show_nat_digits: "list_all is_ascii_digit (show_nat n)"
proof (induction n rule: show_nat.induct)
  case (1 n)
  then show ?case by (cases "n < 10") (simp_all add: show_nat.simps [of n])
qed

lemma show_nat_nonempty [simp]: "show_nat n \<noteq> []"
  by (subst show_nat.simps) simp

lemma digits_val_append: "digits_val (s @ [c]) = digits_val s * 10 + digit_val c"
  by (simp add: digits_val_def)

lemma digits_val_show_nat [simp]: "digits_val (show_nat n) = n"
proof (induction n rule: show_nat.induct)
  case (1 n)
  show ?case
  proof (cases "n < 10")
    case True
    then show ?thesis by (simp add: show_nat.simps [of n] digits_val_def)
  next
    case False
    with 1 show ?thesis
      by (simp add: show_nat.simps [of n] digits_val_append)
  qed
qed

lemma show_nat_inj: "show_nat m = show_nat n \<Longrightarrow> m = n"
  by (metis digits_val_show_nat)

lemma plus_not_digit: "\<not> is_ascii_digit (CHR ''+'')"
  by (simp add: is_ascii_digit_def byte_val_def)

lemma parse_unsigned_digits:
  assumes "ds \<noteq> []" and "list_all is_ascii_digit ds"
  shows "parse_unsigned mx ds = (if digits_val ds \<le> mx then Some (digits_val ds) else None)"
proof -
  obtain c cs where ds: "ds = c # cs" using assms(1) by (cases ds) auto
  with assms(2) have "c \<noteq> CHR ''+''" using plus_not_digit by auto
  with ds assms show ?thesis by (simp add: parse_unsigned_def)
qed

lemma parse_show_nat [simp]: "n \<le> mx \<Longrightarrow> parse_unsigned mx (show_nat n) = Some n"
  by (simp add: parse_unsigned_digits show_nat_digits)

lemma parse_unsigned_bound: "parse_unsigned mx s = Some n \<Longrightarrow> n \<le> mx"
  by (auto simp: parse_unsigned_def Let_def split: if_splits)

text \<open>A digit string without a leading zero is the printed form of its value.\<close>

lemma digits_val_pos:
  "list_all is_ascii_digit (c # s) \<Longrightarrow> digit_val c \<noteq> 0 \<Longrightarrow> digits_val (c # s) > 0"
proof (induction s rule: rev_induct)
  case Nil
  then show ?case by (simp add: digits_val_def)
next
  case (snoc x xs)
  then have "digits_val (c # xs) > 0" by simp
  then show ?case using digits_val_append [of "c # xs" x] by simp
qed

lemma show_nat_digits_val:
  assumes "list_all is_ascii_digit ds" and "ds \<noteq> []" and "hd ds \<noteq> CHR ''0'' \<or> length ds = 1"
  shows "show_nat (digits_val ds) = ds"
  using assms
proof (induction ds rule: rev_induct)
  case Nil
  then show ?case by simp
next
  case (snoc x xs)
  show ?case
  proof (cases "xs = []")
    case True
    with snoc.prems show ?thesis
      using digit_val_less [of x] by (simp add: digits_val_def show_nat.simps digit_char_digit_val)
  next
    case False
    then obtain c cs where xs: "xs = c # cs" by (cases xs) auto
    have dig: "list_all is_ascii_digit xs" "is_ascii_digit x" using snoc.prems(1) by simp_all
    have c0: "c \<noteq> CHR ''0''" using snoc.prems(3) xs by simp
    have "digit_val c \<noteq> 0"
    proof
      assume "digit_val c = 0"
      moreover have "digit_char (digit_val c) = c" using dig xs by (simp add: digit_char_digit_val)
      ultimately have "c = char_of (48 :: nat)" by (simp add: digit_char_def)
      also have "\<dots> = CHR ''0''" by code_simp
      finally show False using c0 by simp
    qed
    then have pos: "digits_val xs > 0" using digits_val_pos dig xs by simp
    have IH: "show_nat (digits_val xs) = xs" using snoc.IH dig False c0 xs by simp
    have "digit_val x < 10" using dig(2) by (rule digit_val_less)
    then show ?thesis
      using pos IH dig(2)
      by (simp add: digits_val_append show_nat.simps [of "digits_val xs * 10 + digit_val x"]
          digit_char_digit_val)
  qed
qed

text \<open>Printing of \<open>i64\<close>/\<open>i32\<close> values.\<close>

definition show_int :: "int \<Rightarrow> string" where
  "show_int i = (if i < 0 then CHR ''-'' # show_nat (nat (- i)) else show_nat (nat i))"

lemma ascii_graphic_digit: "is_ascii_digit c \<Longrightarrow> ascii_graphic c"
  by (simp add: is_ascii_digit_def ascii_graphic_def)

lemma show_nat_no_char:
  assumes "\<not> is_ascii_digit c" shows "c \<notin> set (show_nat n)"
  using show_nat_digits [of n] assms by (auto simp: list_all_iff)

lemma trim_show_nat [simp]: "trim (show_nat n) = show_nat n"
  using show_nat_digits [of n]
  by (intro trim_graphic) (auto simp: list_all_iff ascii_graphic_digit)

end
