(* ===== verification/Auth.thy ===== *)
theory Auth
  imports Rust_Text "HOL-Library.Word"
begin

unbundle bit_operations_syntax

text \<open>
  Shared-secret Bearer checks (\<open>src/src/auth.rs\<close>).  The request's header map belongs to the
  \<open>http\<close> crate; what the code reads of it is the \<open>Authorization\<close> value as a string, if there is
  one and it is readable as such, so that is the argument of the definitions here.
\<close>

section \<open>Model\<close>

definition bearer :: "string option \<Rightarrow> string option" where
  "bearer authorization = Option.bind authorization (strip_prefix ''Bearer '')"

definition byte_word :: "char \<Rightarrow> 8 word" where
  "byte_word c = word_of_nat (byte_val c)"

text \<open>The constant-time comparison: the byte loop accumulates every difference.\<close>

definition tokens_diff :: "string \<Rightarrow> string \<Rightarrow> 8 word" where
  "tokens_diff presented expected =
     foldl (\<lambda>diff (left, right). diff OR (byte_word left XOR byte_word right)) 0
       (zip presented expected)"

definition tokens_match :: "string \<Rightarrow> string \<Rightarrow> bool" where
  "tokens_match presented expected =
     (if length presented \<noteq> length expected then False
      else tokens_diff presented expected = 0)"

definition bearer_matches :: "string option \<Rightarrow> string \<Rightarrow> bool" where
  "bearer_matches authorization expected =
     (expected \<noteq> [] \<and>
      (case bearer authorization of None \<Rightarrow> False | Some presented \<Rightarrow> tokens_match presented expected))"

section \<open>The comparison decides equality\<close>

lemma byte_val_less: "byte_val c < 256"
  by (simp add: byte_val_def)

lemma byte_word_inj: "byte_word a = byte_word b \<longleftrightarrow> a = b"
proof
  assume "byte_word a = byte_word b"
  then have "unat (byte_word a) = unat (byte_word b)" by simp
  then have "byte_val a = byte_val b"
    using byte_val_less [of a] byte_val_less [of b]
    by (simp add: byte_word_def unat_of_nat)
  then show "a = b" by (simp add: byte_val_def)
qed simp

lemma or_eq_zero: "(a :: 8 word) OR b = 0 \<longleftrightarrow> a = 0 \<and> b = 0"
  by (auto simp: bit_eq_iff bit_simps)

lemma xor_eq_zero: "(a :: 8 word) XOR b = 0 \<longleftrightarrow> a = b"
  by (auto simp: bit_eq_iff bit_simps)

lemma fold_diff_zero:
  "foldl (\<lambda>diff (left, right). diff OR (byte_word left XOR byte_word right)) d ps = 0
     \<longleftrightarrow> d = 0 \<and> (\<forall>(left, right) \<in> set ps. left = right)"
  by (induction ps arbitrary: d) (auto simp: or_eq_zero xor_eq_zero byte_word_inj)

lemma zip_all_eq:
  "length xs = length ys \<Longrightarrow> (\<forall>(x, y) \<in> set (zip xs ys). x = y) \<longleftrightarrow> xs = ys"
  by (induction xs ys rule: list_induct2) auto

lemma tokens_match_eq: "tokens_match p e \<longleftrightarrow> p = e"
  by (auto simp: tokens_match_def tokens_diff_def fold_diff_zero zip_all_eq)

lemma bearer_Some: "bearer a = Some t \<longleftrightarrow> a = Some (''Bearer '' @ t)"
  by (cases a) (auto simp: bearer_def strip_prefix_Some)

lemma bearer_matches_eq:
  "bearer_matches a e \<longleftrightarrow> e \<noteq> [] \<and> a = Some (''Bearer '' @ e)"
proof (cases "bearer a")
  case None
  then have "a \<noteq> Some (''Bearer '' @ e)" using bearer_Some [of a e] by auto
  with None show ?thesis by (simp add: bearer_matches_def)
next
  case (Some t)
  then have "a = Some (''Bearer '' @ t)" by (simp add: bearer_Some)
  with Some show ?thesis by (auto simp: bearer_matches_def tokens_match_eq)
qed

section \<open>Properties\<close>

text \<open>A request passes exactly when its Authorization value is \<open>Bearer\<close>, one space and the whole
  expected secret; an unset secret is matched by nothing, and the constant-time loop decides
  byte-for-byte equality.\<close>

lemma bearer_matches_exact:
  "bearer_matches authorization expected \<longleftrightarrow>
     expected \<noteq> [] \<and> authorization = Some (''Bearer '' @ expected)"
  by (rule bearer_matches_eq)

end
