(* ===== verification/App_Error.thy ===== *)
theory App_Error
  imports Rust_Text
begin

text \<open>
  The application-wide error type (\<open>src/src/error.rs\<close>): its constructors, the text its
  \<open>Display\<close> prints and the HTTP status its \<open>IntoResponse\<close> answers with.
\<close>

datatype app_error =
    Sgf string
  | NotFound
  | BadRequest string
  | Unauthorized
  | Inference string
  | ModelLoad string
  | Db string
  | Queue string
  | Internal string

text \<open>\<open>AppResult<T>\<close>.\<close>

type_synonym 'a app_result = "app_error + 'a"

text \<open>\<open>Display\<close>, the \<open>#[error(...)]\<close> attributes.\<close>

fun error_text :: "app_error \<Rightarrow> string" where
  "error_text (Sgf m) = ''invalid SGF: '' @ m"
| "error_text NotFound = ''not found''"
| "error_text (BadRequest m) = ''bad request: '' @ m"
| "error_text Unauthorized = ''unauthorized''"
| "error_text (Inference m) = ''inference error: '' @ m"
| "error_text (ModelLoad m) = ''model load error: '' @ m"
| "error_text (Db m) = ''database error: '' @ m"
| "error_text (Queue m) = ''queue error: '' @ m"
| "error_text (Internal m) = ''internal error: '' @ m"

text \<open>\<open>From<diesel::result::Error>\<close>: a transaction-management failure is a database error.\<close>

definition from_diesel :: "string \<Rightarrow> app_error" where
  "from_diesel err = Db err"

text \<open>The status line of \<open>IntoResponse\<close>; the body is \<open>{"error": error_text e}\<close>.\<close>

record error_body =
  error :: string

fun error_status :: "app_error \<Rightarrow> nat" where
  "error_status (Sgf _) = 400"
| "error_status (BadRequest _) = 400"
| "error_status NotFound = 404"
| "error_status Unauthorized = 401"
| "error_status _ = 500"

definition into_response :: "app_error \<Rightarrow> nat \<times> error_body" where
  "into_response e = (error_status e, \<lparr>error = error_text e\<rparr>)"

text \<open>The errors a client can cause are exactly those answered below 500.\<close>

definition client_error :: "app_error \<Rightarrow> bool" where
  "client_error e = (case e of Sgf _ \<Rightarrow> True | BadRequest _ \<Rightarrow> True | NotFound \<Rightarrow> True
                      | Unauthorized \<Rightarrow> True | _ \<Rightarrow> False)"

lemma error_status_client: "error_status e < 500 \<longleftrightarrow> client_error e"
  by (cases e) (simp_all add: client_error_def)

lemma error_text_nonempty [simp]: "error_text e \<noteq> []"
  by (cases e) simp_all

end
