(* ===== verification/Human.thy ===== *)
theory Human
  imports App_Error
begin

text \<open>
  Human SL profiles (\<open>src/src/engine/human.rs\<close>): the grammar a submitted profile is checked
  against.  \<open>str::split_at\<close> panics inside a multi-byte character, so the checks return an option:
  \<open>None\<close> is the panic.
\<close>

section \<open>Model\<close>

definition is_rank :: "string \<Rightarrow> bool option" where
  "is_rank rank =
     (case split_at rank (length rank - 1) of
        None \<Rightarrow> None
      | Some (number, unit) \<Rightarrow> Some
          (if strip_prefix ''0'' number \<noteq> None \<or> \<not> list_all is_ascii_digit number then False
           else case parse_unsigned u8_max number of
                  None \<Rightarrow> False
                | Some n \<Rightarrow>
                    if unit = ''k'' then 1 \<le> n \<and> n \<le> 20
                    else if unit = ''d'' then 1 \<le> n \<and> n \<le> 9
                    else False))"

definition valid_year :: "string \<Rightarrow> bool" where
  "valid_year year =
     (length year = 4 \<and> list_all is_ascii_digit year \<and>
      (case parse_unsigned u16_max year of None \<Rightarrow> False | Some y \<Rightarrow> 1800 \<le> y \<and> y \<le> 2023))"

text \<open>The ranks of either family: one, or Black's and White's (\<open>&&\<close> evaluates left to right).\<close>

definition ranks_valid :: "string \<Rightarrow> bool option" where
  "ranks_valid ranks =
     (case split_once (CHR ''_'') ranks of
        None \<Rightarrow> is_rank ranks
      | Some (black, white) \<Rightarrow>
          (case is_rank black of
             None \<Rightarrow> None
           | Some False \<Rightarrow> Some False
           | Some True \<Rightarrow> is_rank white))"

definition profile_valid :: "string \<Rightarrow> bool option" where
  "profile_valid profile =
     (case strip_prefix ''proyear_'' profile of
        Some year \<Rightarrow> Some (valid_year year)
      | None \<Rightarrow>
          (case opt_or (strip_prefix ''rank_'' profile) (strip_prefix ''preaz_'' profile) of
             None \<Rightarrow> Some False
           | Some ranks \<Rightarrow> ranks_valid ranks))"

definition human_validate :: "string \<Rightarrow> unit app_result option" where
  "human_validate profile =
     (case profile_valid profile of
        None \<Rightarrow> None
      | Some True \<Rightarrow> Some (Inr ())
      | Some False \<Rightarrow> Some (Inl (BadRequest
          (''unknown human_profile '' @ [CHR 0x27] @ profile @ [CHR 0x27] @
           '': expected rank_<R>, rank_<B>_<W>, preaz_<R>, preaz_<B>_<W> (R from 20k to 9d) or proyear_<1800..2023>''))))"

text \<open>\<open>human::parse\<close>: an absent or blank profile means none.\<close>

definition human_parse :: "string option \<Rightarrow> string option app_result option" where
  "human_parse profile =
     (case map_option trim profile of
        None \<Rightarrow> Some (Inr None)
      | Some p \<Rightarrow>
          if p = [] then Some (Inr None)
          else map_option (res_map (\<lambda>_. Some p)) (human_validate p))"

section \<open>The accepted profiles, enumerated\<close>

definition rank_names :: "string list" where
  "rank_names = map (\<lambda>n. show_nat n @ ''k'') [1..<21] @ map (\<lambda>n. show_nat n @ ''d'') [1..<10]"

text \<open>The profiles of KataGo's grammar, one clause per family.\<close>

definition katago_profile :: "string \<Rightarrow> bool" where
  "katago_profile p =
     ((\<exists>pre \<in> {''rank_'', ''preaz_''}. \<exists>r \<in> set rank_names. p = pre @ r) \<or>
      (\<exists>pre \<in> {''rank_'', ''preaz_''}. \<exists>b \<in> set rank_names. \<exists>w \<in> set rank_names.
         p = pre @ b @ ''_'' @ w) \<or>
      (\<exists>y \<in> {1800..2023}. p = ''proyear_'' @ show_nat y))"

lemma not_continuation_ascii: "byte_val c < 128 \<Longrightarrow> \<not> is_continuation c"
  by (simp add: is_continuation_def)

lemma is_rank_panics:
  "is_rank r = None \<longleftrightarrow> 2 \<le> length r \<and> is_continuation (last r)"
proof (cases r rule: rev_cases)
  case Nil
  then show ?thesis by (simp add: is_rank_def split_at_def is_char_boundary_def)
next
  case (snoc xs x)
  then show ?thesis
    by (cases xs) (auto simp: is_rank_def split_at_def is_char_boundary_def nth_append)
qed

lemma is_rank_snoc:
  assumes "\<not> is_continuation u \<or> number = []"
  shows "is_rank (number @ [u]) = Some True \<longleftrightarrow>
    list_all is_ascii_digit number \<and> number \<noteq> [] \<and> hd number \<noteq> CHR ''0'' \<and>
    (u = CHR ''k'' \<and> 1 \<le> digits_val number \<and> digits_val number \<le> 20 \<or>
     u = CHR ''d'' \<and> 1 \<le> digits_val number \<and> digits_val number \<le> 9)"
proof (cases "number = []")
  case True
  then show ?thesis
    by (simp add: is_rank_def split_at_def is_char_boundary_def parse_unsigned_def)
next
  case False
  then obtain c cs where number: "number = c # cs" by (cases number) auto
  have "split_at (number @ [u]) (length (number @ [u]) - 1) = Some (number, [u])"
    using assms False by (simp add: split_at_def is_char_boundary_def)
  then show ?thesis
    using False number
    by (auto simp: is_rank_def parse_unsigned_digits u8_max_def split: if_splits)
qed

lemma rank_name_head:
  assumes "1 \<le> n" shows "hd (show_nat n) \<noteq> CHR ''0''"
  using assms
proof (induction n rule: show_nat.induct)
  case (1 n)
  show ?case
  proof (cases "n < 10")
    case True
    have zero: "CHR ''0'' = digit_char 0" by code_simp
    have "digit_char n \<noteq> digit_char 0"
      using True 1(2) digit_val_digit_char [of n] digit_val_digit_char [of 0] by fastforce
    then show ?thesis using True zero by (simp add: show_nat.simps [of n])
  next
    case False
    with 1 have "hd (show_nat (n div 10)) \<noteq> CHR ''0''" by simp
    then show ?thesis using False by (simp add: show_nat.simps [of n])
  qed
qed

lemma rank_names_iff:
  "r \<in> set rank_names \<longleftrightarrow>
     (\<exists>n. 1 \<le> n \<and> n \<le> 20 \<and> r = show_nat n @ ''k'') \<or>
     (\<exists>n. 1 \<le> n \<and> n \<le> 9 \<and> r = show_nat n @ ''d'')"
  by (auto simp: rank_names_def image_iff Bex_def)

lemma is_rank_accepts: "is_rank r = Some True \<longleftrightarrow> r \<in> set rank_names"
proof (cases r rule: rev_cases)
  case Nil
  then show ?thesis
    by (auto simp: rank_names_iff is_rank_def split_at_def is_char_boundary_def parse_unsigned_def)
next
  case (snoc number u)
  show ?thesis
  proof
    assume acc: "is_rank r = Some True"
    then have "\<not> is_continuation u \<or> number = []"
      using is_rank_panics [of r] snoc by (cases number) auto
    note iff = is_rank_snoc [OF this]
    have d: "list_all is_ascii_digit number" "number \<noteq> []" "hd number \<noteq> CHR ''0''"
      using acc iff snoc by auto
    then have "show_nat (digits_val number) = number" by (simp add: show_nat_digits_val)
    then show "r \<in> set rank_names" using acc iff snoc unfolding rank_names_iff by metis
  next
    assume "r \<in> set rank_names"
    then obtain n where n: "1 \<le> n" "number = show_nat n"
        "u = CHR ''k'' \<and> n \<le> 20 \<or> u = CHR ''d'' \<and> n \<le> 9"
      using snoc unfolding rank_names_iff by auto
    then have "\<not> is_continuation u" by (auto simp: is_continuation_def byte_val_def)
    then show "is_rank r = Some True"
      using n snoc is_rank_snoc [of u number] rank_name_head [of n]
      by (simp add: show_nat_digits)
  qed
qed

lemma rank_name_no_underscore: "r \<in> set rank_names \<Longrightarrow> CHR ''_'' \<notin> set r"
  using show_nat_no_char [of "CHR ''_''"]
  by (auto simp: rank_names_iff is_ascii_digit_def byte_val_def)

lemma digits_val_upper: "list_all is_ascii_digit ds \<Longrightarrow> digits_val ds < 10 ^ length ds"
proof (induction ds rule: rev_induct)
  case Nil
  then show ?case by (simp add: digits_val_def)
next
  case (snoc x xs)
  then have "digits_val xs < 10 ^ length xs" and "digit_val x < 10"
    by (simp_all add: digit_val_less)
  then show ?case by (simp add: digits_val_append)
qed

lemma valid_year_iff: "valid_year s \<longleftrightarrow> (\<exists>y \<in> {1800..2023}. s = show_nat y)"
proof
  assume v: "valid_year s"
  then have len: "length s = 4" and dig: "list_all is_ascii_digit s" by (simp_all add: valid_year_def)
  then obtain c cs where s: "s = c # cs" by (cases s) auto
  have "s \<noteq> []" using s by simp
  then have y: "1800 \<le> digits_val s" "digits_val s \<le> 2023"
    using v dig by (auto simp: valid_year_def parse_unsigned_digits u16_max_def split: if_splits)
  have "hd s \<noteq> CHR ''0''"
  proof
    assume "hd s = CHR ''0''"
    then have "digits_val s = digits_val cs"
      using s by (simp add: digits_val_def digit_val_def byte_val_def)
    moreover have "digits_val cs < 10 ^ 3"
      using digits_val_upper [of cs] dig len s by simp
    ultimately show False using y by simp
  qed
  then have "show_nat (digits_val s) = s"
    using dig \<open>s \<noteq> []\<close> by (intro show_nat_digits_val) auto
  then show "\<exists>y \<in> {1800..2023}. s = show_nat y" using y by (metis atLeastAtMost_iff)
next
  assume "\<exists>y \<in> {1800..2023}. s = show_nat y"
  then obtain y where y: "1800 \<le> y" "y \<le> 2023" "s = show_nat y" by auto
  have "length s = 4"
  proof -
    have "length (show_nat y) = Suc (length (show_nat (y div 10)))"
      using y by (subst show_nat.simps) simp
    also have "length (show_nat (y div 10)) = Suc (length (show_nat (y div 100)))"
      using y by (subst show_nat.simps) (simp add: div_mult2_eq [symmetric])
    also have "length (show_nat (y div 100)) = Suc (length (show_nat (y div 1000)))"
      using y by (subst show_nat.simps) (simp add: div_mult2_eq [symmetric])
    also have "length (show_nat (y div 1000)) = 1"
      using y by (subst show_nat.simps) simp
    finally show ?thesis using y by simp
  qed
  then show "valid_year s" using y by (simp add: valid_year_def show_nat_digits u16_max_def)
qed

lemma ranks_valid_iff:
  "ranks_valid s = Some True \<longleftrightarrow>
     s \<in> set rank_names \<or> (\<exists>b \<in> set rank_names. \<exists>w \<in> set rank_names. s = b @ ''_'' @ w)"
proof (cases "split_once (CHR ''_'') s")
  case None
  then have "CHR ''_'' \<notin> set s" by (simp add: split_once_None)
  with None show ?thesis by (auto simp: ranks_valid_def is_rank_accepts)
next
  case (Some p)
  then obtain b w where p: "split_once (CHR ''_'') s = Some (b, w)" by (cases p) auto
  then have s: "s = b @ CHR ''_'' # w" "CHR ''_'' \<notin> set b" by (simp_all add: split_once_Some)
  have lhs: "ranks_valid s = Some True \<longleftrightarrow> b \<in> set rank_names \<and> w \<in> set rank_names"
    using p by (auto simp: ranks_valid_def is_rank_accepts [symmetric] split: option.splits bool.splits)
  have "s \<notin> set rank_names" using s rank_name_no_underscore [of s] by auto
  moreover have "s = b' @ ''_'' @ w' \<and> b' \<in> set rank_names \<Longrightarrow> b' = b \<and> w' = w" for b' w'
    using p rank_name_no_underscore [of b'] split_once_append [of "CHR ''_''" b' w'] by auto
  ultimately have "(s \<in> set rank_names \<or> (\<exists>b' \<in> set rank_names. \<exists>w' \<in> set rank_names. s = b' @ ''_'' @ w'))
      \<longleftrightarrow> b \<in> set rank_names \<and> w \<in> set rank_names"
    using s(1) by (metis append_Cons append_Nil)
  with lhs show ?thesis by simp
qed

lemma strip_prefix_three_cases:
  obtains (first) t where "s = a @ t" | (second) t where "s = b @ t" | (third) t where "s = c @ t"
    | (other) "strip_prefix a s = None" "strip_prefix b s = None" "strip_prefix c s = None"
  by (metis not_None_eq strip_prefix_Some)

lemma profile_valid_iff: "profile_valid p = Some True \<longleftrightarrow> katago_profile p"
proof (cases rule: strip_prefix_three_cases [where s = p and a = "''proyear_''" and b = "''rank_''" and c = "''preaz_''"])
  case (first t)
  then show ?thesis
    by (simp add: profile_valid_def valid_year_iff katago_profile_def)
next
  case (second t)
  then show ?thesis
    by (simp add: profile_valid_def ranks_valid_iff katago_profile_def)
next
  case (third t)
  then show ?thesis
    by (simp add: profile_valid_def ranks_valid_iff katago_profile_def)
next
  case other
  have "\<not> katago_profile p"
  proof
    assume "katago_profile p"
    then consider t where "p = ''proyear_'' @ t" | t where "p = ''rank_'' @ t"
      | t where "p = ''preaz_'' @ t"
      unfolding katago_profile_def by blast
    then show False using other by cases (simp_all only: strip_prefix_append option.distinct)
  qed
  with other show ?thesis by (simp add: profile_valid_def)
qed

lemma ranks_valid_panics:
  assumes "ranks_valid s = None" shows "\<exists>c \<in> set s. is_continuation c"
proof (cases "split_once (CHR ''_'') s")
  case None
  then have "2 \<le> length s" "is_continuation (last s)"
    using assms by (simp_all add: ranks_valid_def is_rank_panics)
  then show ?thesis by (intro bexI [of _ "last s"] last_in_set) auto
next
  case (Some q)
  then obtain b w where q: "split_once (CHR ''_'') s = Some (b, w)" by (cases q) auto
  then have "is_rank b = None \<or> is_rank w = None"
    using assms by (auto simp: ranks_valid_def split: option.splits bool.splits)
  then have "2 \<le> length b \<and> is_continuation (last b) \<or> 2 \<le> length w \<and> is_continuation (last w)"
    by (simp add: is_rank_panics)
  moreover have "s = b @ CHR ''_'' # w" using q by (simp add: split_once_Some)
  ultimately obtain c where "c \<in> set b \<or> c \<in> set w" "is_continuation c"
    by (metis last_in_set list.size(3) not_numeral_le_zero)
  with \<open>s = b @ CHR ''_'' # w\<close> show ?thesis by auto
qed

lemma profile_valid_panics:
  assumes "profile_valid p = None" shows "\<exists>c \<in> set p. is_continuation c"
proof -
  from assms obtain s where s: "opt_or (strip_prefix ''rank_'' p) (strip_prefix ''preaz_'' p) = Some s"
      "ranks_valid s = None"
    by (auto simp: profile_valid_def split: option.splits)
  then have "\<exists>pre. p = pre @ s"
    by (cases "strip_prefix ''rank_'' p") (auto simp: strip_prefix_Some)
  with ranks_valid_panics [OF s(2)] show ?thesis by auto
qed

section \<open>Properties\<close>

lemma human_validate_ok: "human_validate p = Some (Inr ()) \<longleftrightarrow> katago_profile p"
  using profile_valid_iff [of p] by (auto simp: human_validate_def split: option.splits bool.splits)

lemma human_validate_ascii:
  assumes "\<forall>c \<in> set p. byte_val c < 128" shows "human_validate p \<noteq> None"
proof -
  have "profile_valid p \<noteq> None"
    using profile_valid_panics [of p] assms not_continuation_ascii by blast
  then show ?thesis by (auto simp: human_validate_def split: option.splits bool.splits)
qed

text \<open>A submitted profile is accepted exactly when, trimmed, it is blank (then it means none) or one
  of KataGo's profiles, and then it is kept trimmed.\<close>

lemma human_parse_accepts:
  "human_parse (Some s) = Some (Inr r) \<longleftrightarrow>
     (trim s = [] \<and> r = None) \<or> (trim s \<noteq> [] \<and> katago_profile (trim s) \<and> r = Some (trim s))"
proof (cases "trim s = []")
  case True
  then show ?thesis by (auto simp: human_parse_def)
next
  case False
  have "human_parse (Some s) = Some (Inr r) \<longleftrightarrow> human_validate (trim s) = Some (Inr ()) \<and> r = Some (trim s)"
    using False by (auto simp: human_parse_def res_map_eq_Inr)
  then show ?thesis using False by (simp add: human_validate_ok)
qed

text \<open>No ASCII input makes the check panic, and whatever it refuses it refuses as the client's
  error (status 400).\<close>

lemma human_parse_answers:
  assumes "\<forall>c \<in> set s. byte_val c < 128"
  shows "\<exists>r. human_parse (Some s) = Some r \<and> (is_ok r \<or> error_status (projl r) = 400)"
proof -
  have "human_validate (trim s) \<noteq> None"
    using assms set_trim [of s] by (intro human_validate_ascii) auto
  then obtain v where v: "human_validate (trim s) = Some v" by auto
  then have "is_ok v \<or> error_status (projl v) = 400"
    by (auto simp: human_validate_def split: option.splits bool.splits)
  then show ?thesis using v by (cases v) (auto simp: human_parse_def)
qed

theorem human_parse_answers_witness:
  "\<exists>r. human_parse (Some ''rank_05k'') = Some r \<and> (is_ok r \<or> error_status (projl r) = 400)"
  by (rule human_parse_answers) (simp add: byte_val_def)

text \<open>Outside ASCII the check can panic: a rank ending in a two-byte character.\<close>

lemma human_validate_panics_multibyte:
  "human_validate (''rank_5'' @ [CHR 0xC3, CHR 0xA9]) = None"
  by code_simp

end
