(* ===== verification/Rust_Float.thy ===== *)
theory Rust_Float
  imports Prelude Complex_Main
begin

text \<open>
  Binary floating point.  A value is a rational, an infinity or NaN; the sign of zero is not kept
  (the program never divides by a value that can be zero and never prints a zero's sign).
  Every finite result is the exact rational result rounded once, to nearest with ties to even, in
  the format's precision: \<open>f32\<close> and \<open>f64\<close> differ only in the \<open>fmt\<close> argument.
\<close>

section \<open>Values and formats\<close>

datatype fl = NaN | PInf | NInf | Fin rat

record fmt =
  prec :: nat
  emin :: int
  emax :: int

definition f32 :: fmt where "f32 = \<lparr>prec = 24, emin = - 149, emax = 128\<rparr>"
definition f64 :: fmt where "f64 = \<lparr>prec = 53, emin = - 1074, emax = 1024\<rparr>"

definition pow2 :: "int \<Rightarrow> rat" where
  "pow2 k = (if 0 \<le> k then 2 ^ nat k else 1 / 2 ^ nat (- k))"

text \<open>The floor of the binary logarithm, on \<open>int\<close> so that it evaluates on binary numerals.\<close>

function zlog2 :: "int \<Rightarrow> int" where
  "zlog2 n = (if n < 2 then 0 else 1 + zlog2 (n div 2))"
  by pat_completeness auto
termination by (relation "measure nat") auto

declare zlog2.simps [simp del]

text \<open>The exponent of the leading bit of a positive rational.\<close>

definition ilog2 :: "rat \<Rightarrow> int" where
  "ilog2 x =
     (let (a, b) = quotient_of x;
          k = zlog2 a - zlog2 b
      in if pow2 k \<le> x then k else k - 1)"

definition round_half_even :: "rat \<Rightarrow> int" where
  "round_half_even x =
     (let f = \<lfloor>x\<rfloor>; d = x - of_int f
      in if d < 1 / 2 then f else if 1 / 2 < d then f + 1 else if even f then f else f + 1)"

text \<open>The quantum of a value: the weight of the last bit of its significand.\<close>

definition quantum :: "fmt \<Rightarrow> rat \<Rightarrow> int" where
  "quantum m x = max (ilog2 x - (int (prec m) - 1)) (emin m)"

definition rnd_rat :: "fmt \<Rightarrow> rat \<Rightarrow> rat" where
  "rnd_rat m x =
     (if x = 0 then 0
      else let q = quantum m \<bar>x\<bar> in sgn x * of_int (round_half_even (\<bar>x\<bar> / pow2 q)) * pow2 q)"

definition rnd :: "fmt \<Rightarrow> rat \<Rightarrow> fl" where
  "rnd m x =
     (let y = rnd_rat m x
      in if y = 0 \<or> ilog2 \<bar>y\<bar> < emax m then Fin y else if 0 < y then PInf else NInf)"

section \<open>Operations\<close>

fun fneg :: "fl \<Rightarrow> fl" where
  "fneg NaN = NaN" | "fneg PInf = NInf" | "fneg NInf = PInf" | "fneg (Fin x) = Fin (- x)"

fun fabs :: "fl \<Rightarrow> fl" where
  "fabs NaN = NaN" | "fabs PInf = PInf" | "fabs NInf = PInf" | "fabs (Fin x) = Fin \<bar>x\<bar>"

fun fadd :: "fmt \<Rightarrow> fl \<Rightarrow> fl \<Rightarrow> fl" where
  "fadd m (Fin x) (Fin y) = rnd m (x + y)"
| "fadd m NaN _ = NaN"
| "fadd m _ NaN = NaN"
| "fadd m PInf NInf = NaN"
| "fadd m NInf PInf = NaN"
| "fadd m PInf _ = PInf"
| "fadd m NInf _ = NInf"
| "fadd m (Fin _) y = y"

definition fsub :: "fmt \<Rightarrow> fl \<Rightarrow> fl \<Rightarrow> fl" where
  "fsub m x y = fadd m x (fneg y)"

definition finf :: "rat \<Rightarrow> fl" where
  "finf s = (if s = 0 then NaN else if 0 < s then PInf else NInf)"

fun fmul :: "fmt \<Rightarrow> fl \<Rightarrow> fl \<Rightarrow> fl" where
  "fmul m (Fin x) (Fin y) = rnd m (x * y)"
| "fmul m NaN _ = NaN"
| "fmul m _ NaN = NaN"
| "fmul m PInf PInf = PInf"
| "fmul m PInf NInf = NInf"
| "fmul m NInf PInf = NInf"
| "fmul m NInf NInf = PInf"
| "fmul m PInf (Fin y) = finf y"
| "fmul m NInf (Fin y) = finf (- y)"
| "fmul m (Fin x) PInf = finf x"
| "fmul m (Fin x) NInf = finf (- x)"

text \<open>Division by zero takes the dividend's sign: the divisor's zero is a positive one.\<close>

fun fdiv :: "fmt \<Rightarrow> fl \<Rightarrow> fl \<Rightarrow> fl" where
  "fdiv m (Fin x) (Fin y) = (if y = 0 then finf x else rnd m (x / y))"
| "fdiv m NaN _ = NaN"
| "fdiv m _ NaN = NaN"
| "fdiv m (Fin x) _ = Fin 0"
| "fdiv m PInf (Fin y) = (if y < 0 then NInf else PInf)"
| "fdiv m NInf (Fin y) = (if y < 0 then PInf else NInf)"
| "fdiv m _ _ = NaN"

text \<open>IEEE order: every comparison with NaN is false.\<close>

fun fle :: "fl \<Rightarrow> fl \<Rightarrow> bool" where
  "fle NaN _ = False"
| "fle _ NaN = False"
| "fle NInf _ = True"
| "fle _ PInf = True"
| "fle (Fin x) (Fin y) = (x \<le> y)"
| "fle _ _ = False"

definition flt :: "fl \<Rightarrow> fl \<Rightarrow> bool" where
  "flt x y = (fle x y \<and> \<not> fle y x)"

text \<open>\<open>f32::max\<close>/\<open>min\<close>: NaN loses against a number.\<close>

definition fmax :: "fl \<Rightarrow> fl \<Rightarrow> fl" where
  "fmax x y = (if x = NaN then y else if y = NaN then x else if fle x y then y else x)"

definition fmin :: "fl \<Rightarrow> fl \<Rightarrow> fl" where
  "fmin x y = (if x = NaN then y else if y = NaN then x else if fle x y then x else y)"

text \<open>\<open>f32::clamp\<close>: NaN stays NaN.\<close>

definition fclamp :: "fl \<Rightarrow> fl \<Rightarrow> fl \<Rightarrow> fl" where
  "fclamp x lo hi = (if flt x lo then lo else if flt hi x then hi else x)"

text \<open>\<open>f32::round\<close>: half away from zero; the result of rounding to an integer is representable.\<close>

definition round_half_away :: "rat \<Rightarrow> int" where
  "round_half_away x = (if 0 \<le> x then \<lfloor>x + 1 / 2\<rfloor> else - \<lfloor>- x + 1 / 2\<rfloor>)"

fun fround :: "fl \<Rightarrow> fl" where
  "fround (Fin x) = Fin (of_int (round_half_away x))"
| "fround x = x"

text \<open>\<open>as\<close> casts to an integer type with the given range: truncate, saturate, NaN is 0.\<close>

definition trunc_rat :: "rat \<Rightarrow> int" where
  "trunc_rat x = (if 0 \<le> x then \<lfloor>x\<rfloor> else - \<lfloor>- x\<rfloor>)"

fun fcast :: "int \<Rightarrow> int \<Rightarrow> fl \<Rightarrow> int" where
  "fcast lo hi NaN = 0"
| "fcast lo hi PInf = hi"
| "fcast lo hi NInf = lo"
| "fcast lo hi (Fin x) = max lo (min hi (trunc_rat x))"

definition of_nat_fl :: "fmt \<Rightarrow> nat \<Rightarrow> fl" where
  "of_nat_fl m n = rnd m (of_nat n)"

text \<open>A literal of the source, and the cast between the two formats.\<close>

definition lit :: "fmt \<Rightarrow> rat \<Rightarrow> fl" where
  "lit m x = rnd m x"

fun fconv :: "fmt \<Rightarrow> fl \<Rightarrow> fl" where
  "fconv m (Fin x) = rnd m x"
| "fconv m x = x"

text \<open>
  The correctly rounded square root.  \<open>isqrt\<close> is the integer square root; \<open>fsqrt\<close> takes it at a
  scale fine enough that the floor and a sticky bit decide the rounding.
\<close>

fun isqrt_from :: "nat \<Rightarrow> int \<Rightarrow> int \<Rightarrow> int" where
  "isqrt_from 0 n r = r"
| "isqrt_from (Suc b) n r =
     (let t = r + 2 ^ b in if t * t \<le> n then isqrt_from b n t else isqrt_from b n r)"

definition isqrt :: "int \<Rightarrow> int" where
  "isqrt n = isqrt_from (nat (zlog2 n) + 1) n 0"

text \<open>\<open>sqrt x\<close> for \<open>0 < x\<close>: at quantum \<open>k\<close> two bits below the result's, the floor of the root plus
  half a quantum unless the root is exact rounds as the root itself does.\<close>

definition sqrt_rat :: "fmt \<Rightarrow> rat \<Rightarrow> rat" where
  "sqrt_rat m x =
     (let e = (if ilog2 x mod 2 = 0 then ilog2 x div 2 else (ilog2 x - 1) div 2);
          k = e - int (prec m) - 2;
          scaled = x / (pow2 k * pow2 k);
          r = isqrt \<lfloor>scaled\<rfloor>
      in (if of_int (r * r) = scaled then of_int r else of_int r + 1 / 2) * pow2 k)"

fun fsqrt :: "fmt \<Rightarrow> fl \<Rightarrow> fl" where
  "fsqrt m (Fin x) = (if x < 0 then NaN else if x = 0 then Fin 0 else rnd m (sqrt_rat m x))"
| "fsqrt m PInf = PInf"
| "fsqrt m _ = NaN"

section \<open>Rounding is monotone and exact where it can be\<close>

lemma zlog2_bounds: "1 \<le> n \<Longrightarrow> 0 \<le> zlog2 n \<and> 2 ^ nat (zlog2 n) \<le> n \<and> n < 2 * 2 ^ nat (zlog2 n)"
proof (induction n rule: zlog2.induct)
  case (1 n)
  show ?case
  proof (cases "n < 2")
    case True
    with 1(2) show ?thesis by (simp add: zlog2.simps [of n])
  next
    case False
    then have IH: "0 \<le> zlog2 (n div 2)" "2 ^ nat (zlog2 (n div 2)) \<le> n div 2"
        "n div 2 < 2 * 2 ^ nat (zlog2 (n div 2))"
      using 1(1) by auto
    have "nat (1 + zlog2 (n div 2)) = Suc (nat (zlog2 (n div 2)))" using IH(1) by simp
    moreover have "zlog2 n = 1 + zlog2 (n div 2)" using False by (simp add: zlog2.simps [of n])
    ultimately have e: "(2 :: int) ^ nat (zlog2 n) = 2 * 2 ^ nat (zlog2 (n div 2))" by simp
    have "0 \<le> zlog2 n" using IH(1) \<open>zlog2 n = 1 + zlog2 (n div 2)\<close> by simp
    then show ?thesis unfolding e using IH(2,3) by linarith
  qed
qed

lemma pow2_powi: "pow2 k = 2 powi k"
proof (cases "0 \<le> k")
  case True
  then show ?thesis by (simp add: pow2_def power_int_def)
next
  case False
  then show ?thesis by (simp add: pow2_def power_int_def power_one_over inverse_eq_divide)
qed

lemma pow2_pos [simp]: "0 < pow2 k"
  by (simp add: pow2_def)

lemma pow2_nonneg [simp]: "0 \<le> pow2 k"
  by (simp add: pow2_def)

lemma pow2_nonzero [simp]: "pow2 k \<noteq> 0"
  using pow2_pos [of k] by linarith

lemma pow2_add: "pow2 (a + b) = pow2 a * pow2 b"
  by (simp add: pow2_powi power_int_add)

lemma pow2_diff: "pow2 (a - b) = pow2 a / pow2 b"
  by (simp add: pow2_powi power_int_diff)

lemma pow2_mono: "a \<le> b \<Longrightarrow> pow2 a \<le> pow2 b"
  by (simp add: pow2_powi power_int_increasing)

lemma pow2_strict_mono: "a < b \<Longrightarrow> pow2 a < pow2 b"
  by (simp add: pow2_powi power_int_strict_increasing)

lemma pow2_less_iff: "pow2 a < pow2 b \<longleftrightarrow> a < b"
  by (meson linorder_not_le pow2_mono pow2_strict_mono)

lemma pow2_nat: "0 \<le> k \<Longrightarrow> pow2 k = of_int (2 ^ nat k)"
  by (simp add: pow2_def)

lemma pow2_1 [simp]: "pow2 1 = 2"
  by (simp add: pow2_def)

lemma pow2_0 [simp]: "pow2 0 = 1"
  by (simp add: pow2_def)

lemma zlog2_pow2:
  assumes "1 \<le> n"
  shows "pow2 (zlog2 n) \<le> of_int n" and "of_int n < pow2 (zlog2 n + 1)"
proof -
  have z: "0 \<le> zlog2 n" "2 ^ nat (zlog2 n) \<le> n" "n < 2 * 2 ^ nat (zlog2 n)"
    using zlog2_bounds [OF assms] by auto
  have "pow2 (zlog2 n) = of_int (2 ^ nat (zlog2 n))" using z(1) by (rule pow2_nat)
  then show "pow2 (zlog2 n) \<le> of_int n" using z(2) by (simp only: of_int_le_iff)
  have "pow2 (zlog2 n + 1) = of_int (2 * 2 ^ nat (zlog2 n))"
    using pow2_nat [OF z(1)] by (simp add: pow2_add)
  then show "of_int n < pow2 (zlog2 n + 1)" using z(3) by (simp only: of_int_less_iff)
qed

lemma ilog2_bounds:
  assumes "0 < x" shows "pow2 (ilog2 x) \<le> x \<and> x < pow2 (ilog2 x + 1)"
proof -
  obtain a b where q: "quotient_of x = (a, b)" by (cases "quotient_of x") auto
  have b: "0 < b" using q by (rule quotient_of_denom_pos)
  have x: "x = of_int a / of_int b" using q by (rule quotient_of_div)
  have a: "0 < a" using assms b x by (simp add: zero_less_divide_iff)
  have za: "pow2 (zlog2 a) \<le> of_int a" "of_int a < pow2 (zlog2 a + 1)"
    using zlog2_pow2 [of a] a by simp_all
  have zb: "pow2 (zlog2 b) \<le> of_int b" "of_int b < pow2 (zlog2 b + 1)"
    using zlog2_pow2 [of b] b by simp_all
  define k where "k = zlog2 a - zlog2 b"
  have "pow2 (k - 1) \<le> x"
  proof -
    have "pow2 (k - 1) = pow2 (zlog2 a) / pow2 (zlog2 b + 1)"
      by (simp add: k_def pow2_diff [symmetric] algebra_simps)
    also have "\<dots> \<le> of_int a / of_int b"
      using za zb a b by (intro frac_le) auto
    finally show ?thesis using x by simp
  qed
  moreover have "x < pow2 (k + 1)"
  proof -
    have "x < pow2 (zlog2 a + 1) / pow2 (zlog2 b)"
      unfolding x using za zb a b by (intro frac_less) auto
    also have "\<dots> = pow2 (k + 1)"
      by (simp add: k_def pow2_diff [symmetric] algebra_simps)
    finally show ?thesis .
  qed
  moreover have "ilog2 x = (if pow2 k \<le> x then k else k - 1)"
    by (simp add: ilog2_def q k_def)
  ultimately show ?thesis by auto
qed

lemma ilog2_unique:
  assumes "pow2 k \<le> x" and "x < pow2 (k + 1)" shows "ilog2 x = k"
proof -
  have "0 < x" using assms(1) pow2_pos [of k] by linarith
  then have b: "pow2 (ilog2 x) \<le> x" "x < pow2 (ilog2 x + 1)" using ilog2_bounds by auto
  have "pow2 k < pow2 (ilog2 x + 1)" using b assms by linarith
  moreover have "pow2 (ilog2 x) < pow2 (k + 1)" using b assms by linarith
  ultimately show ?thesis by (simp add: pow2_less_iff)
qed

lemma ilog2_mono: "0 < x \<Longrightarrow> x \<le> y \<Longrightarrow> ilog2 x \<le> ilog2 y"
  using ilog2_bounds [of x] ilog2_bounds [of y] pow2_less_iff [of "ilog2 x" "ilog2 y + 1"]
  by linarith

lemma ilog2_pow2 [simp]: "ilog2 (pow2 k) = k"
  by (rule ilog2_unique) (simp_all add: pow2_add)

lemma round_half_even_bounds:
  "x - 1 / 2 \<le> of_int (round_half_even x) \<and> of_int (round_half_even x) \<le> x + 1 / 2"
proof -
  define r :: rat where "r = of_int \<lfloor>x\<rfloor>"
  have r: "r \<le> x" "x < r + 1" unfolding r_def by linarith+
  have "of_int (round_half_even x) = (if x - r < 1 / 2 then r else if 1 / 2 < x - r then r + 1
      else if even \<lfloor>x\<rfloor> then r else r + 1)"
    by (simp add: round_half_even_def Let_def r_def)
  then show ?thesis using r by (auto split: if_splits)
qed

lemma round_half_even_of_int [simp]: "round_half_even (of_int n) = n"
  by (simp add: round_half_even_def Let_def)

lemma round_half_even_mono:
  assumes "x \<le> y" shows "round_half_even x \<le> round_half_even y"
proof (rule ccontr)
  assume "\<not> ?thesis"
  then have gt: "round_half_even y + 1 \<le> round_half_even x" by simp
  then have "of_int (round_half_even y) + 1 \<le> (of_int (round_half_even x) :: rat)"
    by (metis of_int_1 of_int_add of_int_le_iff)
  with round_half_even_bounds [of x] round_half_even_bounds [of y] assms have "x = y" by linarith
  with gt show False by simp
qed

lemma round_half_even_nonneg: "0 \<le> x \<Longrightarrow> 0 \<le> round_half_even x"
  using round_half_even_mono [of 0 x] round_half_even_of_int [of 0] by simp

lemma rnd_rat_0 [simp]: "rnd_rat m 0 = 0"
  by (simp add: rnd_rat_def)

lemma rnd_rat_pos:
  "0 < x \<Longrightarrow> rnd_rat m x = of_int (round_half_even (x / pow2 (quantum m x))) * pow2 (quantum m x)"
  by (simp add: rnd_rat_def Let_def)

lemma rnd_rat_neg: "rnd_rat m (- x) = - rnd_rat m x"
  by (simp add: rnd_rat_def Let_def sgn_if)

lemma rnd_rat_nonneg: "0 \<le> x \<Longrightarrow> 0 \<le> rnd_rat m x"
  by (cases "x = 0") (simp_all add: rnd_rat_pos round_half_even_nonneg)

lemma round_half_even_pow2:
  assumes "q \<le> e" shows "of_int (round_half_even (pow2 e / pow2 q)) * pow2 q = pow2 e"
proof -
  have "pow2 e / pow2 q = of_int (2 ^ nat (e - q))"
    using assms by (simp add: pow2_diff [symmetric] pow2_nat)
  then have "of_int (round_half_even (pow2 e / pow2 q)) = pow2 e / pow2 q"
    by (metis round_half_even_of_int)
  then show ?thesis by simp
qed

lemma rnd_rat_pos_mono:
  assumes "1 \<le> prec m" and "0 < x" and "x \<le> y"
  shows "rnd_rat m x \<le> rnd_rat m y"
proof -
  have y: "0 < y" using assms by simp
  have e: "ilog2 x \<le> ilog2 y" using assms by (intro ilog2_mono)
  then have q: "quantum m x \<le> quantum m y" by (simp add: quantum_def)
  show ?thesis
  proof (cases "quantum m x = quantum m y")
    case True
    have "x / pow2 (quantum m y) \<le> y / pow2 (quantum m y)"
      using assms by (intro divide_right_mono) auto
    then have "round_half_even (x / pow2 (quantum m y)) \<le> round_half_even (y / pow2 (quantum m y))"
      by (rule round_half_even_mono)
    then show ?thesis using assms y True by (simp add: rnd_rat_pos)
  next
    case False
    with q have lt: "quantum m x < quantum m y" by simp
    then have qy: "quantum m y = ilog2 y - (int (prec m) - 1)" by (auto simp: quantum_def)
    have ey: "ilog2 x < ilog2 y" using lt by (auto simp: quantum_def)
    have qle: "quantum m y \<le> ilog2 y" using qy assms(1) by simp
    have xb: "x \<le> pow2 (ilog2 y)"
      using ilog2_bounds [OF assms(2)] pow2_mono [of "ilog2 x + 1" "ilog2 y"] ey by simp
    have "rnd_rat m x \<le> of_int (round_half_even (pow2 (ilog2 y) / pow2 (quantum m x))) * pow2 (quantum m x)"
      unfolding rnd_rat_pos [OF assms(2)] using xb
      by (intro mult_right_mono) (simp_all add: round_half_even_mono divide_right_mono)
    also have "\<dots> = pow2 (ilog2 y)" using lt qle by (intro round_half_even_pow2) simp
    also have "pow2 (ilog2 y) = of_int (round_half_even (pow2 (ilog2 y) / pow2 (quantum m y))) * pow2 (quantum m y)"
      using qle by (simp add: round_half_even_pow2)
    also have "\<dots> \<le> rnd_rat m y"
      unfolding rnd_rat_pos [OF y] using ilog2_bounds [OF y]
      by (intro mult_right_mono) (simp_all add: round_half_even_mono divide_right_mono)
    finally show ?thesis .
  qed
qed

lemma rnd_rat_mono:
  assumes "1 \<le> prec m" and "x \<le> y" shows "rnd_rat m x \<le> rnd_rat m y"
proof -
  consider "0 < x" | "x \<le> 0" "0 \<le> y" | "y < 0" by linarith
  then show ?thesis
  proof cases
    case 1
    then show ?thesis using assms by (intro rnd_rat_pos_mono)
  next
    case 2
    then have "0 \<le> rnd_rat m (- x)" and "0 \<le> rnd_rat m y" by (simp_all add: rnd_rat_nonneg)
    then show ?thesis by (simp add: rnd_rat_neg)
  next
    case 3
    then have "rnd_rat m (- y) \<le> rnd_rat m (- x)" using assms by (intro rnd_rat_pos_mono) auto
    then show ?thesis by (simp add: rnd_rat_neg)
  qed
qed

text \<open>An integer multiple of a power of two whose significand fits is rounded to itself.\<close>

lemma rnd_rat_exact_pos:
  assumes "0 < n" and "n \<le> 2 ^ prec m" and "emin m \<le> k" and "1 \<le> prec m"
  shows "rnd_rat m (of_int n * pow2 k) = of_int n * pow2 k"
proof (cases "n = 2 ^ prec m")
  case True
  then have x: "of_int n * pow2 k = pow2 (int (prec m) + k)"
    by (simp add: pow2_add pow2_nat)
  have "quantum m (pow2 (int (prec m) + k)) \<le> int (prec m) + k"
    using assms by (simp add: quantum_def)
  then show ?thesis unfolding x by (simp add: rnd_rat_pos round_half_even_pow2)
next
  case False
  with assms have n: "n < 2 ^ prec m" by simp
  define x where "x = of_int n * pow2 k"
  have x: "0 < x" using assms by (simp add: x_def)
  have "of_int n < (of_int (2 ^ prec m) :: rat)" using n by (simp only: of_int_less_iff)
  then have "x < pow2 (int (prec m)) * pow2 k" by (simp add: x_def pow2_nat)
  then have "x < pow2 (int (prec m) + k)" by (simp add: pow2_add)
  moreover have "pow2 (ilog2 x) \<le> x" using ilog2_bounds [OF x] by simp
  ultimately have "pow2 (ilog2 x) < pow2 (int (prec m) + k)" by linarith
  then have q: "quantum m x \<le> k" using assms(3) by (simp add: pow2_less_iff quantum_def)
  have "x / pow2 (quantum m x) = of_int (n * 2 ^ nat (k - quantum m x))"
  proof -
    have "pow2 k / pow2 (quantum m x) = of_int (2 ^ nat (k - quantum m x))"
      using q by (simp add: pow2_diff [symmetric] pow2_nat)
    then have "of_int n * (pow2 k / pow2 (quantum m x)) = of_int (n * 2 ^ nat (k - quantum m x))"
      by simp
    then show ?thesis by (simp add: x_def)
  qed
  then have "of_int (round_half_even (x / pow2 (quantum m x))) = x / pow2 (quantum m x)"
    by (metis round_half_even_of_int)
  then have "rnd_rat m x = x" using x by (simp add: rnd_rat_pos)
  then show ?thesis by (simp add: x_def)
qed

lemma rnd_rat_of_nat:
  assumes "n \<le> 2 ^ prec m" and "emin m \<le> 0" and "1 \<le> prec m"
  shows "rnd_rat m (of_nat n) = of_nat n"
proof (cases "n = 0")
  case False
  then have "rnd_rat m (of_int (int n) * pow2 0) = of_int (int n) * pow2 0"
  proof (intro rnd_rat_exact_pos)
    have "int n \<le> int (2 ^ prec m)" using assms(1) by (simp only: of_nat_le_iff)
    then show "int n \<le> 2 ^ prec m" by simp
  qed (use assms False in simp_all)
  then show ?thesis by simp
qed simp

lemma pow2_le_iff: "pow2 a \<le> pow2 b \<longleftrightarrow> a \<le> b"
  using pow2_less_iff [of b a] by (simp add: linorder_not_less [symmetric])

lemma ilog2_less_iff: "0 < x \<Longrightarrow> ilog2 x < k \<longleftrightarrow> x < pow2 k"
  using ilog2_bounds [of x] pow2_mono [of "ilog2 x + 1" k] pow2_mono [of k "ilog2 x"]
  by (cases "ilog2 x < k") auto

lemma rnd_eq:
  "rnd m x = (if pow2 (emax m) \<le> rnd_rat m x then PInf
              else if rnd_rat m x \<le> - pow2 (emax m) then NInf else Fin (rnd_rat m x))"
proof (cases "rnd_rat m x = 0")
  case True
  then show ?thesis using pow2_pos [of "emax m"] by (simp add: rnd_def not_le)
next
  case False
  then have "ilog2 \<bar>rnd_rat m x\<bar> < emax m \<longleftrightarrow> \<bar>rnd_rat m x\<bar> < pow2 (emax m)"
    by (simp add: ilog2_less_iff)
  moreover have "pow2 (emax m) \<le> rnd_rat m x \<Longrightarrow> 0 < rnd_rat m x"
    using pow2_pos [of "emax m"] by linarith
  ultimately show ?thesis using False
    by (cases "0 < rnd_rat m x") (auto simp: rnd_def Let_def abs_if not_less)
qed

lemma rnd_not_NaN [simp]: "rnd m x \<noteq> NaN"
  by (simp add: rnd_eq)

lemma fle_refl: "x \<noteq> NaN \<Longrightarrow> fle x x"
  by (cases x) auto

lemma fle_trans: "fle x y \<Longrightarrow> fle y z \<Longrightarrow> fle x z"
  by (cases x; cases y; cases z) auto

lemma fle_total: "x \<noteq> NaN \<Longrightarrow> y \<noteq> NaN \<Longrightarrow> fle x y \<or> fle y x"
  by (cases x; cases y) auto

lemma fle_antisym: "fle x y \<Longrightarrow> fle y x \<Longrightarrow> x = y"
  by (cases x; cases y) auto

lemma fle_not_NaN: "fle x y \<Longrightarrow> x \<noteq> NaN \<and> y \<noteq> NaN"
  by (cases x; cases y) auto

lemma flt_iff: "flt x y \<longleftrightarrow> x \<noteq> NaN \<and> y \<noteq> NaN \<and> \<not> fle y x"
  using fle_total [of x y] fle_not_NaN [of x y] by (auto simp: flt_def)

lemma rnd_mono:
  assumes "1 \<le> prec m" and "x \<le> y" shows "fle (rnd m x) (rnd m y)"
  using rnd_rat_mono [OF assms] pow2_pos [of "emax m"] by (auto simp: rnd_eq not_le)

lemma rnd_of_nat:
  assumes "n \<le> 2 ^ prec m" and "emin m \<le> 0" and "1 \<le> prec m" and "int (prec m) < emax m"
  shows "rnd m (of_nat n) = Fin (of_nat n)"
proof -
  have "(of_nat n :: rat) \<le> of_nat (2 ^ prec m)" using assms(1) by (simp only: of_nat_le_iff)
  also have "\<dots> = pow2 (int (prec m))" by (simp add: pow2_nat)
  also have "\<dots> < pow2 (emax m)" using assms(4) by (rule pow2_strict_mono)
  finally have "(of_nat n :: rat) < pow2 (emax m)" .
  moreover have "\<not> (of_nat n :: rat) \<le> - pow2 (emax m)"
  proof
    assume "(of_nat n :: rat) \<le> - pow2 (emax m)"
    moreover have "(0 :: rat) \<le> of_nat n" by simp
    ultimately show False using pow2_pos [of "emax m"] by linarith
  qed
  ultimately show ?thesis using assms by (simp add: rnd_eq rnd_rat_of_nat)
qed

lemma f32_simps [simp]: "prec f32 = 24" "emin f32 = - 149" "emax f32 = 128"
  by (simp_all add: f32_def)

lemma f64_simps [simp]: "prec f64 = 53" "emin f64 = - 1074" "emax f64 = 1024"
  by (simp_all add: f64_def)

lemma rnd_f32_of_nat: "n \<le> 16777216 \<Longrightarrow> rnd f32 (of_nat n) = Fin (of_nat n)"
  by (rule rnd_of_nat) simp_all

lemma rnd_f32_mono: "x \<le> y \<Longrightarrow> fle (rnd f32 x) (rnd f32 y)"
  by (rule rnd_mono) simp_all

text \<open>A rational between zero and a natural number the format holds stays between them.\<close>

lemma rnd_f32_range:
  assumes "0 \<le> x" and "x \<le> of_nat n" and "n \<le> 16777216"
  shows "\<exists>y. rnd f32 x = Fin y \<and> 0 \<le> y \<and> y \<le> of_nat n"
proof -
  have lo: "fle (Fin 0) (rnd f32 x)" using rnd_f32_mono [OF assms(1)] by (simp add: rnd_def)
  have hi: "fle (rnd f32 x) (Fin (of_nat n))"
    using rnd_f32_mono [OF assms(2)] rnd_f32_of_nat [OF assms(3)] by simp
  then show ?thesis using lo by (cases "rnd f32 x") auto
qed

section \<open>Clamping, maxima and casts\<close>

lemma fmax_zero_nonneg: "fle (Fin 0) (fmax x (Fin 0))"
  by (cases x) (auto simp: fmax_def)

lemma fmax_not_NaN: "y \<noteq> NaN \<Longrightarrow> fmax x y \<noteq> NaN"
  by (auto simp: fmax_def)

lemma fclamp_range:
  assumes "x \<noteq> NaN" and "fle lo hi" shows "fle lo (fclamp x lo hi) \<and> fle (fclamp x lo hi) hi"
  using assms fle_total [of x lo] fle_total [of x hi] fle_not_NaN [OF assms(2)]
  by (auto simp: fclamp_def flt_iff fle_refl)

lemma fclamp_NaN: "fclamp NaN lo hi = NaN"
  by (simp add: fclamp_def flt_iff)

lemma fcast_range: "lo \<le> 0 \<Longrightarrow> 0 \<le> hi \<Longrightarrow> lo \<le> fcast lo hi x \<and> fcast lo hi x \<le> hi"
  by (cases x) auto

lemma fneg_fneg [simp]: "fneg (fneg x) = x"
  by (cases x) simp_all

lemma fabs_nonneg: "x \<noteq> NaN \<Longrightarrow> fle (Fin 0) (fabs x)"
  by (cases x) simp_all

end
