(* ===== verification/Sgf_Parser.thy ===== *)
theory Sgf_Parser
  imports App_Error Rust_Float "HOL-Library.Product_Lexorder" "HOL-Library.Multiset"
begin

text \<open>
  SGF to KataGo query data (\<open>src/src/engine/sgf.rs\<close>).  The SGF reader itself is the crate
  \<open>sgf-parse\<close>: \<open>go::parse\<close> is the parameter \<open>go_parse\<close>, giving either the error's text or, for
  each game tree, the property lists of the nodes along its main variation.  \<open>u8\<close> values are
  naturals; the only subtraction is guarded.
\<close>

section \<open>Model\<close>

datatype color = Black | White

fun other :: "color \<Rightarrow> color" where
  "other Black = White"
| "other White = Black"

datatype rules = Japanese | Chinese

type_synonym colored_move = "color \<times> string"

record parsed_game =
  board_size :: nat
  komi :: fl
  rules_of :: rules
  result_text :: "string option"
  initial_stones :: "colored_move list"
  game_moves :: "colored_move list"

text \<open>The types the crate hands back: points, moves and the properties the code reads.\<close>

record point =
  px :: nat
  py :: nat

datatype sgf_move = Pass | Place point

datatype sgf_prop =
    Invalid_Prop string "string list"
  | SZ nat nat
  | KM fl
  | RU string
  | RE string
  | AB "point list"
  | AW "point list"
  | AE "point list"
  | B_Move sgf_move
  | W_Move sgf_move
  | Other_Prop string

type_synonym sgf_reader = "string \<Rightarrow> string + sgf_prop list list list"

definition GAME_PROPS :: "string list" where
  "GAME_PROPS = [''B'', ''W'', ''AB'', ''AW'', ''AE'', ''SZ'', ''KM'']"

definition GTP_LETTERS :: string where
  "GTP_LETTERS = ''ABCDEFGHJKLMNOPQRSTUVWXYZ''"

definition to_gtp :: "point \<Rightarrow> nat \<Rightarrow> string app_result" where
  "to_gtp p bsize =
     (if bsize \<le> px p \<or> bsize \<le> py p then
        Inl (Sgf (''point ('' @ show_nat (px p) @ '', '' @ show_nat (py p) @ '') is off the '' @
                  show_nat bsize @ ''x'' @ show_nat bsize @ '' board''))
      else
        let letter = (case get_at GTP_LETTERS (px p) of None \<Rightarrow> CHR ''?'' | Some c \<Rightarrow> c);
            row = bsize - py p
        in Inr (letter # show_nat row))"

definition move_to_gtp :: "sgf_move \<Rightarrow> nat \<Rightarrow> string app_result" where
  "move_to_gtp mv bsize =
     (case mv of
        Pass \<Rightarrow> Inr ''pass''
      | Place p \<Rightarrow>
          if px p = 19 \<and> py p = 19 \<and> bsize \<le> 19 then Inr ''pass'' else to_gtp p bsize)"

definition policy_index :: "string \<Rightarrow> nat \<Rightarrow> nat option" where
  "policy_index mv bsize =
     (if eq_ignore_ascii_case mv ''pass'' then Some (bsize * bsize)
      else case mv of
        [] \<Rightarrow> None
      | letter # row \<Rightarrow>
          (case position (\<lambda>gtp. gtp = to_ascii_uppercase letter) GTP_LETTERS of
             None \<Rightarrow> None
           | Some col \<Rightarrow>
               (case parse_unsigned usize_max row of
                  None \<Rightarrow> None
                | Some r \<Rightarrow>
                    if col < bsize \<and> 1 \<le> r \<and> r \<le> bsize then Some ((bsize - r) * bsize + col)
                    else None)))"

text \<open>The accumulators of the node loop.\<close>

record sgf_acc =
  acc_size :: "nat option"
  acc_komi :: "fl option"
  acc_rules :: rules
  acc_result :: "string option"
  acc_setup :: "(color \<times> point) list"
  acc_moves :: "(color \<times> sgf_move) list"

definition sgf_acc0 :: sgf_acc where
  "sgf_acc0 = \<lparr>acc_size = None, acc_komi = None, acc_rules = Japanese, acc_result = None,
               acc_setup = [], acc_moves = []\<rparr>"

definition setup_stones ::
  "color \<Rightarrow> point list \<Rightarrow> sgf_acc \<times> (color \<times> sgf_move) option
     \<Rightarrow> (sgf_acc \<times> (color \<times> sgf_move) option) app_result" where
  "setup_stones c points s =
     (let (a, node_move) = s in
      if acc_moves a \<noteq> [] then
        Inl (Sgf (''setup stones after move '' @ show_nat (length (acc_moves a)) @
                  '' are not supported''))
      else Inr (a\<lparr>acc_setup := acc_setup a @ map (\<lambda>p. (c, p)) points\<rparr>, node_move))"

definition node_play ::
  "nat \<Rightarrow> color \<Rightarrow> sgf_move \<Rightarrow> sgf_acc \<times> (color \<times> sgf_move) option
     \<Rightarrow> (sgf_acc \<times> (color \<times> sgf_move) option) app_result" where
  "node_play index c mv s =
     (let (a, node_move) = s in
      if node_move \<noteq> None then
        Inl (Sgf (''node '' @ show_nat index @ '' has more than one move''))
      else Inr (a, Some (c, mv)))"

text \<open>One property of one node: the \<open>match\<close> of the inner loop.\<close>

fun read_prop ::
  "nat \<Rightarrow> sgf_acc \<times> (color \<times> sgf_move) option \<Rightarrow> sgf_prop
     \<Rightarrow> (sgf_acc \<times> (color \<times> sgf_move) option) app_result" where
  "read_prop index (a, nm) (Invalid_Prop ident values) =
     (if ident \<in> set GAME_PROPS then
        Inl (Sgf (''malformed property '' @ ident @ ''['' @ join '']['' values @ ''] in node '' @
                  show_nat index))
      else Inr (a, nm))"
| "read_prop index (a, nm) (SZ width height) =
     (if width \<noteq> height then
        Inl (Sgf (''non-square board '' @ show_nat width @ ''x'' @ show_nat height @
                  '' is not supported''))
      else Inr (a\<lparr>acc_size := Some width\<rparr>, nm))"
| "read_prop index (a, nm) (KM value) = Inr (a\<lparr>acc_komi := Some (fconv f32 value)\<rparr>, nm)"
| "read_prop index (a, nm) (RU rule) =
     Inr (a\<lparr>acc_rules := (if eq_ignore_ascii_case (trim rule) ''chinese'' then Chinese
                          else Japanese)\<rparr>, nm)"
| "read_prop index (a, nm) (RE outcome) = Inr (a\<lparr>acc_result := Some outcome\<rparr>, nm)"
| "read_prop index (a, nm) (AB points) = setup_stones Black points (a, nm)"
| "read_prop index (a, nm) (AW points) = setup_stones White points (a, nm)"
| "read_prop index (a, nm) (AE points) =
     (if points \<noteq> [] then Inl (Sgf ''removing stones (AE) is not supported'') else Inr (a, nm))"
| "read_prop index (a, nm) (B_Move mv) = node_play index Black mv (a, nm)"
| "read_prop index (a, nm) (W_Move mv) = node_play index White mv (a, nm)"
| "read_prop index (a, nm) (Other_Prop _) = Inr (a, nm)"

definition read_node :: "sgf_acc \<Rightarrow> nat \<times> sgf_prop list \<Rightarrow> sgf_acc app_result" where
  "read_node a node =
     (let (index, props) = node in
      res_map (\<lambda>(a', node_move).
          a'\<lparr>acc_moves := acc_moves a' @ (case node_move of None \<Rightarrow> [] | Some m \<Rightarrow> [m])\<rparr>)
        (fold_res (read_prop index) (a, None) props))"

definition setup_key :: "color \<times> point \<Rightarrow> bool \<times> nat \<times> nat" where
  "setup_key s = (fst s = White, py (snd s), px (snd s))"

definition finish_game :: "nat \<Rightarrow> fl \<Rightarrow> sgf_acc \<Rightarrow> parsed_game app_result" where
  "finish_game default_size default_komi a =
     (let bsize = opt_else default_size (acc_size a) in
      if bsize = 0 \<or> length GTP_LETTERS < bsize then
        Inl (Sgf (''board size '' @ show_nat bsize @ '' is not supported''))
      else
        res_bind (collect_res (\<lambda>(c, p). res_map (Pair c) (to_gtp p bsize))
                    (sort_key setup_key (acc_setup a))) (\<lambda>stones.
        res_map (\<lambda>mvs. \<lparr>board_size = bsize, komi = opt_else default_komi (acc_komi a),
                        rules_of = acc_rules a, result_text = acc_result a,
                        initial_stones = stones, game_moves = mvs\<rparr>)
          (collect_res (\<lambda>(c, m). res_map (Pair c) (move_to_gtp m bsize)) (acc_moves a))))"

definition sgf_parse :: "sgf_reader \<Rightarrow> string \<Rightarrow> nat \<Rightarrow> fl \<Rightarrow> parsed_game app_result" where
  "sgf_parse go_parse sgf default_size default_komi =
     (case go_parse sgf of
        Inl err \<Rightarrow> Inl (Sgf err)
      | Inr [] \<Rightarrow> Inl (Sgf ''no game tree'')
      | Inr (tree # _) \<Rightarrow>
          res_bind (fold_res read_node sgf_acc0 (zip [0..<length tree] tree))
            (finish_game default_size default_komi))"

definition sgf_validate :: "sgf_reader \<Rightarrow> string \<Rightarrow> unit app_result" where
  "sgf_validate go_parse sgf =
     res_map (\<lambda>_. ()) (sgf_parse go_parse sgf 19 (Fin (15 / 2)))"

section \<open>Coordinates\<close>

definition GTP_COUNT :: nat where "GTP_COUNT = 25"

lemma GTP_LETTERS_length [simp]: "length GTP_LETTERS = 25"
  by (simp add: GTP_LETTERS_def)

lemma GTP_LETTERS_distinct: "distinct GTP_LETTERS"
  by (simp add: GTP_LETTERS_def)

lemma GTP_LETTERS_upper: "c \<in> set GTP_LETTERS \<Longrightarrow> to_ascii_uppercase c = c \<and> c \<noteq> CHR ''?''"
  by (auto simp: GTP_LETTERS_def to_ascii_uppercase_def byte_val_def)

lemma show_nat_not_alpha: "eq_ignore_ascii_case (c # show_nat n) ''pass'' = False"
proof -
  have "\<not> is_ascii_digit d \<or> to_ascii_uppercase d \<noteq> CHR ''A''" for d
    by (auto simp: is_ascii_digit_def to_ascii_uppercase_def byte_val_def)
  moreover obtain d ds where d: "show_nat n = d # ds" by (cases "show_nat n") auto
  moreover have "is_ascii_digit d" using show_nat_digits [of n] d by simp
  moreover have "to_ascii_uppercase (CHR ''a'') = CHR ''A''" by code_simp
  ultimately show ?thesis by (auto simp: eq_ignore_ascii_case_def)
qed

lemma to_gtp_Inr:
  assumes "bsize \<le> 25"
  shows "to_gtp p bsize = Inr s \<longleftrightarrow>
    px p < bsize \<and> py p < bsize \<and> s = (GTP_LETTERS ! px p) # show_nat (bsize - py p)"
  using assms by (auto simp: to_gtp_def Let_def get_at_def)

lemma policy_index_to_gtp_aux:
  assumes "bsize \<le> 25" and "to_gtp p bsize = Inr s"
  shows "policy_index s bsize = Some (py p * bsize + px p)"
proof -
  have p: "px p < bsize" "py p < bsize" and s: "s = (GTP_LETTERS ! px p) # show_nat (bsize - py p)"
    using assms by (auto simp: to_gtp_Inr)
  have i: "px p < length GTP_LETTERS" using p assms(1) by simp
  then have up: "to_ascii_uppercase (GTP_LETTERS ! px p) = GTP_LETTERS ! px p"
    using GTP_LETTERS_upper nth_mem by blast
  have pos: "position (\<lambda>gtp. gtp = GTP_LETTERS ! px p) GTP_LETTERS = Some (px p)"
    using GTP_LETTERS_distinct i by (rule position_nth_distinct)
  have parse: "parse_unsigned usize_max (show_nat (bsize - py p)) = Some (bsize - py p)"
    using assms(1) by (intro parse_show_nat) (simp add: usize_max_def)
  have "bsize - (bsize - py p) = py p" "1 \<le> bsize - py p" "bsize - py p \<le> bsize"
    using p by auto
  then show ?thesis
    using p by (simp add: policy_index_def s show_nat_not_alpha up pos parse)
qed

lemma policy_index_bound:
  assumes "policy_index mv bsize = Some i" shows "i \<le> bsize * bsize"
proof (cases "eq_ignore_ascii_case mv ''pass''")
  case True
  with assms show ?thesis by (simp add: policy_index_def)
next
  case False
  then obtain col r where "col < bsize" "1 \<le> r" "r \<le> bsize" "i = (bsize - r) * bsize + col"
    using assms by (auto simp: policy_index_def split: list.splits option.splits if_splits)
  then have "i < (bsize - r) * bsize + bsize" by simp
  also have "\<dots> = (bsize - r + 1) * bsize" by simp
  also have "\<dots> \<le> bsize * bsize" using \<open>1 \<le> r\<close> \<open>r \<le> bsize\<close> by (intro mult_right_mono) auto
  finally show ?thesis by simp
qed

lemma policy_index_pass [simp]: "policy_index ''pass'' bsize = Some (bsize * bsize)"
  by (simp add: policy_index_def eq_ignore_ascii_case_def)

lemma to_gtp_index_less:
  assumes "px p < n" and "py p < n" shows "py p * n + px p < n * n"
proof -
  have "py p * n + px p < py p * n + n" using assms(1) by simp
  also have "\<dots> = Suc (py p) * n" by simp
  also have "\<dots> \<le> n * n" using assms(2) by (intro mult_right_mono) auto
  finally show ?thesis .
qed

section \<open>What a parsed game promises\<close>

definition valid_stone :: "nat \<Rightarrow> colored_move \<Rightarrow> bool" where
  "valid_stone n s = (case policy_index (snd s) n of None \<Rightarrow> False | Some i \<Rightarrow> i < n * n)"

definition valid_move :: "nat \<Rightarrow> colored_move \<Rightarrow> bool" where
  "valid_move n s = (snd s = ''pass'' \<or> valid_stone n s)"

definition replayable :: "parsed_game \<Rightarrow> bool" where
  "replayable g =
     (1 \<le> board_size g \<and> board_size g \<le> 25 \<and>
      list_all (valid_stone (board_size g)) (initial_stones g) \<and>
      list_all (valid_move (board_size g)) (game_moves g))"

lemma to_gtp_valid:
  assumes "n \<le> 25" and "to_gtp p n = Inr s" shows "valid_stone n (c, s)"
  using assms policy_index_to_gtp_aux [OF assms] by (auto simp: valid_stone_def to_gtp_Inr to_gtp_index_less)

lemma move_to_gtp_valid:
  assumes "n \<le> 25" and "move_to_gtp m n = Inr s" shows "valid_move n (c, s)"
  using assms to_gtp_valid [OF assms(1)]
  by (auto simp: move_to_gtp_def valid_move_def split: sgf_move.splits if_splits)

lemma finish_game_replayable:
  assumes "finish_game ds dk a = Inr g" shows "replayable g"
proof -
  define n where "n = opt_else ds (acc_size a)"
  from assms obtain stones mvs where n: "1 \<le> n" "n \<le> 25"
    and st: "collect_res (\<lambda>(c, p). res_map (Pair c) (to_gtp p n)) (sort_key setup_key (acc_setup a)) = Inr stones"
    and mv: "collect_res (\<lambda>(c, m). res_map (Pair c) (move_to_gtp m n)) (acc_moves a) = Inr mvs"
    and g: "board_size g = n" "initial_stones g = stones" "game_moves g = mvs"
    by (auto simp: finish_game_def Let_def n_def res_bind_eq_Inr res_map_eq_Inr split: if_splits)
  have "valid_stone n s" if "s \<in> set stones" for s
    using collect_res_set [OF st that] n by (auto simp: res_map_eq_Inr intro: to_gtp_valid)
  moreover have "valid_move n s" if "s \<in> set mvs" for s
    using collect_res_set [OF mv that] n by (auto simp: res_map_eq_Inr intro: move_to_gtp_valid)
  ultimately show ?thesis using n g by (simp add: replayable_def list_all_iff)
qed

lemma sgf_parse_Inr:
  "sgf_parse rd sgf ds dk = Inr g \<longleftrightarrow>
     (\<exists>tree rest a. rd sgf = Inr (tree # rest) \<and>
        fold_res read_node sgf_acc0 (zip [0..<length tree] tree) = Inr a \<and>
        finish_game ds dk a = Inr g)"
  by (auto simp: sgf_parse_def res_bind_eq_Inr split: sum.splits list.splits)

lemma sgf_parse_replayable_aux: "sgf_parse rd sgf ds dk = Inr g \<Longrightarrow> replayable g"
  by (auto simp: sgf_parse_Inr intro: finish_game_replayable)

text \<open>The defaults reach only the board size and komi of the result.\<close>

lemma finish_game_is_ok:
  "is_ok (finish_game ds dk a) \<longleftrightarrow>
     (let n = opt_else ds (acc_size a) in
      1 \<le> n \<and> n \<le> 25 \<and> (\<forall>(c, p) \<in> set (acc_setup a). is_ok (to_gtp p n)) \<and>
      (\<forall>(c, m) \<in> set (acc_moves a). is_ok (move_to_gtp m n)))"
proof -
  have one: "is_ok (res_map f r) = is_ok r" for f :: "'a \<Rightarrow> 'b" and r :: "'e + 'a"
    by (cases r) simp_all
  have two: "is_ok (res_bind r f) \<longleftrightarrow> (\<exists>x. r = Inr x \<and> is_ok (f x))"
    for r :: "'e + 'a" and f :: "'a \<Rightarrow> 'e + 'b"
    by (cases r) simp_all
  have three: "(\<exists>x. r = Inr x \<and> Q) \<longleftrightarrow> is_ok r \<and> Q" for r :: "'e + 'a" and Q
    by (auto simp: is_ok_iff)
  show ?thesis
    unfolding finish_game_def Let_def
    by (simp only: if_split [of is_ok] one two three collect_res_is_ok case_prod_beta set_sort is_ok_Inl)
      auto
qed

lemma finish_game_default_irrelevant:
  "acc_size a = Some n \<Longrightarrow> is_ok (finish_game ds dk a) = is_ok (finish_game ds' dk' a)"
  by (simp add: finish_game_is_ok)

lemma finish_game_komi_irrelevant:
  "is_ok (finish_game ds dk a) = is_ok (finish_game ds dk' a)"
  by (simp add: finish_game_is_ok)

lemma is_ok_res_map [simp]: "is_ok (res_map f r) = is_ok r"
  by (cases r) simp_all

lemma read_prop_size:
  assumes "read_prop i (a, nm) p = Inr (b, nm')"
  shows "acc_size a \<noteq> None \<or> (\<exists>w h. p = SZ w h) \<Longrightarrow> acc_size b \<noteq> None"
  using assms by (cases p) (auto simp: setup_stones_def node_play_def split: if_splits)

lemma fold_read_prop_size:
  "fold_res (read_prop i) (a, nm) ps = Inr (b, nm') \<Longrightarrow>
     acc_size a \<noteq> None \<or> (\<exists>w h. SZ w h \<in> set ps) \<Longrightarrow> acc_size b \<noteq> None"
proof (induction ps arbitrary: a nm)
  case Nil
  then show ?case by simp
next
  case (Cons p ps)
  from Cons.prems(1) obtain c nm'' where c: "read_prop i (a, nm) p = Inr (c, nm'')"
      and rest: "fold_res (read_prop i) (c, nm'') ps = Inr (b, nm')"
    by (auto split: sum.splits)
  show ?case using Cons.IH [OF rest] Cons.prems(2) read_prop_size [OF c] by (metis set_ConsD)
qed

lemma read_node_eq:
  "read_node a (i, ps) = res_map (\<lambda>(a', node_move).
      a'\<lparr>acc_moves := acc_moves a' @ (case node_move of None \<Rightarrow> [] | Some m \<Rightarrow> [m])\<rparr>)
    (fold_res (read_prop i) (a, None) ps)"
  by (simp add: read_node_def)

lemma fold_read_node_size:
  "fold_res read_node a nodes = Inr b \<Longrightarrow>
     acc_size a \<noteq> None \<or> SZ w h \<in> set (concat (map snd nodes)) \<Longrightarrow> acc_size b \<noteq> None"
proof (induction nodes arbitrary: a)
  case Nil
  then show ?case by simp
next
  case (Cons n nodes)
  obtain i ps where n: "n = (i, ps)" by (cases n)
  from Cons.prems(1) obtain c nm where c: "fold_res (read_prop i) (a, None) ps = Inr (c, nm)"
      and rest: "fold_res read_node (c\<lparr>acc_moves := acc_moves c @ (case nm of None \<Rightarrow> [] | Some m \<Rightarrow> [m])\<rparr>) nodes = Inr b"
    by (cases "fold_res (read_prop i) (a, None) ps") (auto simp: read_node_eq n)
  show ?case
    using Cons.IH [OF rest] Cons.prems(2) fold_read_prop_size [OF c] by (simp add: n) blast
qed

section \<open>The order of setup points does not matter\<close>

text \<open>\<open>AB\<close>, \<open>AW\<close> and \<open>AE\<close> carry hash sets, whose iteration order is unspecified.\<close>

inductive same_prop :: "sgf_prop \<Rightarrow> sgf_prop \<Rightarrow> bool" where
  same_AB: "mset ps = mset qs \<Longrightarrow> same_prop (AB ps) (AB qs)"
| same_AW: "mset ps = mset qs \<Longrightarrow> same_prop (AW ps) (AW qs)"
| same_AE: "mset ps = mset qs \<Longrightarrow> same_prop (AE ps) (AE qs)"
| same_refl: "same_prop p p"

definition same_acc :: "sgf_acc \<Rightarrow> sgf_acc \<Rightarrow> bool" where
  "same_acc a b = (a\<lparr>acc_setup := []\<rparr> = b\<lparr>acc_setup := []\<rparr> \<and> mset (acc_setup a) = mset (acc_setup b))"

lemma same_acc_fields:
  "same_acc a b \<longleftrightarrow> acc_size a = acc_size b \<and> acc_komi a = acc_komi b \<and> acc_rules a = acc_rules b \<and>
     acc_result a = acc_result b \<and> acc_moves a = acc_moves b \<and> mset (acc_setup a) = mset (acc_setup b)"
  by (cases a; cases b) (auto simp: same_acc_def)

lemma read_prop_same:
  assumes "same_acc a b" and "same_prop p q"
  shows "rel_sum (=) (rel_prod same_acc (=)) (read_prop i (a, nm) p) (read_prop i (b, nm) q)"
  using assms(2)
proof (cases rule: same_prop.cases)
  case (same_AB ps qs)
  with assms(1) show ?thesis by (auto simp: setup_stones_def same_acc_fields)
next
  case (same_AW ps qs)
  with assms(1) show ?thesis by (auto simp: setup_stones_def same_acc_fields)
next
  case (same_AE ps qs)
  then have "ps = [] \<longleftrightarrow> qs = []" by (metis mset_zero_iff)
  with same_AE assms(1) show ?thesis by simp
next
  case same_refl
  then show ?thesis using assms(1)
    by (cases p) (auto simp: setup_stones_def node_play_def same_acc_fields)
qed

lemma read_node_same:
  assumes "same_acc a b" and "list_all2 same_prop ps qs"
  shows "rel_sum (=) same_acc (read_node a (i, ps)) (read_node b (i, qs))"
proof -
  have "rel_sum (=) (rel_prod same_acc (=)) (fold_res (read_prop i) (a, None) ps)
      (fold_res (read_prop i) (b, None) qs)"
    by (rule fold_res_rel [OF assms(2)]) (use assms(1) read_prop_same in auto)
  then show ?thesis
    by (cases "fold_res (read_prop i) (a, None) ps"; cases "fold_res (read_prop i) (b, None) qs")
      (auto simp: read_node_def same_acc_fields)
qed

lemma setup_key_inj: "setup_key s = setup_key t \<Longrightarrow> s = t"
proof -
  assume k: "setup_key s = setup_key t"
  then have "fst s = fst t" by (cases "fst s"; cases "fst t") (simp_all add: setup_key_def)
  moreover have "snd s = snd t" using k by (cases "snd s"; cases "snd t") (simp add: setup_key_def)
  ultimately show "s = t" by (simp add: prod_eq_iff)
qed

lemma finish_game_same:
  assumes "same_acc a b" shows "finish_game ds dk a = finish_game ds dk b"
proof -
  have "sort_key setup_key (acc_setup a) = sort_key setup_key (acc_setup b)"
  proof (rule properties_for_sort_key)
    show "mset (sort_key setup_key (acc_setup b)) = mset (acc_setup a)"
      using assms by (simp add: same_acc_fields)
    show "sorted (map setup_key (sort_key setup_key (acc_setup b)))" by simp
    fix k assume k: "k \<in> set (sort_key setup_key (acc_setup b))"
    have one: "filter (\<lambda>x. setup_key k = setup_key x) xs = filter (\<lambda>x. x = k) xs" for xs
      by (rule filter_cong) (auto dest: setup_key_inj)
    have "filter (\<lambda>x. x = k) xs = replicate (count (mset xs) k) k" for xs
      by (induction xs) auto
    then show "filter (\<lambda>x. setup_key k = setup_key x) (sort_key setup_key (acc_setup b)) =
        filter (\<lambda>x. setup_key k = setup_key x) (acc_setup a)"
      using assms by (simp add: one same_acc_fields)
  qed
  moreover have "acc_size a = acc_size b" "acc_komi a = acc_komi b" "acc_rules a = acc_rules b"
      "acc_result a = acc_result b" "acc_moves a = acc_moves b"
    using assms by (simp_all add: same_acc_fields)
  ultimately show ?thesis unfolding finish_game_def by (simp only:)
qed

lemma zip_upt_list_all2:
  assumes "list_all2 R xs ys"
  shows "list_all2 (rel_prod (=) R) (zip [0..<length xs] xs) (zip [0..<length ys] ys)"
  using assms by (auto simp: list_all2_conv_all_nth)

lemma sgf_parse_same_aux:
  assumes "list_all2 (list_all2 same_prop) tree tree'"
  shows "sgf_parse (\<lambda>_. Inr (tree # rest)) sgf ds dk = sgf_parse (\<lambda>_. Inr (tree' # rest')) sgf ds dk"
proof -
  have "rel_sum (=) same_acc (fold_res read_node sgf_acc0 (zip [0..<length tree] tree))
      (fold_res read_node sgf_acc0 (zip [0..<length tree'] tree'))"
  proof (rule fold_res_rel [OF zip_upt_list_all2 [OF assms]])
    show "same_acc sgf_acc0 sgf_acc0" by (simp add: same_acc_fields)
  qed (auto intro: read_node_same)
  then show ?thesis
    by (cases "fold_res read_node sgf_acc0 (zip [0..<length tree] tree)";
        cases "fold_res read_node sgf_acc0 (zip [0..<length tree'] tree')")
      (auto simp: sgf_parse_def dest: finish_game_same)
qed

section \<open>Properties\<close>

text \<open>On every board the parser accepts, a point's GTP name leads back to the point: its index
  in KataGo's policy array is the row-major one from the top-left, and lies on the board.\<close>

lemma policy_index_to_gtp:
  assumes "1 \<le> n" and "n \<le> 25" and "px p < n" and "py p < n"
  shows "\<exists>s. to_gtp p n = Inr s \<and> policy_index s n = Some (py p * n + px p) \<and>
           py p * n + px p < n * n \<and> policy_index ''pass'' n = Some (n * n)"
proof -
  have "to_gtp p n = Inr ((GTP_LETTERS ! px p) # show_nat (n - py p))"
    using assms by (simp add: to_gtp_Inr)
  with assms show ?thesis
    using policy_index_to_gtp_aux [of n p] by (simp add: to_gtp_index_less)
qed

theorem policy_index_to_gtp_witness:
  "\<exists>s. to_gtp \<lparr>px = 8, py = 3\<rparr> 19 = Inr s \<and> policy_index s 19 = Some (3 * 19 + 8) \<and>
     3 * 19 + 8 < (19 * 19 :: nat) \<and> policy_index ''pass'' 19 = Some (19 * 19)"
  using policy_index_to_gtp [of 19 "\<lparr>px = 8, py = 3\<rparr>"] by simp

text \<open>C16. Whatever the SGF reader returns, a game that parses is one KataGo can replay: a board of
  size 1 to 25, every setup stone a point of it and every move a point of it or a pass.\<close>

theorem sgf_parse_replayable:
  assumes "sgf_parse go_parse sgf default_size default_komi = Inr g"
  shows "replayable g"
  using assms by (rule sgf_parse_replayable_aux)

definition sample_tree :: "sgf_prop list list" where
  "sample_tree = [[SZ 9 9, KM (Fin (13 / 2)), AB [\<lparr>px = 6, py = 6\<rparr>, \<lparr>px = 2, py = 2\<rparr>]],
                  [W_Move (Place \<lparr>px = 4, py = 4\<rparr>)], [B_Move (Place \<lparr>px = 19, py = 19\<rparr>)]]"

definition sample_game :: parsed_game where
  "sample_game = \<lparr>board_size = 9, komi = Fin (13 / 2), rules_of = Japanese, result_text = None,
     initial_stones = [(Black, ''C7''), (Black, ''G3'')],
     game_moves = [(White, ''E5''), (Black, ''pass'')]\<rparr>"

lemma sample_parses: "sgf_parse (\<lambda>_. Inr [sample_tree]) [] 19 (Fin (15 / 2)) = Inr sample_game"
  by code_simp

theorem sgf_parse_replayable_witness: "replayable sample_game"
  using sgf_parse_replayable [OF sample_parses] .

text \<open>The result depends on the setup points as sets only: two trees whose \<open>AB\<close>, \<open>AW\<close> and
  \<open>AE\<close> properties list the same points in any order give the same game or the same error.\<close>

lemma sgf_parse_setup_order:
  assumes "list_all2 (list_all2 same_prop) tree tree'"
  shows "sgf_parse (\<lambda>_. Inr (tree # rest)) sgf ds dk = sgf_parse (\<lambda>_. Inr (tree' # rest)) sgf ds dk"
  using assms by (rule sgf_parse_same_aux)

theorem sgf_parse_setup_order_witness:
  "sgf_parse (\<lambda>_. Inr [[[AB [\<lparr>px = 0, py = 1\<rparr>, \<lparr>px = 2, py = 0\<rparr>]]]]) [] 9 (Fin 7) =
   sgf_parse (\<lambda>_. Inr [[[AB [\<lparr>px = 2, py = 0\<rparr>, \<lparr>px = 0, py = 1\<rparr>]]]]) [] 9 (Fin 7)"
  by (rule sgf_parse_setup_order) (simp add: same_AB)

text \<open>The submit-time check, run with board size 19 and komi 7.5, accepts exactly the games the
  worker can parse with its own defaults, provided the main variation states a board size.\<close>

lemma validate_agrees_with_parse:
  assumes "go_parse sgf = Inr (tree # rest)" and "SZ w h \<in> set (concat tree)"
  shows "is_ok (sgf_validate go_parse sgf) = is_ok (sgf_parse go_parse sgf default_size default_komi)"
proof (cases "fold_res read_node sgf_acc0 (zip [0..<length tree] tree)")
  case (Inl e)
  then show ?thesis using assms(1) by (simp add: sgf_validate_def sgf_parse_def)
next
  case (Inr b)
  have "SZ w h \<in> set (concat (map snd (zip [0..<length tree] tree)))" using assms(2) by simp
  then obtain n where "acc_size b = Some n" using fold_read_node_size [OF Inr] by (metis not_Some_eq)
  then show ?thesis
    using finish_game_default_irrelevant [of b n]
    by (simp add: sgf_validate_def sgf_parse_def assms(1) Inr)
qed

theorem validate_agrees_with_parse_witness:
  "is_ok (sgf_validate (\<lambda>_. Inr [sample_tree]) []) =
   is_ok (sgf_parse (\<lambda>_. Inr [sample_tree]) [] 9 (Fin 7))"
  by (rule validate_agrees_with_parse [of _ _ sample_tree "[]" 9 9]) (simp_all add: sample_tree_def)

text \<open>Without a stated size the defaults do matter: a 19x19 point is off a 9x9 default board.\<close>

lemma validate_depends_on_default_size:
  "is_ok (sgf_validate (\<lambda>_. Inr [[[B_Move (Place \<lparr>px = 15, py = 3\<rparr>)]]]) [])"
  "\<not> is_ok (sgf_parse (\<lambda>_. Inr [[[B_Move (Place \<lparr>px = 15, py = 3\<rparr>)]]]) [] 9 (Fin (15 / 2)))"
  by code_simp+

end
