(* ===== verification/Config.thy ===== *)
theory Config
  imports Rust_Text Rust_Float
begin

text \<open>
  The configuration structs and their defaults (\<open>src/src/config.rs\<close>).  Unsigned fields are
  naturals; \<open>available_parallelism\<close> is the parameter \<open>parallelism\<close> (\<open>None\<close>: unreadable).  The
  secrets are plain strings here.
\<close>

section \<open>Model\<close>

datatype engine_backend = Flex | Wgpu | Rocm | Upstream

fun as_arg :: "engine_backend \<Rightarrow> string" where
  "as_arg Flex = ''flex''"
| "as_arg Wgpu = ''wgpu''"
| "as_arg Rocm = ''rocm''"
| "as_arg Upstream = ''upstream''"

definition is_katago_rs :: "engine_backend \<Rightarrow> bool" where
  "is_katago_rs b = (b \<noteq> Upstream)"

definition engine_name :: "engine_backend \<Rightarrow> string" where
  "engine_name b = (if is_katago_rs b then ''katago-rs'' else ''katago'')"

definition is_gpu :: "engine_backend \<Rightarrow> bool" where
  "is_gpu b = (b \<noteq> Flex)"

datatype autotune_mode_kind = Thorough_Mode | Fast_Mode

record engine_config =
  engine_binary :: string
  engine_backend :: engine_backend
  fp16 :: bool
  config_path :: string
  model_path :: string
  max_visits :: nat
  analysis_pv_len :: nat
  include_ownership :: bool
  include_ownership_stdev :: bool
  include_policy :: bool
  human_model :: string
  top_k :: nat
  default_komi :: fl
  default_board_size :: nat
  request_timeout_secs :: nat
  analysis_threads :: nat
  search_threads_per_analysis :: nat
  nn_max_batch_size :: nat
  nn_server_threads :: nat
  override_config :: string
  screen_visits :: nat
  refine_winrate_delta :: fl
  refine_score_delta :: fl
  autotune :: bool
  autotune_mode :: autotune_mode_kind
  autotune_visits :: nat
  autotune_cache :: string
  autotune_timeout_secs :: nat

text \<open>serde's default of each key.\<close>

definition default_binary :: string where [simp]: "default_binary = ''katago-rs''"
definition default_config :: string where [simp]: "default_config = ''analysis.cfg''"
definition default_model :: string where [simp]: "default_model = ''g170e-b10c128.bpk''"
definition default_max_visits :: nat where [simp]: "default_max_visits = 100"
definition default_pv_len :: nat where [simp]: "default_pv_len = 15"
definition default_top_k :: nat where [simp]: "default_top_k = 10"
definition default_komi_points :: fl where [simp]: "default_komi_points = lit f32 (15 / 2)"
definition default_board_side :: nat where [simp]: "default_board_side = 19"
definition default_timeout :: nat where [simp]: "default_timeout = 600"

definition default_analysis_threads :: "nat option \<Rightarrow> nat" where
  "default_analysis_threads parallelism =
     (case parallelism of None \<Rightarrow> 32 | Some threads \<Rightarrow> min threads u32_max)"

definition default_search_threads_per_analysis :: nat where [simp]: "default_search_threads_per_analysis = 1"
definition default_refine_winrate_delta :: fl where [simp]: "default_refine_winrate_delta = lit f32 (3 / 100)"
definition default_refine_score_delta :: fl where [simp]: "default_refine_score_delta = lit f32 1"
definition default_autotune_timeout :: nat where [simp]: "default_autotune_timeout = 300"
definition default_autotune_visits :: nat where [simp]: "default_autotune_visits = 16"

definition default_engine_config :: "nat option \<Rightarrow> engine_config" where
  "default_engine_config parallelism =
     \<lparr>engine_binary = default_binary, engine_backend = Flex, fp16 = False,
      config_path = default_config, model_path = default_model,
      max_visits = default_max_visits, analysis_pv_len = default_pv_len,
      include_ownership = True, include_ownership_stdev = True, include_policy = True,
      human_model = [], top_k = default_top_k, default_komi = default_komi_points,
      default_board_size = default_board_side,
      request_timeout_secs = default_timeout, analysis_threads = default_analysis_threads parallelism,
      search_threads_per_analysis = default_search_threads_per_analysis, nn_max_batch_size = 0, nn_server_threads = 0,
      override_config = [], screen_visits = 0,
      refine_winrate_delta = default_refine_winrate_delta, refine_score_delta = default_refine_score_delta,
      autotune = True, autotune_mode = Thorough_Mode, autotune_visits = default_autotune_visits,
      autotune_cache = [], autotune_timeout_secs = default_autotune_timeout\<rparr>"

definition two_pass :: "engine_config \<Rightarrow> bool" where
  "two_pass cfg = (0 < screen_visits cfg \<and> screen_visits cfg < max_visits cfg)"

text \<open>The pieces of the override argument, in order: numeric knobs, \<open>burnUseFP16\<close>, raw extras.\<close>

definition numeric_overrides :: "engine_config \<Rightarrow> (string \<times> nat) list" where
  "numeric_overrides cfg = filter (\<lambda>(_, value). 0 < value)
     [(''numAnalysisThreads'', analysis_threads cfg),
      (''numSearchThreadsPerAnalysisThread'', search_threads_per_analysis cfg),
      (''nnMaxBatchSize'', nn_max_batch_size cfg),
      (''numNNServerThreadsPerModel'', nn_server_threads cfg)]"

definition fp16_override :: "engine_config \<Rightarrow> string list" where
  "fp16_override cfg = (if fp16 cfg \<and> is_katago_rs (engine_backend cfg) then [''burnUseFP16=true''] else [])"

definition extra_overrides :: "engine_config \<Rightarrow> string list" where
  "extra_overrides cfg = filter (\<lambda>p. p \<noteq> []) (map trim (split_on (CHR '','') (override_config cfg)))"

definition override_pairs :: "engine_config \<Rightarrow> string list" where
  "override_pairs cfg =
     map (\<lambda>(key, value). key @ ''='' @ show_nat value) (numeric_overrides cfg) @
     fp16_override cfg @ extra_overrides cfg"

definition katago_overrides :: "engine_config \<Rightarrow> string option" where
  "katago_overrides cfg =
     (let joined = join '','' (override_pairs cfg) in if joined = [] then None else Some joined)"

record worker_config =
  concurrency :: nat
  worker_name :: string
  visibility_timeout_secs :: int
  poll_secs :: nat
  max_attempts :: int
  orchestrator_url :: string
  worker_auth_token :: string
  reconnect_backoff_secs :: nat

definition default_concurrency :: nat where [simp]: "default_concurrency = 4"
definition default_visibility :: int where [simp]: "default_visibility = 600"
definition default_poll :: nat where [simp]: "default_poll = 5"
definition default_max_attempts :: int where [simp]: "default_max_attempts = 3"
definition default_orchestrator_url :: string where [simp]: "default_orchestrator_url = ''ws://127.0.0.1:3000/cluster''"
definition default_reconnect_backoff :: nat where [simp]: "default_reconnect_backoff = 3"

definition default_worker_config :: worker_config where
  "default_worker_config =
     \<lparr>concurrency = default_concurrency, worker_name = [], visibility_timeout_secs = default_visibility, poll_secs = default_poll,
      max_attempts = default_max_attempts, orchestrator_url = default_orchestrator_url,
      worker_auth_token = [], reconnect_backoff_secs = default_reconnect_backoff\<rparr>"

record orchestrator_config =
  orchestrator_auth_token :: string

record api_config =
  client_token :: string

definition default_orchestrator_config :: orchestrator_config where
  "default_orchestrator_config = \<lparr>orchestrator_auth_token = []\<rparr>"

definition default_api_config :: api_config where
  "default_api_config = \<lparr>client_token = []\<rparr>"

section \<open>The override argument\<close>

lemma as_arg_inj: "as_arg a = as_arg b \<Longrightarrow> a = b"
  by (cases a; cases b) simp_all

lemma extra_overrides_no_comma: "p \<in> set (extra_overrides cfg) \<Longrightarrow> CHR '','' \<notin> set p \<and> p \<noteq> []"
  using set_trim split_on_no_sep by (fastforce simp: extra_overrides_def)

lemma show_nat_no_comma: "CHR '','' \<notin> set (show_nat n)"
  by (rule show_nat_no_char) (simp add: is_ascii_digit_def byte_val_def)

lemma override_pairs_no_comma: "p \<in> set (override_pairs cfg) \<Longrightarrow> CHR '','' \<notin> set p \<and> p \<noteq> []"
  using extra_overrides_no_comma [of p cfg] show_nat_no_comma
  by (auto simp: override_pairs_def numeric_overrides_def fp16_override_def split: if_splits)

lemma katago_overrides_Some:
  "katago_overrides cfg = Some s \<longleftrightarrow> override_pairs cfg \<noteq> [] \<and> s = join '','' (override_pairs cfg)"
  using join_nonempty [of "override_pairs cfg" "'',''"] override_pairs_no_comma [of _ cfg]
  by (auto simp: katago_overrides_def Let_def)

text \<open>The override argument is absent exactly when nothing is overridden, and otherwise splits at
  its commas into the pairs it was made of: every non-zero numeric knob, the f16 switch for a
  katago-rs backend, and the raw extras, none of them blank.\<close>

lemma katago_overrides_split:
  "(katago_overrides cfg = None \<longleftrightarrow> override_pairs cfg = []) \<and>
   (case katago_overrides cfg of None \<Rightarrow> True | Some s \<Rightarrow> split_on (CHR '','') s = override_pairs cfg) \<and>
   [] \<notin> set (override_pairs cfg)"
proof -
  have "katago_overrides cfg = None \<longleftrightarrow> override_pairs cfg = []"
    using katago_overrides_Some [of cfg] by (cases "katago_overrides cfg") auto
  moreover have "split_on (CHR '','') s = override_pairs cfg" if "katago_overrides cfg = Some s" for s
    using that override_pairs_no_comma [of _ cfg] split_on_join [of "override_pairs cfg" "CHR '',''"]
    by (auto simp: katago_overrides_Some)
  ultimately show ?thesis
    using override_pairs_no_comma [of "[]" cfg] by (auto split: option.splits)
qed

end
