(* ===== verification/Katago_Types.thy ===== *)
theory Katago_Types
  imports Sgf_Parser Config
begin

text \<open>
  The engine protocol's data (\<open>src/src/engine/katago.rs\<close>, up to the owner task): whose frame a
  reading is in, per-turn responses, the query a game becomes, and the engine's command line.
  JSON reading and writing is \<open>serde_json\<close>'s and enters as a parameter where it is used.
\<close>

section \<open>Perspective\<close>

datatype perspective = Black_View | White_View | Side_To_Move

fun as_katago_setting :: "perspective \<Rightarrow> string" where
  "as_katago_setting Black_View = ''BLACK''"
| "as_katago_setting White_View = ''WHITE''"
| "as_katago_setting Side_To_Move = ''SIDETOMOVE''"

fun reporter :: "perspective \<Rightarrow> color option \<Rightarrow> color \<Rightarrow> color" where
  "reporter Black_View current_player side_to_move = Black"
| "reporter White_View current_player side_to_move = White"
| "reporter Side_To_Move current_player side_to_move = opt_else side_to_move current_player"

definition REPORT_PERSPECTIVE :: perspective where
  "REPORT_PERSPECTIVE = Side_To_Move"

record eval =
  ev_winrate :: fl
  ev_score_lead :: fl

definition flipped :: "eval \<Rightarrow> eval" where
  "flipped e = \<lparr>ev_winrate = fsub f32 (Fin 1) (ev_winrate e), ev_score_lead = fneg (ev_score_lead e)\<rparr>"

record root_info =
  ri_winrate :: fl
  ri_score_lead :: fl
  ri_current_player :: "color option"

definition root_as_seen_by :: "root_info \<Rightarrow> color \<Rightarrow> color \<Rightarrow> eval" where
  "root_as_seen_by r viewer side_to_move =
     (let e = \<lparr>ev_winrate = ri_winrate r, ev_score_lead = ri_score_lead r\<rparr>
      in if reporter REPORT_PERSPECTIVE (ri_current_player r) side_to_move = viewer then e
         else flipped e)"

record move_info =
  mi_mv :: string
  mi_winrate :: fl
  mi_score_lead :: fl
  mi_prior :: fl
  mi_visits :: nat
  mi_human_prior :: "fl option"
  mi_order :: nat
  mi_pv :: "string list"

definition move_as_seen_by :: "move_info \<Rightarrow> color \<Rightarrow> color \<Rightarrow> eval" where
  "move_as_seen_by m viewer side_to_move =
     (let e = \<lparr>ev_winrate = mi_winrate m, ev_score_lead = mi_score_lead m\<rparr>
      in if reporter REPORT_PERSPECTIVE (Some side_to_move) side_to_move = viewer then e
         else flipped e)"

record turn_response =
  turn_number :: nat
  tr_root_info :: "root_info option"
  tr_move_infos :: "move_info list"
  tr_ownership :: "fl list option"
  tr_ownership_stdev :: "fl list option"
  tr_policy :: "fl list option"
  tr_human_policy :: "fl list option"

section \<open>Queries\<close>

record override_settings =
  report_analysis_winrates_as :: string
  human_sl_profile :: "string option"

definition override_settings_new :: "string option \<Rightarrow> override_settings" where
  "override_settings_new human_profile =
     \<lparr>report_analysis_winrates_as = as_katago_setting REPORT_PERSPECTIVE,
      human_sl_profile = human_profile\<rparr>"

record analysis_query =
  q_id :: string
  q_rules :: rules
  q_komi :: fl
  q_board_x_size :: nat
  q_board_y_size :: nat
  q_initial_stones :: "colored_move list"
  q_moves :: "colored_move list"
  q_analyze_turns :: "nat list"
  q_max_visits :: nat
  q_analysis_pv_len :: nat
  q_include_ownership :: bool
  q_include_ownership_stdev :: bool
  q_include_policy :: bool
  q_priority :: int
  q_override_settings :: override_settings

text \<open>The query \<open>KataGo::analyze\<close> builds for a non-empty turn list; the owner fills in the id.\<close>

definition analyze_query ::
  "parsed_game \<Rightarrow> engine_config \<Rightarrow> nat list \<Rightarrow> nat \<Rightarrow> int \<Rightarrow> string option \<Rightarrow> analysis_query" where
  "analyze_query game cfg turns visits priority human_profile =
     \<lparr>q_id = [], q_rules = rules_of game, q_komi = komi game,
      q_board_x_size = board_size game, q_board_y_size = board_size game,
      q_initial_stones = initial_stones game, q_moves = game_moves game,
      q_analyze_turns = turns, q_max_visits = visits, q_analysis_pv_len = analysis_pv_len cfg,
      q_include_ownership = include_ownership cfg,
      q_include_ownership_stdev = include_ownership_stdev cfg,
      q_include_policy = include_policy cfg, q_priority = priority,
      q_override_settings = override_settings_new human_profile\<rparr>"

text \<open>How the caller's wait for the reply channel ended: the owner's answer, the channel dropped
  unanswered, or the timeout.  \<open>send_ok\<close> says whether the owner took the command at all.\<close>

datatype reply_wait =
    Replied "string + turn_response list"
  | Reply_Dropped
  | Reply_Timeout

definition analyze_outcome :: "bool \<Rightarrow> reply_wait \<Rightarrow> turn_response list app_result" where
  "analyze_outcome send_ok w =
     (if \<not> send_ok then Inl (Inference ''katago engine stopped'')
      else case w of
        Replied (Inr turns) \<Rightarrow> Inr turns
      | Replied (Inl err) \<Rightarrow> Inl (Inference (''katago: '' @ err))
      | Reply_Dropped \<Rightarrow> Inl (Inference ''katago engine dropped the request'')
      | Reply_Timeout \<Rightarrow> Inl (Inference ''katago analysis timed out''))"

text \<open>\<open>KataGo::analyze\<close>: \<open>ask\<close> stands for handing the query to the owner task and waiting.\<close>

definition katago_analyze ::
  "(analysis_query \<Rightarrow> nat \<Rightarrow> bool \<times> reply_wait) \<Rightarrow> parsed_game \<Rightarrow> engine_config \<Rightarrow> nat list \<Rightarrow> nat
     \<Rightarrow> int \<Rightarrow> string option \<Rightarrow> turn_response list app_result" where
  "katago_analyze ask game cfg turns visits priority human_profile =
     (let expected = length turns in
      if expected = 0 then Inr []
      else let (send_ok, w) = ask (analyze_query game cfg turns visits priority human_profile) expected
           in analyze_outcome send_ok w)"

section \<open>Command line and version\<close>

definition engine_args :: "engine_config \<Rightarrow> string list" where
  "engine_args cfg =
     [''analysis''] @
     (if is_katago_rs (engine_backend cfg) then [''-backend'', as_arg (engine_backend cfg)] else []) @
     [''-config'', config_path cfg, ''-model'', model_path cfg] @
     (if human_model cfg \<noteq> [] then [''-human-model'', human_model cfg] else []) @
     (case katago_overrides cfg of None \<Rightarrow> [] | Some overrides \<Rightarrow> [''-override-config'', overrides])"

definition parse_version :: "string \<Rightarrow> string option" where
  "parse_version txt =
     opt_filter (\<lambda>version. version \<noteq> [])
       (map_option trim (find_map (\<lambda>line. strip_prefix ''KataGo v'' (trim line)) (text_lines txt)))"

section \<open>Lemmas\<close>

lemma other_other [simp]: "other (other c) = c"
  by (cases c) simp_all

lemma other_neq [simp]: "other c \<noteq> c" "c \<noteq> other c"
  by (cases c; simp)+

lemma color_cases2: "c \<noteq> d \<Longrightarrow> d = other c"
  by (cases c; cases d) simp_all

lemma flipped_score [simp]: "ev_score_lead (flipped (flipped e)) = ev_score_lead e"
  by (simp add: flipped_def)

lemma as_katago_setting_inj: "as_katago_setting p = as_katago_setting q \<Longrightarrow> p = q"
  by (cases p; cases q) simp_all

text \<open>Candidates are read in the mover's frame as they come.\<close>

lemma move_as_seen_by_mover:
  "move_as_seen_by m c c = \<lparr>ev_winrate = mi_winrate m, ev_score_lead = mi_score_lead m\<rparr>"
  by (simp add: move_as_seen_by_def Let_def REPORT_PERSPECTIVE_def)

lemma root_as_seen_by_score:
  "ev_score_lead (root_as_seen_by r (other v) s) = fneg (ev_score_lead (root_as_seen_by r v s))"
  by (cases "reporter REPORT_PERSPECTIVE (ri_current_player r) s"; cases v)
    (simp_all add: root_as_seen_by_def Let_def flipped_def)

lemma katago_analyze_no_turns: "katago_analyze ask game cfg [] v p h = Inr []"
  by (simp add: katago_analyze_def)

lemma parse_version_nonempty: "parse_version t = Some v \<Longrightarrow> v \<noteq> []"
  by (auto simp: parse_version_def opt_filter_eq_Some)

end
