(* ===== verification/Annotate_Report.thy ===== *)
theory Annotate_Report
  imports Katago_Types
begin

text \<open>
  Judging moves and aggregating a player's game (\<open>src/src/engine/annotate.rs\<close>): the two
  classifications, the per-move accuracy, the strength band and the per-player accumulator.
  \<open>f32::exp\<close>, whose result the standard library leaves unspecified, is the parameter \<open>expf\<close>.
\<close>

section \<open>Model\<close>

definition PAYLOAD_VERSION :: nat where "PAYLOAD_VERSION = 3"

datatype classification = Good | Inaccuracy | Mistake | Blunder

fun severity :: "classification \<Rightarrow> nat" where
  "severity Good = 0"
| "severity Inaccuracy = 1"
| "severity Mistake = 2"
| "severity Blunder = 3"

instantiation classification :: linorder
begin

definition less_eq_classification :: "classification \<Rightarrow> classification \<Rightarrow> bool" where
  "less_eq_classification a b = (severity a \<le> severity b)"

definition less_classification :: "classification \<Rightarrow> classification \<Rightarrow> bool" where
  "less_classification a b = (severity a < severity b)"

instance
proof
  fix a b c :: classification
  show "a \<le> b \<Longrightarrow> b \<le> a \<Longrightarrow> a = b"
    by (cases a; cases b) (simp_all add: less_eq_classification_def)
qed (auto simp: less_eq_classification_def less_classification_def)

end

record class_counts =
  cc_good :: nat
  cc_inaccuracy :: nat
  cc_mistake :: nat
  cc_blunder :: nat

definition class_counts0 :: class_counts where
  "class_counts0 = \<lparr>cc_good = 0, cc_inaccuracy = 0, cc_mistake = 0, cc_blunder = 0\<rparr>"

fun counts_record :: "class_counts \<Rightarrow> classification \<Rightarrow> class_counts" where
  "counts_record c Good = c\<lparr>cc_good := cc_good c + 1\<rparr>"
| "counts_record c Inaccuracy = c\<lparr>cc_inaccuracy := cc_inaccuracy c + 1\<rparr>"
| "counts_record c Mistake = c\<lparr>cc_mistake := cc_mistake c + 1\<rparr>"
| "counts_record c Blunder = c\<lparr>cc_blunder := cc_blunder c + 1\<rparr>"

record player_report =
  pr_moves :: nat
  pr_accuracy :: fl
  pr_mean_winrate_loss :: fl
  pr_mean_score_loss :: fl
  pr_by_winrate :: class_counts
  pr_by_score :: class_counts
  pr_estimated_rank :: "string option"

record player_accum =
  pa_moves :: nat
  pa_winrate_loss_sum :: fl
  pa_score_loss_sum :: fl
  pa_accuracy_sum :: fl
  pa_by_winrate :: class_counts
  pa_by_score :: class_counts

definition player_accum0 :: player_accum where
  "player_accum0 = \<lparr>pa_moves = 0, pa_winrate_loss_sum = Fin 0, pa_score_loss_sum = Fin 0,
     pa_accuracy_sum = Fin 0, pa_by_winrate = class_counts0, pa_by_score = class_counts0\<rparr>"

definition move_accuracy :: "(fl \<Rightarrow> fl) \<Rightarrow> fl \<Rightarrow> fl" where
  "move_accuracy expf winrate_loss =
     (let drop_pp = fmax (fmul f32 winrate_loss (Fin 100)) (Fin 0) in
      fclamp
        (fsub f32 (fmul f32 (lit f32 (1031668 / 10000))
                     (expf (fmul f32 (fneg (lit f32 (4354 / 100000))) drop_pp)))
           (lit f32 (31669 / 10000)))
        (Fin 0) (Fin 100))"

definition accum_record ::
  "(fl \<Rightarrow> fl) \<Rightarrow> player_accum \<Rightarrow> fl \<Rightarrow> fl \<Rightarrow> classification \<Rightarrow> classification \<Rightarrow> player_accum" where
  "accum_record expf a winrate_loss score_loss winrate_class score_class =
     a\<lparr>pa_moves := pa_moves a + 1,
       pa_winrate_loss_sum := fadd f32 (pa_winrate_loss_sum a) winrate_loss,
       pa_score_loss_sum := fadd f32 (pa_score_loss_sum a) score_loss,
       pa_accuracy_sum := fadd f32 (pa_accuracy_sum a) (move_accuracy expf winrate_loss),
       pa_by_winrate := counts_record (pa_by_winrate a) winrate_class,
       pa_by_score := counts_record (pa_by_score a) score_class\<rparr>"

definition RANK_MIN_MOVES :: nat where "RANK_MIN_MOVES = 20"

text \<open>The \<open>if\<close> chain of \<open>estimate_rank\<close>, threshold by threshold.\<close>

definition rank_bands :: "(rat \<times> string) list" where
  "rank_bands =
     [(8 / 10, ''~7d+''), (12 / 10, ''~5d''), (17 / 10, ''~3d''), (22 / 10, ''~1d''),
      (28 / 10, ''~2k''), (35 / 10, ''~5k''), (45 / 10, ''~8k''), (6, ''~12k'')]"

definition estimate_rank :: "nat \<Rightarrow> nat \<Rightarrow> fl \<Rightarrow> string option" where
  "estimate_rank bsize moves mean_score_loss =
     (if bsize \<noteq> 19 \<or> moves < RANK_MIN_MOVES then None
      else Some (case find (\<lambda>(t, _). flt mean_score_loss (lit f32 t)) rank_bands of
                   Some (_, band) \<Rightarrow> band
                 | None \<Rightarrow> ''~15k+''))"

definition accum_finish :: "player_accum \<Rightarrow> nat \<Rightarrow> player_report" where
  "accum_finish a bsize =
     (let denom = of_nat_fl f32 (max (pa_moves a) 1);
          mean_score_loss = fdiv f32 (pa_score_loss_sum a) denom
      in \<lparr>pr_moves = pa_moves a,
          pr_accuracy = fdiv f32 (pa_accuracy_sum a) denom,
          pr_mean_winrate_loss = fdiv f32 (pa_winrate_loss_sum a) denom,
          pr_mean_score_loss = mean_score_loss,
          pr_by_winrate = pa_by_winrate a,
          pr_by_score = pa_by_score a,
          pr_estimated_rank = estimate_rank bsize (pa_moves a) mean_score_loss\<rparr>)"

definition classify_winrate :: "fl \<Rightarrow> classification" where
  "classify_winrate loss =
     (if flt loss (lit f32 (3 / 100)) then Good
      else if flt loss (lit f32 (7 / 100)) then Inaccuracy
      else if flt loss (lit f32 (15 / 100)) then Mistake
      else Blunder)"

definition classify_score :: "fl \<Rightarrow> classification" where
  "classify_score points_lost =
     (if flt points_lost (lit f32 1) then Good
      else if flt points_lost (lit f32 3) then Inaccuracy
      else if flt points_lost (lit f32 6) then Mistake
      else Blunder)"

section \<open>Threshold classifiers\<close>

text \<open>Both lenses cut the line at three thresholds; what holds of one holds of the other.\<close>

locale threshold_classifier =
  fixes judge :: "fl \<Rightarrow> classification" and t1 t2 t3 :: fl
  assumes judge_eq: "judge x = (if flt x t1 then Good else if flt x t2 then Inaccuracy
                                else if flt x t3 then Mistake else Blunder)"
    and ordered: "fle t1 t2" "fle t2 t3"
begin

lemma below_mono: "fle x y \<Longrightarrow> flt y t \<Longrightarrow> flt x t"
  using fle_trans fle_not_NaN by (metis flt_iff)

lemma judge_mono: "fle x y \<Longrightarrow> judge x \<le> judge y"
  using below_mono [of x y t1] below_mono [of x y t2] below_mono [of x y t3]
  by (auto simp: judge_eq less_eq_classification_def)

lemma judge_good: "judge x = Good \<longleftrightarrow> flt x t1"
  by (simp add: judge_eq)

lemma judge_blunder: "x \<noteq> NaN \<Longrightarrow> judge x = Blunder \<longleftrightarrow> fle t3 x"
proof -
  assume x: "x \<noteq> NaN"
  have "flt x t \<longleftrightarrow> \<not> fle t x" if "t \<noteq> NaN" for t using x that by (simp add: flt_iff)
  moreover have "t1 \<noteq> NaN" "t2 \<noteq> NaN" "t3 \<noteq> NaN" using ordered fle_not_NaN by blast+
  ultimately show ?thesis
    using ordered fle_trans [of t2 t3 x] fle_trans [of t1 t2 x] by (auto simp: judge_eq)
qed

lemma judge_NaN: "judge NaN = Blunder"
  by (simp add: judge_eq flt_iff)

end

interpretation by_winrate_lens: threshold_classifier classify_winrate
  "lit f32 (3 / 100)" "lit f32 (7 / 100)" "lit f32 (15 / 100)"
proof
  show "fle (lit f32 (3 / 100)) (lit f32 (7 / 100))" "fle (lit f32 (7 / 100)) (lit f32 (15 / 100))"
    by (simp_all add: lit_def rnd_f32_mono)
qed (simp add: classify_winrate_def)

interpretation by_score_lens: threshold_classifier classify_score "lit f32 1" "lit f32 3" "lit f32 6"
proof
  show "fle (lit f32 1) (lit f32 3)" "fle (lit f32 3) (lit f32 6)"
    by (simp_all add: lit_def rnd_f32_mono)
qed (simp add: classify_score_def)

section \<open>Accumulators\<close>

definition counts_total :: "class_counts \<Rightarrow> nat" where
  "counts_total c = cc_good c + cc_inaccuracy c + cc_mistake c + cc_blunder c"

lemma counts_record_total [simp]: "counts_total (counts_record c k) = Suc (counts_total c)"
  by (cases k) (simp_all add: counts_total_def)

lemma fadd_nonneg:
  assumes "fle (Fin 0) x" and "fle (Fin 0) y" shows "fle (Fin 0) (fadd f32 x y)"
proof (cases x; cases y)
  fix a b assume ab: "x = Fin a" "y = Fin b"
  then have "fle (rnd f32 0) (rnd f32 (a + b))" using assms by (intro rnd_f32_mono) simp
  then show ?thesis using ab by (simp add: rnd_def)
qed (use assms in auto)

lemma fdiv_nonneg:
  assumes "fle (Fin 0) x" and "fle (Fin 1) y" and "y \<noteq> PInf" shows "fle (Fin 0) (fdiv f32 x y)"
proof (cases x; cases y)
  fix a b assume ab: "x = Fin a" "y = Fin b"
  then have "fle (rnd f32 0) (rnd f32 (a / b))" using assms by (intro rnd_f32_mono) simp
  then show ?thesis using ab assms by (simp add: rnd_def)
qed (use assms in auto)

lemma of_nat_fl_ge1: "1 \<le> n \<Longrightarrow> fle (Fin 1) (of_nat_fl f32 n)"
  using rnd_f32_mono [of 1 "of_nat n"] rnd_f32_of_nat [of 1] by (simp add: of_nat_fl_def)

lemma of_nat_fl_finite:
  assumes "n \<le> usize_max" shows "of_nat_fl f32 n \<noteq> PInf"
proof -
  have "(of_nat n :: rat) \<le> of_nat usize_max" using assms by (simp only: of_nat_le_iff)
  also have "\<dots> \<le> 18446744073709551616" by (simp add: usize_max_def)
  finally have "fle (rnd f32 (of_nat n)) (rnd f32 18446744073709551616)" by (rule rnd_f32_mono)
  moreover have "rnd f32 18446744073709551616 = Fin 18446744073709551616" by code_simp
  ultimately show ?thesis by (auto simp: of_nat_fl_def)
qed

text \<open>What the standard library says of \<open>exp\<close> on NaN: only NaN gives NaN.\<close>

definition exp_total :: "(fl \<Rightarrow> fl) \<Rightarrow> bool" where
  "exp_total expf = (\<forall>x. x \<noteq> NaN \<longrightarrow> expf x \<noteq> NaN)"

lemma fmul_Fin_not_NaN: "c \<noteq> 0 \<Longrightarrow> x \<noteq> NaN \<Longrightarrow> fmul m (Fin c) x \<noteq> NaN"
  by (cases x) (simp_all add: finf_def)

lemma accuracy_literals:
  "lit f32 (257917 / 2500) = Fin (13522279 / 131072)"
  "lit f32 (2177 / 50000) = Fin (45655 / 1048576)"
  "lit f32 (31669 / 10000) = Fin (13282941 / 4194304)"
  by code_simp+

lemma move_accuracy_range:
  assumes "exp_total expf"
  shows "\<exists>a. move_accuracy expf w = Fin a \<and> 0 \<le> a \<and> a \<le> 100"
proof -
  define d where "d = fmax (fmul f32 w (Fin 100)) (Fin 0)"
  have "d \<noteq> NaN" by (simp add: d_def fmax_not_NaN)
  then have "fmul f32 (fneg (lit f32 (4354 / 100000))) d \<noteq> NaN"
    by (simp add: accuracy_literals fmul_Fin_not_NaN)
  then have "expf (fmul f32 (fneg (lit f32 (4354 / 100000))) d) \<noteq> NaN"
    using assms by (simp add: exp_total_def)
  then have "fmul f32 (lit f32 (1031668 / 10000)) (expf (fmul f32 (fneg (lit f32 (4354 / 100000))) d)) \<noteq> NaN"
    by (simp add: accuracy_literals fmul_Fin_not_NaN)
  moreover have "fsub f32 x (lit f32 (31669 / 10000)) \<noteq> NaN" if "x \<noteq> NaN" for x
    using that by (cases x) (simp_all add: fsub_def accuracy_literals)
  ultimately have "fle (Fin 0) (move_accuracy expf w) \<and> fle (move_accuracy expf w) (Fin 100)"
    unfolding move_accuracy_def Let_def d_def [symmetric] by (intro fclamp_range) simp_all
  then show ?thesis by (cases "move_accuracy expf w") auto
qed

text \<open>The accumulator's invariant: both breakdowns count every move, the loss sums are
  non-negative numbers, and the accuracy sum is at most 100 per move as long as \<open>f32\<close> holds
  every such sum exactly (\<open>100 * 167772 < 2^24\<close>).\<close>

definition ACCURACY_MOVES :: nat where "ACCURACY_MOVES = 167772"

definition accum_inv :: "player_accum \<Rightarrow> bool" where
  "accum_inv a =
     (counts_total (pa_by_winrate a) = pa_moves a \<and> counts_total (pa_by_score a) = pa_moves a \<and>
      fle (Fin 0) (pa_winrate_loss_sum a) \<and> fle (Fin 0) (pa_score_loss_sum a) \<and>
      (pa_moves a \<le> ACCURACY_MOVES \<longrightarrow>
         (\<exists>s. pa_accuracy_sum a = Fin s \<and> 0 \<le> s \<and> s \<le> of_nat (100 * pa_moves a))))"

lemma accum_inv0 [simp, inv_intros]: "accum_inv player_accum0"
  by (simp add: accum_inv_def player_accum0_def class_counts0_def counts_total_def)

lemma accum_inv_record [inv_intros]:
  assumes "accum_inv a" and "exp_total expf" and "fle (Fin 0) wl" and "fle (Fin 0) sl"
  shows "accum_inv (accum_record expf a wl sl wc sc)"
proof -
  have "\<exists>s. fadd f32 (pa_accuracy_sum a) (move_accuracy expf wl) = Fin s \<and> 0 \<le> s \<and>
      s \<le> of_nat (100 * Suc (pa_moves a))" if m: "Suc (pa_moves a) \<le> ACCURACY_MOVES"
  proof -
    obtain s where s: "pa_accuracy_sum a = Fin s" "0 \<le> s" "s \<le> of_nat (100 * pa_moves a)"
      using assms(1) m by (auto simp: accum_inv_def)
    obtain b where b: "move_accuracy expf wl = Fin b" "0 \<le> b" "b \<le> 100"
      using move_accuracy_range [OF assms(2)] by blast
    have "\<exists>y. rnd f32 (s + b) = Fin y \<and> 0 \<le> y \<and> y \<le> of_nat (100 * Suc (pa_moves a))"
    proof (rule rnd_f32_range)
      show "s + b \<le> of_nat (100 * Suc (pa_moves a))" using s b by simp
    qed (use s b m in \<open>simp_all add: ACCURACY_MOVES_def\<close>)
    then show ?thesis using s b by simp
  qed
  then show ?thesis
    using assms by (simp add: accum_inv_def accum_record_def fadd_nonneg)
qed

definition report_inv :: "player_report \<Rightarrow> bool" where
  "report_inv r =
     (counts_total (pr_by_winrate r) = pr_moves r \<and> counts_total (pr_by_score r) = pr_moves r \<and>
      (pr_moves r \<le> usize_max \<longrightarrow>
         fle (Fin 0) (pr_mean_winrate_loss r) \<and> fle (Fin 0) (pr_mean_score_loss r)) \<and>
      (pr_moves r \<le> ACCURACY_MOVES \<longrightarrow>
         (\<exists>x. pr_accuracy r = Fin x \<and> 0 \<le> x \<and> x \<le> 100)))"

lemma accum_finish_inv:
  assumes "accum_inv a" shows "report_inv (accum_finish a bsize)"
proof -
  define n where "n = max (pa_moves a) 1"
  have "\<exists>x. fdiv f32 (pa_accuracy_sum a) (of_nat_fl f32 n) = Fin x \<and> 0 \<le> x \<and> x \<le> 100"
    if m: "pa_moves a \<le> ACCURACY_MOVES"
  proof -
    obtain s where s: "pa_accuracy_sum a = Fin s" "0 \<le> s" "s \<le> of_nat (100 * pa_moves a)"
      using assms m by (auto simp: accum_inv_def)
    have n: "1 \<le> n" "n \<le> 16777216" "pa_moves a \<le> n" using m by (simp_all add: n_def ACCURACY_MOVES_def)
    have "s \<le> of_nat (100 * n)" using s(3) n(3) by (meson of_nat_le_iff mult_le_mono2 order_trans)
    then have "s / of_nat n \<le> of_nat 100" using n(1) by (simp add: divide_le_eq)
    then have "\<exists>y. rnd f32 (s / of_nat n) = Fin y \<and> 0 \<le> y \<and> y \<le> of_nat 100"
      using s n by (intro rnd_f32_range) auto
    then show ?thesis using s n by (simp add: of_nat_fl_def rnd_f32_of_nat)
  qed
  moreover have "fle (Fin 1) (of_nat_fl f32 n)" by (rule of_nat_fl_ge1) (simp add: n_def)
  moreover have "pa_moves a \<le> usize_max \<Longrightarrow> of_nat_fl f32 n \<noteq> PInf"
    by (rule of_nat_fl_finite) (simp add: n_def usize_max_def)
  ultimately show ?thesis
    using assms unfolding n_def
    by (auto simp: report_inv_def accum_finish_def Let_def accum_inv_def intro: fdiv_nonneg)
qed

definition record_all ::
  "(fl \<Rightarrow> fl) \<Rightarrow> (fl \<times> fl \<times> classification \<times> classification) list \<Rightarrow> player_accum" where
  "record_all expf ms = foldl (\<lambda>a (wl, sl, wc, sc). accum_record expf a wl sl wc sc) player_accum0 ms"

lemma record_all_moves [simp]: "pa_moves (record_all expf ms) = length ms"
  by (induction ms rule: rev_induct) (auto simp: record_all_def player_accum0_def accum_record_def)

lemma record_all_inv:
  assumes "exp_total expf" and "\<forall>(wl, sl, _) \<in> set ms. fle (Fin 0) wl \<and> fle (Fin 0) sl"
  shows "accum_inv (record_all expf ms)"
  using assms(2) by (induction ms rule: rev_induct) (auto simp: record_all_def assms(1) intro: inv_intros)

lemma accum_finish_moves [simp]: "pr_moves (accum_finish a n) = pa_moves a"
  by (simp add: accum_finish_def Let_def)

section \<open>The strength band\<close>

definition band_names :: "string list" where
  "band_names = map snd rank_bands @ [''~15k+'']"

definition band_index :: "fl \<Rightarrow> nat" where
  "band_index x = length (takeWhile (\<lambda>b. \<not> flt x (lit f32 (fst b))) rank_bands)"

lemma find_takeWhile:
  "(case find P xs of Some (_, b) \<Rightarrow> b | None \<Rightarrow> d) =
     (map snd xs @ [d]) ! length (takeWhile (\<lambda>x. \<not> P x) xs)"
  by (induction xs) auto

lemma estimate_rank_index:
  "estimate_rank 19 moves x = (if moves < RANK_MIN_MOVES then None else Some (band_names ! band_index x))"
  by (simp add: estimate_rank_def band_names_def band_index_def find_takeWhile case_prod_beta)

lemma length_takeWhile_mono:
  "(\<And>x. P x \<Longrightarrow> Q x) \<Longrightarrow> length (takeWhile P xs) \<le> length (takeWhile Q xs)"
  by (induction xs) auto

lemma band_index_mono: "fle x y \<Longrightarrow> band_index x \<le> band_index y"
  unfolding band_index_def
  by (rule length_takeWhile_mono) (use by_score_lens.below_mono in blast)

lemma band_names_distinct: "distinct band_names"
  by (simp add: band_names_def rank_bands_def)

section \<open>Properties\<close>

text \<open>Both lenses are monotone in the loss, call NaN a blunder, and cut at their thresholds: below
  3 points of win rate in a hundred (below one point of score) is good, from 15 in a hundred (from 6
  points) is a blunder.  The strength band never improves when the mean loss grows, and is reported
  only on 19x19 for at least 20 moves.\<close>

lemma classification_monotone:
  assumes "fle x y"
  shows "classify_winrate x \<le> classify_winrate y \<and> classify_score x \<le> classify_score y \<and>
    band_index x \<le> band_index y \<and>
    (classify_winrate x = Good \<longleftrightarrow> flt x (lit f32 (3 / 100))) \<and>
    (classify_winrate x = Blunder \<longleftrightarrow> fle (lit f32 (15 / 100)) x) \<and>
    (classify_score x = Good \<longleftrightarrow> flt x (lit f32 1)) \<and>
    (classify_score x = Blunder \<longleftrightarrow> fle (lit f32 6) x) \<and>
    (estimate_rank n moves x =
       (if n \<noteq> 19 \<or> moves < 20 then None else Some (band_names ! band_index x)))"
proof -
  have x: "x \<noteq> NaN" using assms fle_not_NaN by blast
  show ?thesis
    using assms x by_winrate_lens.judge_mono by_score_lens.judge_mono band_index_mono
      by_winrate_lens.judge_good by_score_lens.judge_good
      by_winrate_lens.judge_blunder by_score_lens.judge_blunder
      estimate_rank_index [of moves x]
    by (auto simp: RANK_MIN_MOVES_def estimate_rank_def)
qed

theorem classification_monotone_witness:
  "classify_score (Fin 2) \<le> classify_score (Fin 5)"
  using classification_monotone [of "Fin 2" "Fin 5"] by simp

text \<open>Recording moves with non-negative losses keeps the books: after any sequence of moves the two
  breakdowns each add up to the number of moves, the mean losses are non-negative, and the accuracy
  is a number in [0, 100] for every game of at most 167772 moves by the player.\<close>

lemma player_report_books:
  assumes "exp_total expf" and "\<forall>(wl, sl, _) \<in> set ms. fle (Fin 0) wl \<and> fle (Fin 0) sl"
  shows "pr_moves (accum_finish (record_all expf ms) n) = length ms \<and>
    report_inv (accum_finish (record_all expf ms) n)"
  using accum_finish_inv [OF record_all_inv [OF assms]] by simp

lemma player_report_books_witness:
  "pr_moves (accum_finish (record_all (\<lambda>_. Fin 1) [(Fin 0, Fin 2, Good, Inaccuracy)]) 19) = 1 \<and>
   report_inv (accum_finish (record_all (\<lambda>_. Fin 1) [(Fin 0, Fin 2, Good, Inaccuracy)]) 19)"
  using player_report_books [of "\<lambda>_. Fin 1" "[(Fin 0, Fin 2, Good, Inaccuracy)]" 19]
  by (simp add: exp_total_def)

end
