(* ===== verification/Annotate.thy ===== *)
theory Annotate
  imports Annotate_Report
begin

text \<open>
  From KataGo's per-turn results to the payload (\<open>src/src/engine/annotate.rs\<close>): which turns a
  screening pass refines, the per-turn grids, the played moves' priors and \<open>assemble\<close>.  Log output
  is left out.  A \<open>HashMap\<close> filled from a list is the map whose later entries win; a \<open>BTreeSet\<close> is
  the sorted list of its elements.
\<close>

section \<open>Model\<close>

definition by_turn_map :: "turn_response list \<Rightarrow> nat \<Rightarrow> turn_response option" where
  "by_turn_map turns = map_of (rev (map (\<lambda>t. (turn_number t, t)) turns))"

definition root_map :: "turn_response list \<Rightarrow> nat \<Rightarrow> root_info option" where
  "root_map turns = map_of (rev (List.map_filter
     (\<lambda>t. map_option (Pair (turn_number t)) (tr_root_info t)) turns))"

definition side_to_move_at :: "parsed_game \<Rightarrow> nat \<Rightarrow> color" where
  "side_to_move_at game turn =
     (case get_at (game_moves game) turn of
        Some (c, _) \<Rightarrow> c
      | None \<Rightarrow> if game_moves game = [] then Black else other (fst (last (game_moves game))))"

definition move_evals :: "color \<Rightarrow> root_info option \<Rightarrow> root_info option \<Rightarrow> eval option \<times> eval option" where
  "move_evals c before after =
     (map_option (\<lambda>r. root_as_seen_by r c c) before,
      map_option (\<lambda>r. root_as_seen_by r c (other c)) after)"

definition swings :: "engine_config \<Rightarrow> eval option \<times> eval option \<Rightarrow> bool" where
  "swings cfg evals =
     (case evals of
        (Some before, Some after) \<Rightarrow>
          fle (refine_winrate_delta cfg) (fabs (fsub f32 (ev_winrate before) (ev_winrate after))) \<or>
          fle (refine_score_delta cfg) (fabs (fsub f32 (ev_score_lead before) (ev_score_lead after)))
      | _ \<Rightarrow> True)"

definition turns_to_refine :: "parsed_game \<Rightarrow> turn_response list \<Rightarrow> engine_config \<Rightarrow> nat list" where
  "turns_to_refine game screened cfg =
     (let roots = root_map screened in
      foldl (\<lambda>refine (index, (c, _)).
          if swings cfg (move_evals c (roots index) (roots (index + 1)))
          then insort_insert (index + 1) (insort_insert index refine)
          else refine) [] (List.enumerate 0 (game_moves game)))"

text \<open>How many turns disagree with the move list; the code warns when it is not zero.\<close>

definition mismatched_turns :: "parsed_game \<Rightarrow> (nat \<Rightarrow> turn_response option) \<Rightarrow> nat" where
  "mismatched_turns game by_turn =
     length (filter (\<lambda>turn.
       (case Option.bind (Option.bind (by_turn turn) tr_root_info) ri_current_player of
          None \<Rightarrow> False
        | Some reported \<Rightarrow> reported \<noteq> side_to_move_at game turn)) [0..<Suc (length (game_moves game))])"

definition per_turn_grid ::
  "parsed_game \<Rightarrow> (nat \<Rightarrow> turn_response option) \<Rightarrow> (turn_response \<Rightarrow> fl list option) \<Rightarrow> nat
     \<Rightarrow> (nat \<Rightarrow> fl \<Rightarrow> int) \<Rightarrow> int list list" where
  "per_turn_grid game by_turn field trailing encode =
     (let points = board_size game * board_size game;
          expected = points + trailing
      in case those (map (\<lambda>turn.
             (case Option.bind (by_turn turn) field of
                None \<Rightarrow> None
              | Some raw \<Rightarrow>
                  if length raw \<noteq> expected then None
                  else Some (map (encode turn) (take points raw))))
           [0..<Suc (length (game_moves game))]) of
           None \<Rightarrow> []
         | Some per_turn \<Rightarrow> per_turn)"

definition encode_ownership :: "parsed_game \<Rightarrow> nat \<Rightarrow> fl \<Rightarrow> int" where
  "encode_ownership game turn cell =
     (let signed = (if reporter REPORT_PERSPECTIVE None (side_to_move_at game turn) = Black
                    then cell else fneg cell)
      in fcast (- 128) 127 (fclamp (fround (fmul f32 signed (Fin 100))) (Fin (- 100)) (Fin 100)))"

definition normalise_ownership :: "parsed_game \<Rightarrow> (nat \<Rightarrow> turn_response option) \<Rightarrow> int list list" where
  "normalise_ownership game by_turn =
     per_turn_grid game by_turn tr_ownership 0 (encode_ownership game)"

definition encode_stdev :: "nat \<Rightarrow> fl \<Rightarrow> int" where
  "encode_stdev turn stdev = fcast 0 255 (fclamp (fround (fmul f32 stdev (Fin 100))) (Fin 0) (Fin 100))"

definition ownership_stdev_grid :: "parsed_game \<Rightarrow> (nat \<Rightarrow> turn_response option) \<Rightarrow> int list list" where
  "ownership_stdev_grid game by_turn =
     per_turn_grid game by_turn tr_ownership_stdev 0 encode_stdev"

definition encode_policy :: "fl \<Rightarrow> int" where
  "encode_policy prob =
     (if fle prob (Fin 0) then 0
      else fcast 0 255 (fclamp (fround (fmul f32 (Fin 255) (fsqrt f32 prob))) (Fin 0) (Fin 255)))"

definition policy_grid ::
  "parsed_game \<Rightarrow> (nat \<Rightarrow> turn_response option) \<Rightarrow> (turn_response \<Rightarrow> fl list option) \<Rightarrow> int list list" where
  "policy_grid game by_turn field = per_turn_grid game by_turn field 1 (\<lambda>_. encode_policy)"

definition policy_at :: "fl list option \<Rightarrow> string \<Rightarrow> nat \<Rightarrow> fl option" where
  "policy_at policy mv bsize =
     (let expected = bsize * bsize + 1 in
      Option.bind (opt_filter (\<lambda>p. length p = expected) policy) (\<lambda>p.
      map_option (\<lambda>prob. fmax prob (Fin 0))
        (Option.bind (policy_index mv bsize) (get_at p))))"

definition net_name :: "string \<Rightarrow> string" where
  "net_name model =
     (let file = rev (takeWhile (\<lambda>c. c \<noteq> CHR ''/'' \<and> c \<noteq> CHR 0x5C) (rev model))
      in opt_else file (find_map (\<lambda>ext. strip_suffix ext file)
           [''.bpk'', ''.bin.gz'', ''.txt.gz'', ''.onnx'']))"

record candidate =
  ca_mv :: string
  ca_winrate :: fl
  ca_score_lead :: fl
  ca_prior :: fl
  ca_human_prior :: "fl option"
  ca_visits :: nat
  ca_pv :: "string list"

record move_annotation =
  ma_move_number :: nat
  ma_color :: color
  ma_mv :: string
  ma_winrate :: fl
  ma_best_winrate :: fl
  ma_winrate_loss :: fl
  ma_winrate_classification :: classification
  ma_score_lead :: fl
  ma_score_loss :: fl
  ma_score_classification :: classification
  ma_prior :: "fl option"
  ma_human_prior :: "fl option"
  ma_top_moves :: "candidate list"

record game_report =
  gr_num_moves :: nat
  gr_black :: player_report
  gr_white :: player_report

record engine_info =
  ei_name :: string
  ei_version :: "string option"
  ei_model :: string
  ei_max_visits :: nat
  ei_top_k :: nat
  ei_report_perspective :: string
  ei_ownership :: bool
  ei_ownership_stdev :: bool
  ei_policy :: bool
  ei_human_model :: "string option"
  ei_screen_visits :: "nat option"

record game_analysis =
  ga_board_size :: nat
  ga_komi :: fl
  ga_rules :: rules
  ga_result :: "string option"
  ga_moves :: "move_annotation list"
  ga_report :: game_report
  ga_payload_version :: nat
  ga_engine :: engine_info
  ga_ownership :: "int list list"
  ga_ownership_stdev :: "int list list"
  ga_policy :: "int list list"
  ga_human_policy :: "int list list"
  ga_human_profile :: "string option"

definition to_candidate :: "color \<Rightarrow> move_info \<Rightarrow> candidate" where
  "to_candidate c info =
     (let e = move_as_seen_by info c c in
      \<lparr>ca_mv = mi_mv info, ca_winrate = ev_winrate e, ca_score_lead = ev_score_lead e,
       ca_prior = mi_prior info, ca_human_prior = mi_human_prior info,
       ca_visits = mi_visits info, ca_pv = mi_pv info\<rparr>)"

text \<open>The body of the move loop, up to the annotation it pushes.\<close>

definition annotate_move ::
  "parsed_game \<Rightarrow> (nat \<Rightarrow> turn_response option) \<Rightarrow> engine_config \<Rightarrow> nat \<Rightarrow> colored_move
     \<Rightarrow> move_annotation" where
  "annotate_move game by_turn cfg index cm =
     (let (c, mv) = cm;
          (before, after) = move_evals c (Option.bind (by_turn index) tr_root_info)
                              (Option.bind (by_turn (index + 1)) tr_root_info);
          best_winrate = opt_else (lit f32 (1 / 2)) (map_option ev_winrate before);
          winrate = opt_else best_winrate (map_option ev_winrate after);
          winrate_loss = fmax (fsub f32 best_winrate winrate) (Fin 0);
          best_score = opt_else (Fin 0) (map_option ev_score_lead before);
          resulting_score = opt_else best_score (map_option ev_score_lead after);
          score_loss = fmax (fsub f32 best_score resulting_score) (Fin 0);
          turn = by_turn index;
          top_moves = (case turn of
              None \<Rightarrow> []
            | Some t \<Rightarrow> map (to_candidate c) (take (top_k cfg) (sort_key mi_order (tr_move_infos t))));
          played = find (\<lambda>ca. ca_mv ca = mv) top_moves;
          prior = opt_or (policy_at (Option.bind turn tr_policy) mv (board_size game))
                    (map_option ca_prior played);
          human_prior = opt_or (policy_at (Option.bind turn tr_human_policy) mv (board_size game))
                          (Option.bind played ca_human_prior)
      in \<lparr>ma_move_number = index + 1, ma_color = c, ma_mv = mv, ma_winrate = winrate,
          ma_best_winrate = best_winrate, ma_winrate_loss = winrate_loss,
          ma_winrate_classification = classify_winrate winrate_loss,
          ma_score_lead = best_score, ma_score_loss = score_loss,
          ma_score_classification = classify_score score_loss,
          ma_prior = prior, ma_human_prior = human_prior, ma_top_moves = top_moves\<rparr>)"

record walk_state =
  ws_moves :: "move_annotation list"
  ws_black :: player_accum
  ws_white :: player_accum

definition accum_move :: "(fl \<Rightarrow> fl) \<Rightarrow> player_accum \<Rightarrow> move_annotation \<Rightarrow> player_accum" where
  "accum_move expf a m = accum_record expf a (ma_winrate_loss m) (ma_score_loss m)
     (ma_winrate_classification m) (ma_score_classification m)"

definition walk_move ::
  "(fl \<Rightarrow> fl) \<Rightarrow> parsed_game \<Rightarrow> (nat \<Rightarrow> turn_response option) \<Rightarrow> engine_config \<Rightarrow> walk_state
     \<Rightarrow> nat \<times> colored_move \<Rightarrow> walk_state" where
  "walk_move expf game by_turn cfg w im =
     (let m = annotate_move game by_turn cfg (fst im) (snd im);
          w' = (case ma_color m of
                  Black \<Rightarrow> w\<lparr>ws_black := accum_move expf (ws_black w) m\<rparr>
                | White \<Rightarrow> w\<lparr>ws_white := accum_move expf (ws_white w) m\<rparr>)
      in w'\<lparr>ws_moves := ws_moves w' @ [m]\<rparr>)"

definition walk_moves ::
  "(fl \<Rightarrow> fl) \<Rightarrow> parsed_game \<Rightarrow> (nat \<Rightarrow> turn_response option) \<Rightarrow> engine_config \<Rightarrow> walk_state" where
  "walk_moves expf game by_turn cfg =
     foldl (walk_move expf game by_turn cfg)
       \<lparr>ws_moves = [], ws_black = player_accum0, ws_white = player_accum0\<rparr>
       (List.enumerate 0 (game_moves game))"

definition assemble ::
  "(fl \<Rightarrow> fl) \<Rightarrow> parsed_game \<Rightarrow> turn_response list \<Rightarrow> engine_config \<Rightarrow> string option \<Rightarrow> game_analysis" where
  "assemble expf game turns cfg human_profile =
     (let by_turn = by_turn_map turns;
          w = walk_moves expf game by_turn cfg;
          ownership = normalise_ownership game by_turn;
          ownership_stdev = ownership_stdev_grid game by_turn;
          policy = policy_grid game by_turn tr_policy;
          human_policy = policy_grid game by_turn tr_human_policy;
          profile = opt_filter (\<lambda>_. human_policy \<noteq> []) human_profile
      in \<lparr>ga_board_size = board_size game, ga_komi = komi game, ga_rules = rules_of game,
          ga_result = result_text game, ga_moves = ws_moves w,
          ga_report = \<lparr>gr_num_moves = length (game_moves game),
                       gr_black = accum_finish (ws_black w) (board_size game),
                       gr_white = accum_finish (ws_white w) (board_size game)\<rparr>,
          ga_payload_version = PAYLOAD_VERSION,
          ga_engine = \<lparr>ei_name = engine_name (engine_backend cfg), ei_version = None,
             ei_model = net_name (model_path cfg), ei_max_visits = max_visits cfg,
             ei_top_k = top_k cfg,
             ei_report_perspective = as_katago_setting REPORT_PERSPECTIVE,
             ei_ownership = (ownership \<noteq> []), ei_ownership_stdev = (ownership_stdev \<noteq> []),
             ei_policy = (policy \<noteq> []),
             ei_human_model = map_option (\<lambda>_. net_name (human_model cfg)) profile,
             ei_screen_visits = (if two_pass cfg then Some (screen_visits cfg) else None)\<rparr>,
          ga_ownership = ownership, ga_ownership_stdev = ownership_stdev, ga_policy = policy,
          ga_human_policy = human_policy, ga_human_profile = profile\<rparr>)"

section \<open>Refinement\<close>

definition move_swings :: "parsed_game \<Rightarrow> turn_response list \<Rightarrow> engine_config \<Rightarrow> nat \<Rightarrow> bool" where
  "move_swings game screened cfg i =
     swings cfg (move_evals (fst (game_moves game ! i)) (root_map screened i) (root_map screened (i + 1)))"

lemma refine_fold:
  "sorted acc \<and> distinct acc \<Longrightarrow>
     (let r = foldl (\<lambda>refine (index, (c, _)).
          if sw index c then insort_insert (index + 1) (insort_insert index refine) else refine)
          acc (List.enumerate k ms)
      in sorted r \<and> distinct r \<and>
         set r = set acc \<union> (\<Union>i \<in> {i. i < length ms \<and> sw (k + i) (fst (ms ! i))}. {k + i, k + i + 1}))"
proof (induction ms arbitrary: acc k)
  case Nil
  then show ?case by simp
next
  case (Cons m ms)
  define acc' where "acc' = (if sw k (fst m) then insort_insert (k + 1) (insort_insert k acc) else acc)"
  have acc': "sorted acc' \<and> distinct acc'"
    using Cons.prems by (simp add: acc'_def sorted_insort_insert distinct_insort_insert)
  have set': "set acc' = set acc \<union> (if sw k (fst m) then {k, k + 1} else {})"
    by (auto simp: acc'_def set_insort_insert)
  have idx: "{i. i < length (m # ms) \<and> sw (k + i) (fst ((m # ms) ! i))} =
      (if sw k (fst m) then {0} else {}) \<union> Suc ` {i. i < length ms \<and> sw (Suc k + i) (fst (ms ! i))}"
  proof (rule set_eqI)
    fix i
    show "i \<in> {i. i < length (m # ms) \<and> sw (k + i) (fst ((m # ms) ! i))} \<longleftrightarrow>
      i \<in> (if sw k (fst m) then {0} else {}) \<union> Suc ` {i. i < length ms \<and> sw (Suc k + i) (fst (ms ! i))}"
      by (cases i) auto
  qed
  show ?case
    using Cons.IH [OF acc', of "Suc k"] set'
    unfolding idx by (cases m) (auto simp: Let_def acc'_def)
qed

lemma turns_to_refine_aux:
  "sorted (turns_to_refine game screened cfg) \<and> distinct (turns_to_refine game screened cfg) \<and>
   set (turns_to_refine game screened cfg) =
     (\<Union>i \<in> {i. i < length (game_moves game) \<and> move_swings game screened cfg i}. {i, i + 1})"
  using refine_fold [of "[]" "\<lambda>i c. swings cfg (move_evals c (root_map screened i) (root_map screened (i + 1)))"
      0 "game_moves game"]
  by (simp add: turns_to_refine_def Let_def move_swings_def)

section \<open>Grids\<close>

definition sized_turn ::
  "parsed_game \<Rightarrow> (nat \<Rightarrow> turn_response option) \<Rightarrow> (turn_response \<Rightarrow> fl list option) \<Rightarrow> nat \<Rightarrow> nat \<Rightarrow> bool" where
  "sized_turn game by_turn field trailing turn =
     (case Option.bind (by_turn turn) field of
        None \<Rightarrow> False
      | Some raw \<Rightarrow> length raw = board_size game * board_size game + trailing)"

definition grid_complete ::
  "parsed_game \<Rightarrow> (nat \<Rightarrow> turn_response option) \<Rightarrow> (turn_response \<Rightarrow> fl list option) \<Rightarrow> nat \<Rightarrow> bool" where
  "grid_complete game by_turn field trailing =
     list_all (sized_turn game by_turn field trailing) [0..<Suc (length (game_moves game))]"

definition grid_row ::
  "parsed_game \<Rightarrow> (nat \<Rightarrow> turn_response option) \<Rightarrow> (turn_response \<Rightarrow> fl list option)
     \<Rightarrow> (nat \<Rightarrow> fl \<Rightarrow> int) \<Rightarrow> nat \<Rightarrow> int list" where
  "grid_row game by_turn field encode turn =
     (case Option.bind (by_turn turn) field of
        None \<Rightarrow> [] | Some raw \<Rightarrow> map (encode turn) (take (board_size game * board_size game) raw))"

lemma per_turn_grid_eq:
  "per_turn_grid game by_turn field trailing encode =
     (if grid_complete game by_turn field trailing
      then map (grid_row game by_turn field encode) [0..<Suc (length (game_moves game))] else [])"
proof -
  define row where "row = (\<lambda>turn. case Option.bind (by_turn turn) field of
      None \<Rightarrow> None
    | Some raw \<Rightarrow> if length raw \<noteq> board_size game * board_size game + trailing then None
                  else Some (map (encode turn) (take (board_size game * board_size game) raw)))"
  have row: "row t = (if sized_turn game by_turn field trailing t
      then Some (grid_row game by_turn field encode t) else None)" for t
    by (auto simp: row_def sized_turn_def grid_row_def split: option.splits)
  have "those (map row ts) = (if list_all (sized_turn game by_turn field trailing) ts
      then Some (map (grid_row game by_turn field encode) ts) else None)" for ts
    by (induction ts) (simp_all add: row)
  then show ?thesis
    unfolding per_turn_grid_def Let_def row_def [symmetric] grid_complete_def
    by (simp del: upt_Suc)
qed

lemma grid_row_length:
  "sized_turn game by_turn field trailing t \<Longrightarrow>
     length (grid_row game by_turn field encode t) = board_size game * board_size game"
  by (auto simp: sized_turn_def grid_row_def split: option.splits)

text \<open>An encoding into a range of integers, whatever it reads: every grid it fills stays in range.\<close>

locale grid_encoding =
  fixes encode :: "nat \<Rightarrow> fl \<Rightarrow> int" and lo hi :: int
  assumes in_range: "lo \<le> encode turn v \<and> encode turn v \<le> hi"
begin

definition grid_ok :: "parsed_game \<Rightarrow> int list list \<Rightarrow> bool" where
  "grid_ok game grid =
     (grid = [] \<or> length grid = Suc (length (game_moves game)) \<and>
        (\<forall>row \<in> set grid. length row = board_size game * board_size game \<and>
           (\<forall>v \<in> set row. lo \<le> v \<and> v \<le> hi)))"

lemma per_turn_grid_ok: "grid_ok game (per_turn_grid game by_turn field trailing encode)"
proof -
  have "\<forall>v \<in> set (grid_row game by_turn field encode t). lo \<le> v \<and> v \<le> hi" for t
    using in_range by (auto simp: grid_row_def split: option.splits)
  then show ?thesis
    using grid_row_length [of game by_turn field trailing _ encode]
    by (auto simp: grid_ok_def per_turn_grid_eq grid_complete_def list_all_iff)
qed

end

lemma trunc_rat_range:
  assumes "of_int lo \<le> x" and "x \<le> of_int hi" and "lo \<le> 0" and "0 \<le> hi"
  shows "lo \<le> trunc_rat x \<and> trunc_rat x \<le> hi"
  using assms by (auto simp: trunc_rat_def floor_le_iff le_floor_iff) linarith+

lemma fcast_fclamp_range:
  assumes "lo \<le> 0" and "0 \<le> hi" and "a \<le> lo" and "hi \<le> b"
  shows "lo \<le> fcast a b (fclamp x (Fin (of_int lo)) (Fin (of_int hi))) \<and>
    fcast a b (fclamp x (Fin (of_int lo)) (Fin (of_int hi))) \<le> hi"
proof (cases "x = NaN")
  case True
  then show ?thesis using assms by (simp add: fclamp_NaN)
next
  case False
  define y where "y = fclamp x (Fin (of_int lo)) (Fin (of_int hi))"
  have "fle (Fin (of_int lo)) y \<and> fle y (Fin (of_int hi))"
    unfolding y_def using False assms by (intro fclamp_range) simp_all
  then obtain r where "y = Fin r" "of_int lo \<le> r" "r \<le> of_int hi" by (cases y) auto
  then show ?thesis
    using trunc_rat_range [of lo r hi] assms unfolding y_def [symmetric] by simp
qed

interpretation ownership_cells: grid_encoding "encode_ownership game" "- 100" 100 for game
proof
  fix turn v
  show "- 100 \<le> encode_ownership game turn v \<and> encode_ownership game turn v \<le> 100"
    using fcast_fclamp_range [of "- 100" 100 "- 128" 127] by (simp add: encode_ownership_def Let_def)
qed

interpretation stdev_cells: grid_encoding encode_stdev 0 100
proof
  fix turn v
  show "0 \<le> encode_stdev turn v \<and> encode_stdev turn v \<le> 100"
    using fcast_fclamp_range [of 0 100 0 255] by (simp add: encode_stdev_def)
qed

interpretation policy_cells: grid_encoding "\<lambda>_. encode_policy" 0 255
proof
  fix turn :: nat and v
  show "0 \<le> encode_policy v \<and> encode_policy v \<le> 255"
    using fcast_fclamp_range [of 0 255 0 255] by (simp add: encode_policy_def)
qed

section \<open>The move walk\<close>

definition annotations ::
  "parsed_game \<Rightarrow> (nat \<Rightarrow> turn_response option) \<Rightarrow> engine_config \<Rightarrow> move_annotation list" where
  "annotations game by_turn cfg =
     map (\<lambda>(i, cm). annotate_move game by_turn cfg i cm) (List.enumerate 0 (game_moves game))"

definition of_color :: "color \<Rightarrow> move_annotation \<Rightarrow> bool" where
  "of_color c m = (ma_color m = c)"

lemma walk_move_step:
  "walk_move expf game by_turn cfg w (i, cm) =
     (let m = annotate_move game by_turn cfg i cm in
      \<lparr>ws_moves = ws_moves w @ [m],
       ws_black = (if of_color Black m then accum_move expf (ws_black w) m else ws_black w),
       ws_white = (if of_color White m then accum_move expf (ws_white w) m else ws_white w)\<rparr>)"
  by (cases "ma_color (annotate_move game by_turn cfg i cm)")
    (simp_all add: walk_move_def Let_def of_color_def)

lemma foldl_walk_move:
  "foldl (walk_move expf game by_turn cfg) w ims =
     (let ms = map (\<lambda>(i, cm). annotate_move game by_turn cfg i cm) ims in
      \<lparr>ws_moves = ws_moves w @ ms,
       ws_black = foldl (accum_move expf) (ws_black w) (filter (of_color Black) ms),
       ws_white = foldl (accum_move expf) (ws_white w) (filter (of_color White) ms)\<rparr>)"
proof (induction ims rule: rev_induct)
  case Nil
  then show ?case by simp
next
  case (snoc im ims)
  obtain i cm where im: "im = (i, cm)" by (cases im)
  show ?case by (simp add: snoc im walk_move_step Let_def)
qed

lemma walk_moves_eq:
  "ws_moves (walk_moves expf game by_turn cfg) = annotations game by_turn cfg"
  "ws_black (walk_moves expf game by_turn cfg) =
     foldl (accum_move expf) player_accum0 (filter (of_color Black) (annotations game by_turn cfg))"
  "ws_white (walk_moves expf game by_turn cfg) =
     foldl (accum_move expf) player_accum0 (filter (of_color White) (annotations game by_turn cfg))"
  by (simp_all add: walk_moves_def foldl_walk_move annotations_def Let_def)

lemma annotations_length [simp]: "length (annotations game by_turn cfg) = length (game_moves game)"
  by (simp add: annotations_def)

lemma annotations_nth:
  "i < length (game_moves game) \<Longrightarrow>
     annotations game by_turn cfg ! i = annotate_move game by_turn cfg i (game_moves game ! i)"
  by (simp add: annotations_def nth_enumerate_eq)

lemma annotate_move_fields:
  "ma_color (annotate_move game by_turn cfg i cm) = fst cm"
  "ma_mv (annotate_move game by_turn cfg i cm) = snd cm"
  "ma_move_number (annotate_move game by_turn cfg i cm) = i + 1"
  by (simp_all add: annotate_move_def Let_def case_prod_beta)

lemma annotate_move_losses:
  "fle (Fin 0) (ma_winrate_loss (annotate_move game by_turn cfg i cm))"
  "fle (Fin 0) (ma_score_loss (annotate_move game by_turn cfg i cm))"
  by (simp_all add: annotate_move_def Let_def case_prod_beta fmax_zero_nonneg)

lemma annotate_move_loss_eq:
  "ma_winrate_loss (annotate_move game by_turn cfg i cm) =
     fmax (fsub f32 (ma_best_winrate (annotate_move game by_turn cfg i cm))
                    (ma_winrate (annotate_move game by_turn cfg i cm))) (Fin 0)"
  by (simp add: annotate_move_def Let_def case_prod_beta)

lemma foldl_accum_move:
  "foldl (accum_move expf) player_accum0 ms =
     record_all expf (map (\<lambda>m. (ma_winrate_loss m, ma_score_loss m, ma_winrate_classification m,
                               ma_score_classification m)) ms)"
  by (induction ms rule: rev_induct) (simp_all add: record_all_def accum_move_def)

lemma colored_accum_inv:
  assumes "exp_total expf"
  shows "accum_inv (foldl (accum_move expf) player_accum0 (filter (of_color c) (annotations game by_turn cfg)))"
  unfolding foldl_accum_move
  by (rule record_all_inv [OF assms]) (auto simp: annotations_def annotate_move_losses)

lemma colored_accum_moves:
  "pa_moves (foldl (accum_move expf) player_accum0 (filter (of_color c) (annotations game by_turn cfg))) =
     length (filter (\<lambda>m. fst m = c) (game_moves game))"
proof -
  have "length (filter (of_color c) (map (\<lambda>(i, cm). annotate_move game by_turn cfg i cm) (List.enumerate k ms))) =
      length (filter (\<lambda>m. fst m = c) ms)" for k and ms :: "colored_move list"
    by (induction ms arbitrary: k) (simp_all add: of_color_def annotate_move_fields)
  then show ?thesis by (simp add: foldl_accum_move annotations_def)
qed

lemma color_counts:
  "length (filter (\<lambda>m. fst m = Black) ms) + length (filter (\<lambda>m. fst m = White) ms) = length ms"
  for ms :: "colored_move list"
proof (induction ms)
  case (Cons m ms)
  then show ?case by (cases "fst m") simp_all
qed simp

section \<open>Properties\<close>


text \<open>C15. Every grid of the payload is all or nothing: non-empty exactly when each turn 0..n carries an
  array of the board's size (plus the pass, for a policy), and then it has one row per turn, one
  cell per point, and cells in the documented range.\<close>

theorem assemble_grids:
  "ownership_cells.grid_ok game (ga_ownership (assemble expf game turns cfg hp)) \<and>
   stdev_cells.grid_ok game (ga_ownership_stdev (assemble expf game turns cfg hp)) \<and>
   policy_cells.grid_ok game (ga_policy (assemble expf game turns cfg hp)) \<and>
   policy_cells.grid_ok game (ga_human_policy (assemble expf game turns cfg hp)) \<and>
   (ga_ownership (assemble expf game turns cfg hp) \<noteq> []
      \<longleftrightarrow> grid_complete game (by_turn_map turns) tr_ownership 0) \<and>
   (ga_policy (assemble expf game turns cfg hp) \<noteq> []
      \<longleftrightarrow> grid_complete game (by_turn_map turns) tr_policy 1) \<and>
   (ga_human_profile (assemble expf game turns cfg hp) \<noteq> None
      \<longleftrightarrow> hp \<noteq> None \<and> grid_complete game (by_turn_map turns) tr_human_policy 1)"
proof -
  have empty: "per_turn_grid game bt field k enc \<noteq> [] \<longleftrightarrow> grid_complete game bt field k" for bt field k enc
    by (simp add: per_turn_grid_eq)
  show ?thesis
    using ownership_cells.per_turn_grid_ok stdev_cells.per_turn_grid_ok policy_cells.per_turn_grid_ok
    by (cases hp)
      (simp_all add: assemble_def Let_def normalise_ownership_def ownership_stdev_grid_def
        policy_grid_def empty)
qed

lemma assemble_moves:
  "map (\<lambda>m. (ma_color m, ma_mv m)) (ga_moves (assemble expf game turns cfg hp)) = game_moves game"
proof -
  have "map (\<lambda>m. (ma_color m, ma_mv m)) (annotations game bt cfg) = game_moves game" for bt
    by (rule nth_equalityI) (simp_all add: annotations_nth annotate_move_fields)
  then show ?thesis by (simp add: assemble_def Let_def walk_moves_eq)
qed

text \<open>C10. The payload annotates every move of the game, in order and in its own colour, with
  non-negative losses; each player's report counts exactly their moves, and keeps its books.\<close>

theorem assemble_moves_and_report:
  assumes "exp_total expf"
  shows "map (\<lambda>m. (ma_color m, ma_mv m)) (ga_moves (assemble expf game turns cfg hp)) = game_moves game \<and>
    (\<forall>m \<in> set (ga_moves (assemble expf game turns cfg hp)).
       fle (Fin 0) (ma_winrate_loss m) \<and> fle (Fin 0) (ma_score_loss m)) \<and>
    (let r = ga_report (assemble expf game turns cfg hp) in
       pr_moves (gr_black r) = length (filter (\<lambda>m. fst m = Black) (game_moves game)) \<and>
       pr_moves (gr_white r) = length (filter (\<lambda>m. fst m = White) (game_moves game)) \<and>
       pr_moves (gr_black r) + pr_moves (gr_white r) = gr_num_moves r \<and>
       report_inv (gr_black r) \<and> report_inv (gr_white r))"
proof -
  have "fle (Fin 0) (ma_winrate_loss m) \<and> fle (Fin 0) (ma_score_loss m)"
    if "m \<in> set (annotations game bt cfg)" for m bt
    using that by (auto simp: annotations_def annotate_move_losses)
  then show ?thesis
    using color_counts [of "game_moves game"] assemble_moves [of expf game turns cfg hp]
    by (simp add: assemble_def Let_def walk_moves_eq colored_accum_moves accum_finish_inv
        colored_accum_inv [OF assms])
qed

definition sample_turn :: "nat \<Rightarrow> color \<Rightarrow> rat \<Rightarrow> rat \<Rightarrow> turn_response" where
  "sample_turn t c w s =
     \<lparr>turn_number = t,
      tr_root_info = Some \<lparr>ri_winrate = Fin w, ri_score_lead = Fin s, ri_current_player = Some c\<rparr>,
      tr_move_infos = [], tr_ownership = None, tr_ownership_stdev = None, tr_policy = None,
      tr_human_policy = None\<rparr>"

theorem assemble_moves_and_report_witness:
  "map (\<lambda>m. (ma_color m, ma_mv m))
     (ga_moves (assemble (\<lambda>_. Fin 1) sample_game [] (default_engine_config None) None)) =
   game_moves sample_game"
  using assemble_moves_and_report [of "\<lambda>_. Fin 1" sample_game "[]" "default_engine_config None" None]
  by (simp add: exp_total_def)

text \<open>The score lead of a position for a player, from Black's.\<close>

definition lead_for :: "color \<Rightarrow> fl \<Rightarrow> fl" where
  "lead_for c black_lead = (if c = Black then black_lead else fneg black_lead)"

text \<open>C7. A move's score loss is the mover's lead before minus the mover's lead after, clamped at
  zero, whoever the engine says is to move at either turn, as long as it states each lead for that
  player: the frames the readings came in cannot leak into the loss.\<close>

theorem score_loss_frame_free:
  assumes "by_turn i = Some t0" and "tr_root_info t0 = Some r0"
    and "ri_current_player r0 = Some p0" and "ri_score_lead r0 = lead_for p0 before"
    and "by_turn (i + 1) = Some t1" and "tr_root_info t1 = Some r1"
    and "ri_current_player r1 = Some p1" and "ri_score_lead r1 = lead_for p1 after"
  shows "ma_score_loss (annotate_move game by_turn cfg i (c, mv)) =
      fmax (fsub f32 (lead_for c before) (lead_for c after)) (Fin 0) \<and>
    ma_score_lead (annotate_move game by_turn cfg i (c, mv)) = lead_for c before"
proof -
  have "ev_score_lead (root_as_seen_by r c s) = lead_for c x"
    if "ri_current_player r = Some p" "ri_score_lead r = lead_for p x" for r p s x
    using that by (cases p; cases c)
      (simp_all add: root_as_seen_by_def Let_def REPORT_PERSPECTIVE_def lead_for_def flipped_def)
  then show ?thesis
    using assms by (simp add: annotate_move_def Let_def move_evals_def)
qed

theorem score_loss_frame_free_witness:
  "ma_score_loss (annotate_move sample_game
      (by_turn_map [sample_turn 0 White (1 / 2) 3, sample_turn 1 Black (1 / 2) (- 1)])
      (default_engine_config None) 0 (White, ''E5'')) =
   fmax (fsub f32 (lead_for White (Fin (- 3))) (lead_for White (Fin (- 1)))) (Fin 0)"
proof -
  have "by_turn_map [sample_turn 0 White (1 / 2) 3, sample_turn 1 Black (1 / 2) (- 1)] 0 =
      Some (sample_turn 0 White (1 / 2) 3)"
    "by_turn_map [sample_turn 0 White (1 / 2) 3, sample_turn 1 Black (1 / 2) (- 1)] (0 + 1) =
      Some (sample_turn 1 Black (1 / 2) (- 1))"
    by (simp_all add: by_turn_map_def sample_turn_def)
  from score_loss_frame_free [OF this(1) _ _ _ this(2), of _ White "Fin (- 3)" _ Black "Fin (- 1)"]
  show ?thesis by (simp add: sample_turn_def lead_for_def)
qed

text \<open>When a turn carries the full policy array, the played move's prior is the array's own entry
  for that move (an illegal move's \<open>-1\<close> read as 0), for every move the parser can emit.\<close>

lemma played_prior_exact:
  assumes "replayable game" and "i < length (game_moves game)"
    and "by_turn i = Some t" and "tr_policy t = Some p"
    and "length p = board_size game * board_size game + 1"
  shows "\<exists>k < length p. policy_index (snd (game_moves game ! i)) (board_size game) = Some k \<and>
    ma_prior (annotate_move game by_turn cfg i (game_moves game ! i)) = Some (fmax (p ! k) (Fin 0))"
proof -
  have "valid_move (board_size game) (game_moves game ! i)"
    using assms(1,2) by (simp add: replayable_def list_all_iff)
  then obtain k where k: "policy_index (snd (game_moves game ! i)) (board_size game) = Some k"
    by (auto simp: valid_move_def valid_stone_def split: option.splits)
  then have "k < length p" using policy_index_bound [OF k] assms(5) by simp
  then show ?thesis
    using k assms by (simp add: annotate_move_def Let_def case_prod_beta policy_at_def get_at_def)
qed

theorem played_prior_exact_witness:
  "\<exists>k < 82. policy_index ''E5'' 9 = Some k \<and>
     ma_prior (annotate_move sample_game
       (\<lambda>_. Some ((sample_turn 0 White 0 0)\<lparr>tr_policy := Some (replicate 82 (Fin (1 / 2)))\<rparr>))
       (default_engine_config None) 0 (White, ''E5'')) = Some (fmax (replicate 82 (Fin (1 / 2)) ! k) (Fin 0))"
  using played_prior_exact [OF sgf_parse_replayable_aux [OF sample_parses], of 0
      "\<lambda>_. Some ((sample_turn 0 White 0 0)\<lparr>tr_policy := Some (replicate 82 (Fin (1 / 2)))\<rparr>)"]
  by (simp add: sample_game_def)

end
