(* ===== verification/Engine.thy ===== *)
theory Engine
  imports Annotate
begin

text \<open>
  The analysis engine (\<open>src/src/engine/mod.rs\<close>): parse, one pass or two over the turns, assemble.
  \<open>ask\<close> stands for the owner task of the subprocess (its own model is in \<open>Katago_Owner\<close>): what
  became of a query.  What the engine did is kept in a trace: the queries it sent and the
  positions it counted.
\<close>

section \<open>Model\<close>

datatype pass_kind = Full_Pass | Screen_Pass | Refine_Pass

fun pass_str :: "pass_kind \<Rightarrow> string" where
  "pass_str Full_Pass = ''full''"
| "pass_str Screen_Pass = ''screen''"
| "pass_str Refine_Pass = ''refine''"

fun pass_priority :: "pass_kind \<Rightarrow> int" where
  "pass_priority Full_Pass = 0"
| "pass_priority Screen_Pass = 0"
| "pass_priority Refine_Pass = 1"

type_synonym owner = "analysis_query \<Rightarrow> nat \<Rightarrow> bool \<times> reply_wait"

record engine_trace =
  et_asked :: "analysis_query list"
  et_counted :: "(string \<times> nat) list"

definition engine_pass ::
  "owner \<Rightarrow> engine_config \<Rightarrow> pass_kind \<Rightarrow> parsed_game \<Rightarrow> nat list \<Rightarrow> nat \<Rightarrow> string option \<Rightarrow> engine_trace
     \<Rightarrow> turn_response list app_result \<times> engine_trace" where
  "engine_pass ask cfg pass game turns visits human_profile tr =
     (let positions = length turns;
          query = analyze_query game cfg turns visits (pass_priority pass) human_profile;
          tr1 = (if positions = 0 then tr else tr\<lparr>et_asked := et_asked tr @ [query]\<rparr>)
      in case katago_analyze ask game cfg turns visits (pass_priority pass) human_profile of
           Inl e \<Rightarrow> (Inl e, tr1)
         | Inr res \<Rightarrow> (Inr res, tr1\<lparr>et_counted := et_counted tr1 @ [(pass_str pass, positions)]\<rparr>))"

definition merge_turns :: "turn_response list \<Rightarrow> turn_response list \<Rightarrow> turn_response list" where
  "merge_turns screened refined =
     (let by_turn = by_turn_map (screened @ refined)
      in List.map_filter by_turn (sort (remdups (map turn_number (screened @ refined)))))"

definition all_turns :: "parsed_game \<Rightarrow> nat list" where
  "all_turns game = [0..<Suc (length (game_moves game))]"

definition analyze_turns ::
  "owner \<Rightarrow> engine_config \<Rightarrow> parsed_game \<Rightarrow> string option \<Rightarrow> turn_response list app_result \<times> engine_trace" where
  "analyze_turns ask cfg game human_profile =
     (let tr0 = \<lparr>et_asked = [], et_counted = []\<rparr> in
      if two_pass cfg then
        (case engine_pass ask cfg Screen_Pass game (all_turns game) (screen_visits cfg) human_profile tr0 of
           (Inl e, tr1) \<Rightarrow> (Inl e, tr1)
         | (Inr screened, tr1) \<Rightarrow>
             (case engine_pass ask cfg Refine_Pass game (turns_to_refine game screened cfg)
                     (max_visits cfg) human_profile tr1 of
                (Inl e, tr2) \<Rightarrow> (Inl e, tr2)
              | (Inr refined, tr2) \<Rightarrow> (Inr (merge_turns screened refined), tr2)))
      else engine_pass ask cfg Full_Pass game (all_turns game) (max_visits cfg) human_profile tr0)"

text \<open>\<open>AnalysisEngine::analyze\<close>; a profile is dropped when no human model is loaded.\<close>

definition engine_analyze ::
  "sgf_reader \<Rightarrow> (fl \<Rightarrow> fl) \<Rightarrow> owner \<Rightarrow> engine_config \<Rightarrow> string option \<Rightarrow> string \<Rightarrow> string option
     \<Rightarrow> game_analysis app_result \<times> engine_trace" where
  "engine_analyze go_parse expf ask cfg version sgf human_profile =
     (case sgf_parse go_parse sgf (default_board_size cfg) (default_komi cfg) of
        Inl e \<Rightarrow> (Inl e, \<lparr>et_asked = [], et_counted = []\<rparr>)
      | Inr game \<Rightarrow>
          let profile = opt_filter (\<lambda>_. human_model cfg \<noteq> []) human_profile in
          (case analyze_turns ask cfg game profile of
             (Inl e, tr) \<Rightarrow> (Inl e, tr)
           | (Inr turns, tr) \<Rightarrow>
               let analysis = assemble expf game turns cfg profile in
               (Inr (analysis\<lparr>ga_engine := (ga_engine analysis)\<lparr>ei_version := version\<rparr>\<rparr>), tr)))"

text \<open>\<open>AnalysisEngine::analyze_positions\<close>: the auto-tuner's workload over a range of turns.\<close>

definition analyze_positions ::
  "owner \<Rightarrow> engine_config \<Rightarrow> parsed_game \<Rightarrow> nat \<Rightarrow> nat \<Rightarrow> nat app_result" where
  "analyze_positions ask cfg game lo hi =
     res_map length (katago_analyze ask game cfg [lo..<hi] (max_visits cfg) 0 None)"

section \<open>Overlaying the refined turns\<close>

lemma by_turn_map_append:
  "by_turn_map (xs @ ys) k = (case by_turn_map ys k of Some t \<Rightarrow> Some t | None \<Rightarrow> by_turn_map xs k)"
  unfolding by_turn_map_def by (simp add: map_add_def)

lemma by_turn_map_Some: "by_turn_map xs k = Some t \<Longrightarrow> t \<in> set xs \<and> turn_number t = k"
  by (auto simp: by_turn_map_def dest: map_of_SomeD)

lemma by_turn_map_dom: "dom (by_turn_map xs) = turn_number ` set xs"
  by (force simp: by_turn_map_def dom_map_of_conv_image_fst)

lemma by_turn_map_distinct:
  assumes "distinct (map turn_number xs)" and "t \<in> set xs"
  shows "by_turn_map xs (turn_number t) = Some t"
proof -
  have "(turn_number t, t) \<in> set (rev (map (\<lambda>t. (turn_number t, t)) xs))" using assms(2) by auto
  moreover have "distinct (map fst (rev (map (\<lambda>t. (turn_number t, t)) xs)))"
    using assms(1) by (simp add: comp_def flip: rev_map)
  ultimately show ?thesis unfolding by_turn_map_def by (rule map_of_is_SomeI [rotated])
qed

lemma map_filter_keys:
  assumes "\<forall>k \<in> set ks. \<exists>t. m k = Some t \<and> turn_number t = k"
  shows "map turn_number (List.map_filter m ks) = ks"
  using assms by (induction ks) (auto simp: List.map_filter_def)

lemma merge_turns_numbers:
  "map turn_number (merge_turns s r) = sort (remdups (map turn_number (s @ r)))"
proof -
  have "\<exists>t. by_turn_map (s @ r) k = Some t \<and> turn_number t = k"
    if k: "k \<in> turn_number ` set (s @ r)" for k
  proof -
    have "k \<in> dom (by_turn_map (s @ r))" using k by (simp only: by_turn_map_dom)
    then obtain t where "by_turn_map (s @ r) k = Some t" by auto
    then show ?thesis using by_turn_map_Some by blast
  qed
  then show ?thesis unfolding merge_turns_def Let_def by (intro map_filter_keys) auto
qed

lemma merge_turns_lookup:
  "by_turn_map (merge_turns s r) k =
     (case by_turn_map r k of Some t \<Rightarrow> Some t | None \<Rightarrow> by_turn_map s k)"
proof -
  have dist: "distinct (map turn_number (merge_turns s r))" by (simp add: merge_turns_numbers)
  have "by_turn_map (merge_turns s r) k = by_turn_map (s @ r) k"
  proof (cases "by_turn_map (s @ r) k")
    case None
    then have "k \<notin> turn_number ` set (s @ r)" using by_turn_map_dom [of "s @ r"] by (metis domIff)
    then have "k \<notin> set (map turn_number (merge_turns s r))" unfolding merge_turns_numbers by auto
    then have "k \<notin> dom (by_turn_map (merge_turns s r))" by (simp add: by_turn_map_dom)
    then show ?thesis using None by (simp add: domIff)
  next
    case (Some t)
    then have t: "turn_number t = k" "k \<in> turn_number ` set (s @ r)"
      using by_turn_map_Some by fastforce+
    then have "t \<in> set (merge_turns s r)"
      using Some unfolding merge_turns_def Let_def by (force simp: List.map_filter_def)
    from by_turn_map_distinct [OF dist this] show ?thesis using t(1) Some by simp
  qed
  then show ?thesis by (simp add: by_turn_map_append)
qed

section \<open>What the engine asks for\<close>

lemma engine_pass_asked:
  "et_asked (snd (engine_pass ask cfg p game turns v h tr)) =
     et_asked tr @ (if turns = [] then [] else [analyze_query game cfg turns v (pass_priority p) h])"
  by (auto simp: engine_pass_def Let_def split: sum.splits)

definition query_ok :: "engine_config \<Rightarrow> parsed_game \<Rightarrow> string option \<Rightarrow> analysis_query \<Rightarrow> bool" where
  "query_ok cfg game profile q =
     (q_moves q = game_moves game \<and> q_initial_stones q = initial_stones game \<and>
      q_analyze_turns q \<noteq> [] \<and> set (q_analyze_turns q) \<subseteq> set (all_turns game) \<and>
      distinct (q_analyze_turns q) \<and>
      human_sl_profile (q_override_settings q) = profile \<and>
      report_analysis_winrates_as (q_override_settings q) = ''SIDETOMOVE'')"

lemma query_ok_analyze:
  "turns \<noteq> [] \<Longrightarrow> set turns \<subseteq> set (all_turns game) \<Longrightarrow> distinct turns \<Longrightarrow>
     query_ok cfg game h (analyze_query game cfg turns v p h)"
  by (simp add: query_ok_def analyze_query_def override_settings_new_def REPORT_PERSPECTIVE_def)

lemma all_turns_simps [simp]:
  "all_turns game \<noteq> []" "distinct (all_turns game)"
  "set (all_turns game) = {0..length (game_moves game)}"
  by (auto simp: all_turns_def)

lemma turns_to_refine_subset:
  "set (turns_to_refine game s cfg) \<subseteq> set (all_turns game)" "distinct (turns_to_refine game s cfg)"
  using turns_to_refine_aux [of game s cfg] by auto

lemma analyze_turns_asked:
  assumes "q \<in> set (et_asked (snd (analyze_turns ask cfg game h)))"
  shows "query_ok cfg game h q"
proof (cases "two_pass cfg")
  case False
  then show ?thesis using assms
    by (auto simp: analyze_turns_def engine_pass_asked intro!: query_ok_analyze)
next
  case True
  obtain r1 tr1 where one: "engine_pass ask cfg Screen_Pass game (all_turns game) (screen_visits cfg) h
      \<lparr>et_asked = [], et_counted = []\<rparr> = (r1, tr1)" by force
  then have asked1: "et_asked tr1 = [analyze_query game cfg (all_turns game) (screen_visits cfg) 0 h]"
    using engine_pass_asked [of ask cfg Screen_Pass game "all_turns game" "screen_visits cfg" h
        "\<lparr>et_asked = [], et_counted = []\<rparr>"] by simp
  show ?thesis
  proof (cases r1)
    case (Inl e)
    then show ?thesis using assms True one asked1
      by (auto simp: analyze_turns_def intro!: query_ok_analyze)
  next
    case (Inr screened)
    obtain r2 tr2 where two: "engine_pass ask cfg Refine_Pass game (turns_to_refine game screened cfg)
        (max_visits cfg) h tr1 = (r2, tr2)" by force
    then have "et_asked tr2 = et_asked tr1 @ (if turns_to_refine game screened cfg = [] then []
        else [analyze_query game cfg (turns_to_refine game screened cfg) (max_visits cfg) 1 h])"
      using engine_pass_asked [of ask cfg Refine_Pass game "turns_to_refine game screened cfg"
          "max_visits cfg" h tr1] by simp
    moreover have "snd (analyze_turns ask cfg game h) = tr2"
      using True one Inr two by (cases r2) (simp_all add: analyze_turns_def)
    ultimately show ?thesis
      using assms asked1 turns_to_refine_subset [of game screened cfg]
      by (auto intro!: query_ok_analyze split: if_splits)
  qed
qed

section \<open>Properties\<close>

text \<open>Merging a refinement into a screening keeps one response per turn, in turn order, and every
  turn's response is the refined one where there is one and the screened one elsewhere.\<close>

lemma merge_turns_overlay:
  "map turn_number (merge_turns s r) = sort (remdups (map turn_number (s @ r))) \<and>
   by_turn_map (merge_turns s r) k =
     (case by_turn_map r k of Some t \<Rightarrow> Some t | None \<Rightarrow> by_turn_map s k)"
  by (simp only: merge_turns_numbers merge_turns_lookup simp_thms)

text \<open>C23. Whatever the engine process answers, every query an analysis sends carries the whole game,
  a non-empty list of distinct turns of it, the pinned frame, and a human profile only when a human
  model is loaded; a game that does not parse sends none.\<close>

theorem engine_queries_ok:
  assumes "q \<in> set (et_asked (snd (engine_analyze go_parse expf ask cfg version sgf hp)))"
  shows "\<exists>game. sgf_parse go_parse sgf (default_board_size cfg) (default_komi cfg) = Inr game \<and>
    query_ok cfg game (if human_model cfg = [] then None else hp) q"
proof (cases "sgf_parse go_parse sgf (default_board_size cfg) (default_komi cfg)")
  case (Inl e)
  then show ?thesis using assms by (simp add: engine_analyze_def)
next
  case (Inr game)
  define h where "h = opt_filter (\<lambda>_. human_model cfg \<noteq> []) hp"
  obtain res tr where r: "analyze_turns ask cfg game h = (res, tr)" by force
  have "q \<in> set (et_asked tr)"
    using assms Inr r by (cases res) (simp_all add: engine_analyze_def Let_def h_def)
  then have "query_ok cfg game h q" using analyze_turns_asked [of q ask cfg game h] r by simp
  moreover have "h = (if human_model cfg = [] then None else hp)" by (cases hp) (simp_all add: h_def)
  ultimately show ?thesis using Inr by simp
qed

lemma default_config_fields:
  "default_board_size (default_engine_config par) = 19" "default_komi (default_engine_config par) = Fin (15 / 2)"
  "human_model (default_engine_config par) = []" "\<not> two_pass (default_engine_config par)"
proof -
  have "lit f32 (15 / 2) = Fin (15 / 2)" by code_simp
  then show "default_komi (default_engine_config par) = Fin (15 / 2)" by (simp add: default_engine_config_def)
qed (simp_all add: default_engine_config_def two_pass_def)

theorem engine_queries_ok_witness:
  "query_ok (default_engine_config None) sample_game None
     (analyze_query sample_game (default_engine_config None) (all_turns sample_game)
        (max_visits (default_engine_config None)) 0 None)"
proof -
  let ?a = "engine_analyze (\<lambda>_. Inr [sample_tree]) (\<lambda>_. Fin 1) (\<lambda>_ _. (False, Reply_Dropped))
      (default_engine_config None) None [] (Some ''rank_5k'')"
  obtain res tr where r: "analyze_turns (\<lambda>_ _. (False, Reply_Dropped)) (default_engine_config None)
      sample_game None = (res, tr)" by force
  have "snd ?a = tr"
    using r by (cases res) (simp_all add: engine_analyze_def sample_parses default_config_fields Let_def)
  moreover have "et_asked tr = [analyze_query sample_game (default_engine_config None)
      (all_turns sample_game) (max_visits (default_engine_config None)) 0 None]"
    using r engine_pass_asked [of "\<lambda>_ _. (False, Reply_Dropped)" "default_engine_config None" Full_Pass
        sample_game "all_turns sample_game" "max_visits (default_engine_config None)" None
        "\<lparr>et_asked = [], et_counted = []\<rparr>"]
    by (simp add: analyze_turns_def default_config_fields)
  ultimately show ?thesis
    using engine_queries_ok [of _ "\<lambda>_. Inr [sample_tree]" "\<lambda>_. Fin 1" "\<lambda>_ _. (False, Reply_Dropped)"
        "default_engine_config None" None "[]" "Some ''rank_5k''"]
    by (simp add: sample_parses default_config_fields)
qed

end
