(* ===== verification/Katago_Owner.thy ===== *)
theory Katago_Owner
  imports Katago_Types "HOL-Library.Multiset"
begin

text \<open>
  The owner task of the engine subprocess (\<open>src/src/engine/katago.rs\<close>): one task holds the process,
  the table of pending queries, the id counter and the backlog, and everything reaches it as a
  message.  A step handles one message; what the program leaves to the outside is in the message or
  a parameter: how writing query number \<open>k\<close> went (\<open>wr\<close>), what \<open>serde_json\<close> reads in a line
  (\<open>read_json\<close>), whether a relaunch succeeded.  Reply channels are numbers; a channel the owner
  drops unanswered is recorded as dropped.
\<close>

section \<open>Model\<close>

definition READY_LINE :: string where
  "READY_LINE = ''Started, ready to begin handling requests''"

definition STDERR_TAIL_LINES :: nat where "STDERR_TAIL_LINES = 30"

text \<open>Seconds.\<close>

definition RESTART_BACKOFF_MIN :: nat where "RESTART_BACKOFF_MIN = 1"
definition RESTART_BACKOFF_MAX :: nat where "RESTART_BACKOFF_MAX = 60"

text \<open>The stderr reader: the last lines, and whether the ready line was seen.\<close>

definition stderr_line :: "string list \<times> bool \<Rightarrow> string \<Rightarrow> string list \<times> bool" where
  "stderr_line s line =
     (let (recent, ready) = s;
          ready' = (ready \<or> contains_str READY_LINE line);
          recent' = (if length recent = STDERR_TAIL_LINES then tl recent else recent)
      in (recent' @ [line], ready'))"

definition read_stderr :: "string list \<Rightarrow> string list \<times> bool" where
  "read_stderr ls = foldl stderr_line ([], False) ls"

record exit_report =
  xr_status :: string
  xr_stderr :: "string list"

definition exit_report_text :: "exit_report \<Rightarrow> string" where
  "exit_report_text r =
     xr_status r @
     (if xr_stderr r \<noteq> [] then ''; last stderr lines:'' @ [CHR 0x0A] @ join [CHR 0x0A] (xr_stderr r) else [])"

text \<open>How waiting for the child ended, and the report \<open>reap\<close> makes of it.\<close>

datatype child_wait = Waited string | Wait_Failed string | Wait_Timeout

fun reap :: "child_wait \<Rightarrow> string list option \<Rightarrow> exit_report" where
  "reap (Waited status) tail_lines = \<lparr>xr_status = status, xr_stderr = opt_else [] tail_lines\<rparr>"
| "reap (Wait_Failed err) tail_lines =
     \<lparr>xr_status = ''wait failed: '' @ err, xr_stderr = opt_else [] tail_lines\<rparr>"
| "reap Wait_Timeout tail_lines =
     \<lparr>xr_status = ''closed stdout; killed'', xr_stderr = opt_else [] tail_lines\<rparr>"

datatype engine_status = Starting | Ready | Exited string

text \<open>\<open>KataGo::wait_ready\<close>, on the first status that is not \<open>Starting\<close>; \<open>None\<close>: the owner is gone.\<close>

definition wait_ready :: "engine_status option \<Rightarrow> unit app_result" where
  "wait_ready seen =
     (case seen of
        None \<Rightarrow> Inl (ModelLoad ''katago engine stopped'')
      | Some (Exited report) \<Rightarrow> Inl (ModelLoad (''the engine exited during startup: '' @ report))
      | Some _ \<Rightarrow> Inr ())"

record pending_query =
  pq_expected :: nat
  pq_got :: "turn_response list"
  pq_tx :: nat

record analyze_cmd =
  ac_query :: analysis_query
  ac_expected :: nat
  ac_tx :: nat

type_synonym pending_table = "(string \<times> pending_query) list"
type_synonym reply = "nat \<times> (string + turn_response list)"

text \<open>What the owner is doing: serving a process (has its ready signal been taken?), waiting out the
  backoff before a relaunch, or gone.\<close>

datatype owner_phase = Serving bool | Down | Stopped

record owner_state =
  os_supervised :: bool
  os_started :: bool
  os_status :: engine_status
  os_positions :: nat
  os_next_id :: nat
  os_backlog :: "analyze_cmd list"
  os_pending :: pending_table
  os_backoff :: nat
  os_phase :: owner_phase
  os_accepted :: "analyze_cmd list"
  os_replies :: "reply list"
  os_dropped :: "nat list"

datatype write_result = Written | Serialize_Failed string | Write_Failed string

text \<open>The reading of a stdout line: the string fields \<open>id\<close>, \<open>error\<close> and \<open>warning\<close> if present, and
  the value as a turn response if it is one.\<close>

record line_json =
  lj_id :: "string option"
  lj_error :: "string option"
  lj_warning :: "string option"
  lj_turn :: "turn_response option"

type_synonym json_reader = "string \<Rightarrow> line_json option"

definition query_id :: "nat \<Rightarrow> string" where
  "query_id k = CHR ''q'' # show_nat k"

definition submit :: "(nat \<Rightarrow> write_result) \<Rightarrow> analyze_cmd \<Rightarrow> owner_state \<Rightarrow> owner_state" where
  "submit wr cmd s =
     (let k = os_next_id s;
          s' = s\<lparr>os_next_id := k + 1\<rparr>
      in case wr k of
           Serialize_Failed err \<Rightarrow>
             s'\<lparr>os_replies := os_replies s' @ [(ac_tx cmd, Inl (''serialize query: '' @ err))]\<rparr>
         | Write_Failed err \<Rightarrow>
             s'\<lparr>os_replies := os_replies s' @ [(ac_tx cmd, Inl (''write to katago: '' @ err))]\<rparr>
         | Written \<Rightarrow>
             s'\<lparr>os_pending := os_pending s' @
                  [(query_id k, \<lparr>pq_expected = ac_expected cmd, pq_got = [], pq_tx = ac_tx cmd\<rparr>)]\<rparr>)"

text \<open>\<open>handle_line\<close>: the table after the line, the replies it sends, and whether it was an analysed
  turn.\<close>

definition take_pending :: "string \<Rightarrow> pending_table \<Rightarrow> pending_table" where
  "take_pending i p = filter (\<lambda>e. fst e \<noteq> i) p"

definition handle_line ::
  "json_reader \<Rightarrow> pending_table \<Rightarrow> string \<Rightarrow> pending_table \<times> reply list \<times> bool" where
  "handle_line read_json pending line =
     (case read_json line of
        None \<Rightarrow> (pending, [], False)
      | Some value \<Rightarrow>
          (case lj_error value of
             Some err \<Rightarrow>
               (case lj_id value of
                  None \<Rightarrow> (pending, [], False)
                | Some i \<Rightarrow>
                    (case map_of pending i of
                       None \<Rightarrow> (pending, [], False)
                     | Some req \<Rightarrow> (take_pending i pending, [(pq_tx req, Inl err)], False)))
           | None \<Rightarrow>
               if lj_warning value \<noteq> None then (pending, [], False)
               else case lj_id value of
                 None \<Rightarrow> (pending, [], False)
               | Some i \<Rightarrow>
                   (case lj_turn value of
                      None \<Rightarrow> (pending, [], False)
                    | Some turn \<Rightarrow>
                        (case map_of pending i of
                           None \<Rightarrow> (pending, [], True)
                         | Some req \<Rightarrow>
                             let got = pq_got req @ [turn] in
                             if pq_expected req \<le> length got then
                               (take_pending i pending, [(pq_tx req, Inr got)], True)
                             else
                               (map (\<lambda>e. if fst e = i then (i, req\<lparr>pq_got := got\<rparr>) else e) pending,
                                [], True)))))"

definition fail_all :: "string \<Rightarrow> owner_state \<Rightarrow> owner_state" where
  "fail_all msg s = s\<lparr>os_replies := os_replies s @ map (\<lambda>(_, req). (pq_tx req, Inl msg)) (os_pending s),
                      os_pending := []\<rparr>"

text \<open>\<open>serve\<close>'s start: everything in the backlog is submitted to the new process.\<close>

definition start_serving :: "(nat \<Rightarrow> write_result) \<Rightarrow> owner_state \<Rightarrow> owner_state" where
  "start_serving wr s =
     (foldl (\<lambda>t cmd. submit wr cmd t) (s\<lparr>os_backlog := [], os_phase := Serving False\<rparr>) (os_backlog s))"

text \<open>The owner returns: its pending table, backlog and channels are dropped.\<close>

definition stop_owner :: "owner_state \<Rightarrow> owner_state" where
  "stop_owner s = s\<lparr>os_dropped := os_dropped s @ map (pq_tx \<circ> snd) (os_pending s) @ map ac_tx (os_backlog s),
                    os_pending := [], os_backlog := [], os_phase := Stopped\<rparr>"

datatype owner_event =
    Ready_Signal bool
  | Cmd_Analyze analyze_cmd
  | Cmd_Shutdown
  | Handles_Dropped
  | Stdout_Line string
  | Stdout_Closed exit_report
  | Backoff_Over bool

definition shut_down_text :: string where
  "shut_down_text = ''katago engine shut down''"

text \<open>\<open>run\<close>'s reaction when the process went away on its own.\<close>

definition process_exited :: "exit_report \<Rightarrow> owner_state \<Rightarrow> owner_state" where
  "process_exited report s =
     (let s1 = fail_all (''katago process exited ('' @ xr_status report @ '')'') s in
      if \<not> os_supervised s1 \<or> \<not> os_started s1 then
        stop_owner (s1\<lparr>os_status := Exited (exit_report_text report)\<rparr>)
      else
        s1\<lparr>os_backoff := (if os_status s1 = Ready then RESTART_BACKOFF_MIN else os_backoff s1),
           os_status := Exited (exit_report_text report), os_phase := Down\<rparr>)"

text \<open>One message; \<open>None\<close> where the owner does not listen to it.\<close>

fun owner_step ::
  "(nat \<Rightarrow> write_result) \<Rightarrow> json_reader \<Rightarrow> owner_state \<Rightarrow> owner_event \<Rightarrow> owner_state option" where
  "owner_step wr rj s (Ready_Signal ok) =
     (case os_phase s of
        Serving False \<Rightarrow>
          Some (if ok then s\<lparr>os_phase := Serving True, os_started := True, os_status := Ready\<rparr>
                else s\<lparr>os_phase := Serving True\<rparr>)
      | _ \<Rightarrow> None)"
| "owner_step wr rj s (Cmd_Analyze cmd) =
     (case os_phase s of
        Serving _ \<Rightarrow> Some (submit wr cmd (s\<lparr>os_accepted := os_accepted s @ [cmd]\<rparr>))
      | Down \<Rightarrow> Some (s\<lparr>os_accepted := os_accepted s @ [cmd], os_backlog := os_backlog s @ [cmd]\<rparr>)
      | Stopped \<Rightarrow> None)"
| "owner_step wr rj s Cmd_Shutdown =
     (case os_phase s of
        Serving _ \<Rightarrow> Some (stop_owner ((fail_all shut_down_text s)\<lparr>os_status := Exited shut_down_text\<rparr>))
      | Down \<Rightarrow>
          Some (stop_owner (s\<lparr>os_replies := os_replies s @ map (\<lambda>c. (ac_tx c, Inl shut_down_text)) (os_backlog s),
                              os_backlog := [], os_status := Exited shut_down_text\<rparr>))
      | Stopped \<Rightarrow> None)"
| "owner_step wr rj s Handles_Dropped =
     (case os_phase s of
        Serving _ \<Rightarrow> Some (stop_owner s)
      | Down \<Rightarrow> Some (stop_owner (s\<lparr>os_status := Exited shut_down_text\<rparr>))
      | Stopped \<Rightarrow> None)"
| "owner_step wr rj s (Stdout_Line line) =
     (case os_phase s of
        Serving _ \<Rightarrow>
          (let (p, rs, turn) = handle_line rj (os_pending s) line
           in Some (s\<lparr>os_pending := p, os_replies := os_replies s @ rs,
                      os_positions := os_positions s + (if turn then 1 else 0)\<rparr>))
      | _ \<Rightarrow> None)"
| "owner_step wr rj s (Stdout_Closed report) =
     (case os_phase s of Serving _ \<Rightarrow> Some (process_exited report s) | _ \<Rightarrow> None)"
| "owner_step wr rj s (Backoff_Over launched) =
     (case os_phase s of
        Down \<Rightarrow>
          (let s1 = s\<lparr>os_backoff := min (os_backoff s * 2) RESTART_BACKOFF_MAX\<rparr>
           in Some (if launched then start_serving wr (s1\<lparr>os_status := Starting\<rparr>) else s1))
      | _ \<Rightarrow> None)"

definition owner_init :: "bool \<Rightarrow> owner_state" where
  "owner_init supervised =
     \<lparr>os_supervised = supervised, os_started = False, os_status = Starting, os_positions = 0,
      os_next_id = 0, os_backlog = [], os_pending = [], os_backoff = RESTART_BACKOFF_MIN,
      os_phase = Serving False, os_accepted = [], os_replies = [], os_dropped = []\<rparr>"

fun owner_run ::
  "(nat \<Rightarrow> write_result) \<Rightarrow> json_reader \<Rightarrow> owner_state \<Rightarrow> owner_event list \<Rightarrow> owner_state option" where
  "owner_run wr rj s [] = Some s"
| "owner_run wr rj s (e # es) =
     (case owner_step wr rj s e of None \<Rightarrow> None | Some s' \<Rightarrow> owner_run wr rj s' es)"

inductive owner_reachable :: "(nat \<Rightarrow> write_result) \<Rightarrow> json_reader \<Rightarrow> owner_state \<Rightarrow> bool"
  for wr :: "nat \<Rightarrow> write_result" and rj :: json_reader where
  reach_init: "owner_reachable wr rj (owner_init supervised)"
| reach_step: "owner_reachable wr rj s \<Longrightarrow> owner_step wr rj s e = Some s' \<Longrightarrow> owner_reachable wr rj s'"

section \<open>Identifiers\<close>

definition ids_ok :: "owner_state \<Rightarrow> bool" where
  "ids_ok s = (distinct (map fst (os_pending s)) \<and>
     (\<forall>i \<in> fst ` set (os_pending s). \<exists>k < os_next_id s. i = query_id k))"

lemma ids_ok_fields [simp]:
  "ids_ok (s\<lparr>os_accepted := a\<rparr>) = ids_ok s" "ids_ok (s\<lparr>os_backlog := b\<rparr>) = ids_ok s"
  "ids_ok (s\<lparr>os_phase := p\<rparr>) = ids_ok s" "ids_ok (s\<lparr>os_backoff := n\<rparr>) = ids_ok s"
  "ids_ok (s\<lparr>os_status := st\<rparr>) = ids_ok s" "ids_ok (s\<lparr>os_started := c\<rparr>) = ids_ok s"
  "ids_ok (s\<lparr>os_replies := r\<rparr>) = ids_ok s" "ids_ok (s\<lparr>os_dropped := d\<rparr>) = ids_ok s"
  "ids_ok (s\<lparr>os_positions := q\<rparr>) = ids_ok s"
  by (simp_all add: ids_ok_def)

lemma query_id_inj: "query_id j = query_id k \<Longrightarrow> j = k"
  by (simp add: query_id_def show_nat_inj)

lemma ids_ok_submit [inv_intros]: "ids_ok s \<Longrightarrow> ids_ok (submit wr cmd s)"
proof -
  assume a: "ids_ok s"
  then have "query_id (os_next_id s) \<notin> fst ` set (os_pending s)"
    using query_id_inj by (fastforce simp: ids_ok_def)
  with a show ?thesis
    by (cases "wr (os_next_id s)") (auto simp: ids_ok_def submit_def Let_def less_Suc_eq)
qed

lemma take_pending_sub: "set (take_pending i p) \<subseteq> set p"
  by (auto simp: take_pending_def)

lemma map_fst_update:
  "map fst (map (\<lambda>e. if fst e = i then (i, f e) else e) p) = map fst p"
  by (induction p) auto

lemma handle_line_cases:
  assumes "handle_line rj p line = (p', rs, turn)"
  obtains (same) "p' = p" "rs = []"
  | (failed) i req err where "map_of p i = Some req" "p' = take_pending i p" "rs = [(pq_tx req, Inl err)]"
  | (completed) i req t where "map_of p i = Some req" "p' = take_pending i p"
      "rs = [(pq_tx req, Inr (pq_got req @ [t]))]" "pq_expected req \<le> Suc (length (pq_got req))"
  | (more) i req t where "map_of p i = Some req" "rs = []"
      "p' = map (\<lambda>e. if fst e = i then (i, req\<lparr>pq_got := pq_got req @ [t]\<rparr>) else e) p"
      "Suc (length (pq_got req)) < pq_expected req"
proof -
  have "(p' = p \<and> rs = []) \<or>
    (\<exists>i req err. map_of p i = Some req \<and> p' = take_pending i p \<and> rs = [(pq_tx req, Inl err)]) \<or>
    (\<exists>i req t. map_of p i = Some req \<and>
       (if pq_expected req \<le> Suc (length (pq_got req))
        then p' = take_pending i p \<and> rs = [(pq_tx req, Inr (pq_got req @ [t]))]
        else p' = map (\<lambda>e. if fst e = i then (i, req\<lparr>pq_got := pq_got req @ [t]\<rparr>) else e) p \<and> rs = []))"
  proof (cases "rj line")
    case (Some v)
    show ?thesis
    proof (cases "lj_error v")
      case (Some err)
      show ?thesis
      proof (cases "Option.bind (lj_id v) (map_of p)")
        case None
        then show ?thesis using assms \<open>rj line = Some v\<close> \<open>lj_error v = Some err\<close>
          by (auto simp: handle_line_def split: option.splits)
      next
        case (Some req)
        then obtain i where "lj_id v = Some i" "map_of p i = Some req" by (auto simp: bind_eq_Some_conv)
        then show ?thesis using assms \<open>rj line = Some v\<close> \<open>lj_error v = Some err\<close>
          by (intro disjI2 disjI1 exI [of _ i] exI [of _ req] exI [of _ err]) (simp add: handle_line_def)
      qed
    next
      case None
      show ?thesis
      proof (cases "lj_warning v = None \<and> lj_id v \<noteq> None \<and> lj_turn v \<noteq> None")
        case True
        then obtain i t where it: "lj_warning v = None" "lj_id v = Some i" "lj_turn v = Some t" by auto
        show ?thesis
        proof (cases "map_of p i")
          case None
          then show ?thesis using assms it \<open>rj line = Some v\<close> \<open>lj_error v = None\<close>
            by (simp add: handle_line_def)
        next
          case (Some req)
          then have "if pq_expected req \<le> Suc (length (pq_got req))
              then p' = take_pending i p \<and> rs = [(pq_tx req, Inr (pq_got req @ [t]))]
              else p' = map (\<lambda>e. if fst e = i then (i, req\<lparr>pq_got := pq_got req @ [t]\<rparr>) else e) p \<and> rs = []"
            using assms it \<open>rj line = Some v\<close> \<open>lj_error v = None\<close>
            by (simp add: handle_line_def Let_def split: if_splits)
          then show ?thesis using Some by blast
        qed
      next
        case False
        then show ?thesis using assms \<open>rj line = Some v\<close> None
          by (auto simp: handle_line_def split: option.splits if_splits)
      qed
    qed
  qed (use assms in \<open>simp add: handle_line_def\<close>)
  then show thesis
    using same failed completed more by (auto simp only: if_bool_eq_disj not_le)
qed

lemma ids_ok_line:
  assumes "ids_ok s" and "handle_line rj (os_pending s) line = (p', rs, turn)"
  shows "ids_ok (s\<lparr>os_pending := p', os_replies := r, os_positions := n\<rparr>)"
  using assms(2)
proof (cases rule: handle_line_cases)
  case same
  then show ?thesis using assms(1) by (simp add: ids_ok_def)
next
  case (failed i req err)
  then show ?thesis using assms(1) by (auto simp: ids_ok_def take_pending_def distinct_map_filter)
next
  case (completed i req t)
  then show ?thesis using assms(1) by (auto simp: ids_ok_def take_pending_def distinct_map_filter)
next
  case (more i req t)
  have keys: "map fst p' = map fst (os_pending s)"
    unfolding more(3) by (rule map_fst_update)
  then have "fst ` set p' = fst ` set (os_pending s)" by (metis list.set_map)
  then show ?thesis using assms(1) keys by (simp add: ids_ok_def)
qed

lemma foldl_invariant: "P s \<Longrightarrow> (\<And>s x. P s \<Longrightarrow> P (f s x)) \<Longrightarrow> P (foldl f s xs)"
  by (induction xs arbitrary: s) auto

lemma ids_ok_start: "ids_ok s \<Longrightarrow> ids_ok (start_serving wr s)"
  unfolding start_serving_def by (rule foldl_invariant) (simp_all add: ids_ok_submit)

lemma ids_ok_no_pending: "os_pending s = [] \<Longrightarrow> ids_ok s"
  by (simp add: ids_ok_def)

lemma fail_all_fields [simp]:
  "os_pending (fail_all msg s) = []" "os_backlog (fail_all msg s) = os_backlog s"
  "os_accepted (fail_all msg s) = os_accepted s" "os_dropped (fail_all msg s) = os_dropped s"
  "os_phase (fail_all msg s) = os_phase s" "os_backoff (fail_all msg s) = os_backoff s"
  "os_supervised (fail_all msg s) = os_supervised s" "os_started (fail_all msg s) = os_started s"
  "os_status (fail_all msg s) = os_status s"
  "os_replies (fail_all msg s) = os_replies s @ map (\<lambda>(_, req). (pq_tx req, Inl msg)) (os_pending s)"
  by (simp_all add: fail_all_def)

lemma stop_owner_fields [simp]:
  "os_pending (stop_owner s) = []" "os_backlog (stop_owner s) = []"
  "os_accepted (stop_owner s) = os_accepted s" "os_replies (stop_owner s) = os_replies s"
  "os_phase (stop_owner s) = Stopped" "os_backoff (stop_owner s) = os_backoff s"
  "os_dropped (stop_owner s) = os_dropped s @ map (pq_tx \<circ> snd) (os_pending s) @ map ac_tx (os_backlog s)"
  by (simp_all add: stop_owner_def)

lemma ids_ok_stop: "ids_ok (stop_owner s)"
  by (simp add: ids_ok_no_pending)

lemma ids_ok_exited: "ids_ok (process_exited report s)"
  by (auto simp: process_exited_def Let_def ids_ok_stop intro: ids_ok_no_pending)

lemma ids_ok_step:
  assumes "ids_ok s" and "owner_step wr rj s e = Some s'" shows "ids_ok s'"
proof (cases e)
  case (Stdout_Line line)
  then show ?thesis using assms ids_ok_line [OF assms(1)]
    by (auto split: owner_phase.splits prod.splits)
qed (use assms in \<open>auto split: owner_phase.splits bool.splits if_splits
       simp: ids_ok_stop ids_ok_exited ids_ok_submit ids_ok_start Let_def\<close>)

section \<open>Every request in exactly one place\<close>

definition places :: "owner_state \<Rightarrow> nat multiset" where
  "places s = mset (map (pq_tx \<circ> snd) (os_pending s)) + mset (map ac_tx (os_backlog s)) +
              mset (map fst (os_replies s)) + mset (os_dropped s)"

definition places_ok :: "owner_state \<Rightarrow> bool" where
  "places_ok s = (mset (map ac_tx (os_accepted s)) = places s)"

definition phase_ok :: "owner_state \<Rightarrow> bool" where
  "phase_ok s =
     (case os_phase s of
        Serving _ \<Rightarrow> os_backlog s = []
      | Down \<Rightarrow> os_pending s = [] \<and> os_supervised s \<and> os_started s
      | Stopped \<Rightarrow> os_pending s = [] \<and> os_backlog s = [])"

lemma take_pending_mset:
  assumes "distinct (map fst p)" and "map_of p i = Some req"
  shows "mset p = add_mset (i, req) (mset (take_pending i p))"
  using assms
proof (induction p)
  case (Cons e p)
  show ?case
  proof (cases "fst e = i")
    case True
    then have "take_pending i p = p" using Cons.prems(1)
      by (auto simp: take_pending_def filter_id_conv rev_image_eqI)
    then show ?thesis using True Cons.prems by (cases e) (simp add: take_pending_def)
  next
    case False
    then have "map_of p i = Some req" using Cons.prems(2) by (cases e) auto
    then show ?thesis using Cons False by (simp add: take_pending_def add_mset_commute)
  qed
qed simp

lemma take_pending_txs:
  assumes "distinct (map fst p)" and "map_of p i = Some req"
  shows "mset (map (pq_tx \<circ> snd) p) = add_mset (pq_tx req) (mset (map (pq_tx \<circ> snd) (take_pending i p)))"
  using arg_cong [OF take_pending_mset [OF assms], of "image_mset (pq_tx \<circ> snd)"] by simp

lemma update_pending_txs:
  assumes "distinct (map fst p)" and "map_of p i = Some req"
  shows "map (pq_tx \<circ> snd) (map (\<lambda>e. if fst e = i then (i, req\<lparr>pq_got := g\<rparr>) else e) p) = map (pq_tx \<circ> snd) p"
proof (simp, intro ballI impI)
  fix e assume "e \<in> set p" and "fst e = i"
  then have "map_of p i = Some (snd e)" using assms(1) by (metis map_of_is_SomeI prod.collapse)
  then show "pq_tx req = pq_tx (snd e)" using assms(2) by simp
qed

lemma places_submit:
  "places (submit wr cmd s) = add_mset (ac_tx cmd) (places s)"
  by (cases "wr (os_next_id s)") (simp_all add: submit_def Let_def places_def)

lemma submit_fields [simp]:
  "os_accepted (submit wr cmd s) = os_accepted s" "os_backlog (submit wr cmd s) = os_backlog s"
  "os_phase (submit wr cmd s) = os_phase s" "os_backoff (submit wr cmd s) = os_backoff s"
  "os_dropped (submit wr cmd s) = os_dropped s" "os_supervised (submit wr cmd s) = os_supervised s"
  by (cases "wr (os_next_id s)"; simp add: submit_def Let_def)+

lemma foldl_submit:
  "places (foldl (\<lambda>t cmd. submit wr cmd t) s cmds) = mset (map ac_tx cmds) + places s \<and>
   os_accepted (foldl (\<lambda>t cmd. submit wr cmd t) s cmds) = os_accepted s \<and>
   os_backlog (foldl (\<lambda>t cmd. submit wr cmd t) s cmds) = os_backlog s \<and>
   os_phase (foldl (\<lambda>t cmd. submit wr cmd t) s cmds) = os_phase s \<and>
   os_backoff (foldl (\<lambda>t cmd. submit wr cmd t) s cmds) = os_backoff s"
  by (induction cmds arbitrary: s) (simp_all add: places_submit)

lemma start_serving_fields [simp]:
  "os_accepted (start_serving wr s) = os_accepted s"
  "os_backlog (start_serving wr s) = []" "os_phase (start_serving wr s) = Serving False"
  "os_backoff (start_serving wr s) = os_backoff s"
  using foldl_submit [of wr "s\<lparr>os_backlog := [], os_phase := Serving False\<rparr>" "os_backlog s"]
  by (simp_all add: start_serving_def)

lemma places_start: "places (start_serving wr s) = places s"
proof -
  have "places (start_serving wr s) =
      mset (map ac_tx (os_backlog s)) + places (s\<lparr>os_backlog := [], os_phase := Serving False\<rparr>)"
    using foldl_submit [of wr "s\<lparr>os_backlog := [], os_phase := Serving False\<rparr>" "os_backlog s"]
    unfolding start_serving_def by blast
  then show ?thesis by (simp add: places_def)
qed

lemma places_fail_all: "places (fail_all msg s) = places s"
  by (simp add: places_def multiset.map_comp comp_def case_prod_beta)

lemma places_stop: "places (stop_owner s) = places s"
  by (simp add: places_def)

lemma places_fields [simp]:
  "places (s\<lparr>os_accepted := a\<rparr>) = places s" "places (s\<lparr>os_phase := p\<rparr>) = places s"
  "places (s\<lparr>os_backoff := n\<rparr>) = places s" "places (s\<lparr>os_status := st\<rparr>) = places s"
  "places (s\<lparr>os_started := c\<rparr>) = places s" "places (s\<lparr>os_positions := q\<rparr>) = places s"
  by (simp_all add: places_def)

lemma places_line:
  assumes "ids_ok s" and "handle_line rj (os_pending s) line = (p', rs, turn)"
  shows "places (s\<lparr>os_pending := p', os_replies := os_replies s @ rs, os_positions := n\<rparr>) = places s"
proof -
  have d: "distinct (map fst (os_pending s))" using assms(1) by (simp add: ids_ok_def)
  show ?thesis
    using assms(2)
  proof (cases rule: handle_line_cases)
    case same
    then show ?thesis by (simp add: places_def)
  next
    case (failed i req err)
    then show ?thesis using take_pending_txs [OF d failed(1)] by (simp add: places_def)
  next
    case (completed i req t)
    then show ?thesis using take_pending_txs [OF d completed(1)] by (simp add: places_def)
  next
    case (more i req t)
    have "map (pq_tx \<circ> snd) p' = map (pq_tx \<circ> snd) (os_pending s)"
      unfolding more(3) by (rule update_pending_txs [OF d more(1)])
    then have "mset (map (pq_tx \<circ> snd) p') = mset (map (pq_tx \<circ> snd) (os_pending s))" by simp
    then show ?thesis using more(2) unfolding places_def by simp
  qed
qed

lemma places_exited: "places (process_exited r s) = places s"
  by (simp add: process_exited_def Let_def places_stop places_fail_all)

lemma exited_accepted: "os_accepted (process_exited r s) = os_accepted s"
  by (simp add: process_exited_def Let_def)

lemma places_ok_step:
  assumes "ids_ok s" and "places_ok s" and "owner_step wr rj s e = Some s'" shows "places_ok s'"
proof (cases e)
  case (Stdout_Line line)
  then show ?thesis using assms places_line [OF assms(1)]
    by (auto simp: places_ok_def split: owner_phase.splits prod.splits)
next
  case (Cmd_Analyze cmd)
  then show ?thesis using assms
    by (auto simp: places_ok_def places_submit split: owner_phase.splits) (simp add: places_def)
next
  case Cmd_Shutdown
  have "places (stop_owner (s\<lparr>os_replies := os_replies s @ map (\<lambda>c. (ac_tx c, Inl shut_down_text)) (os_backlog s),
      os_backlog := [], os_status := Exited shut_down_text\<rparr>)) = places s"
    by (simp add: places_stop) (simp add: places_def multiset.map_comp comp_def)
  then show ?thesis using assms Cmd_Shutdown
    by (auto simp: places_ok_def places_stop places_fail_all split: owner_phase.splits)
qed (use assms in \<open>auto simp: places_ok_def places_stop places_exited exited_accepted places_start Let_def
       split: owner_phase.splits bool.splits if_splits\<close>)

lemma phase_ok_step:
  assumes "phase_ok s" and "owner_step wr rj s e = Some s'" shows "phase_ok s'"
  using assms
  by (cases e) (auto simp: phase_ok_def process_exited_def Let_def
      split: owner_phase.splits bool.splits if_splits prod.splits)

lemma reachable_ok:
  assumes "owner_reachable wr rj s" shows "ids_ok s \<and> places_ok s \<and> phase_ok s"
  using assms
proof (induction rule: owner_reachable.induct)
  case (reach_init supervised)
  then show ?case by (simp add: owner_init_def ids_ok_def places_ok_def places_def phase_ok_def)
next
  case (reach_step s e s')
  then show ?case using ids_ok_step places_ok_step phase_ok_step by blast
qed

lemma reachable_backoff:
  assumes "owner_reachable wr rj s" shows "1 \<le> os_backoff s \<and> os_backoff s \<le> 60"
  using assms
proof (induction rule: owner_reachable.induct)
  case (reach_init supervised)
  then show ?case by (simp add: owner_init_def RESTART_BACKOFF_MIN_def)
next
  case (reach_step s e s')
  then show ?case
    by (cases e) (auto simp: process_exited_def Let_def RESTART_BACKOFF_MIN_def RESTART_BACKOFF_MAX_def
        split: owner_phase.splits bool.splits if_splits prod.splits)
qed

section \<open>Books over commands, pending queries and replies\<close>

text \<open>A condition on the commands accepted, the pending queries and the replies sent, that errors and new
  commands cannot break: then only the lines of the process can, and it holds whenever every command
  satisfies what its entry in the table needs.\<close>

definition books_ok ::
  "(analyze_cmd list \<Rightarrow> pending_table \<Rightarrow> reply list \<Rightarrow> bool) \<Rightarrow> (analyze_cmd \<Rightarrow> bool) \<Rightarrow> owner_state \<Rightarrow> bool" where
  "books_ok books asks s =
     (set (os_backlog s) \<subseteq> set (os_accepted s) \<and>
      (list_all asks (os_accepted s) \<longrightarrow> books (os_accepted s) (os_pending s) (os_replies s)))"

locale reply_books =
  fixes books :: "analyze_cmd list \<Rightarrow> pending_table \<Rightarrow> reply list \<Rightarrow> bool"
    and asks :: "analyze_cmd \<Rightarrow> bool"
  assumes append: "books cmds p (rs @ rs') \<longleftrightarrow> books cmds p rs \<and> books cmds [] rs'"
    and errors: "list_all (\<lambda>(tx, r). isl r) rs \<Longrightarrow> books cmds [] rs"
    and no_pending: "books cmds p rs \<Longrightarrow> books cmds [] rs"
    and more: "books cmds p rs \<Longrightarrow> books (cmds @ [c]) p rs"
    and enter: "books cmds p rs \<Longrightarrow> c \<in> set cmds \<Longrightarrow> asks c \<Longrightarrow>
      books cmds (p @ [(i, \<lparr>pq_expected = ac_expected c, pq_got = [], pq_tx = ac_tx c\<rparr>)]) rs"
begin

lemma submit_keeps:
  assumes "books (os_accepted s) (os_pending s) (os_replies s)" and "cmd \<in> set (os_accepted s)" and "asks cmd"
  shows "books (os_accepted (submit wr cmd s)) (os_pending (submit wr cmd s)) (os_replies (submit wr cmd s))"
proof (cases "wr (os_next_id s)")
  case Written
  then show ?thesis using enter [OF assms] by (simp add: submit_def Let_def)
next
  case (Serialize_Failed err)
  then show ?thesis using assms(1) errors [of "[(_, Inl _)]"] by (simp add: submit_def Let_def append)
next
  case (Write_Failed err)
  then show ?thesis using assms(1) errors [of "[(_, Inl _)]"] by (simp add: submit_def Let_def append)
qed

lemma submissions_keep:
  assumes "set cmds \<subseteq> set (os_accepted s)" and "list_all asks (os_accepted s)"
    and "books (os_accepted s) (os_pending s) (os_replies s)"
  shows "books (os_accepted s) (os_pending (foldl (\<lambda>t cmd. submit wr cmd t) s cmds))
    (os_replies (foldl (\<lambda>t cmd. submit wr cmd t) s cmds))"
  using assms
proof (induction cmds arbitrary: s)
  case (Cons c cmds)
  then have "asks c" by (auto simp: list_all_iff)
  then show ?case using Cons submit_keeps [of s c wr] Cons.IH [of "submit wr c s"] by simp
qed simp

lemma start_keeps:
  assumes "books_ok books asks s"
  shows "books_ok books asks (start_serving wr s)"
proof -
  have "books (os_accepted s) (os_pending (start_serving wr s)) (os_replies (start_serving wr s))"
    if "list_all asks (os_accepted s)"
    using that assms submissions_keep [of "os_backlog s" "s\<lparr>os_backlog := [], os_phase := Serving False\<rparr>" wr]
    by (simp add: books_ok_def start_serving_def)
  then show ?thesis using assms by (simp add: books_ok_def)
qed

lemma failures_keep:
  "books cmds p rs \<Longrightarrow> books cmds [] (rs @ map (\<lambda>(y, x). (g x, Inl m)) ys)"
  "books cmds p rs \<Longrightarrow> books cmds [] (rs @ map (\<lambda>x. (f x, Inl m)) xs)"
  using no_pending by (auto simp: append list_all_iff intro!: errors)

lemma exited_keeps: "books_ok books asks s \<Longrightarrow> books_ok books asks (process_exited r s)"
  using failures_keep(1) by (auto simp: books_ok_def process_exited_def Let_def fail_all_def stop_owner_def)

lemma step_keeps:
  assumes ok: "books_ok books asks s" and step: "owner_step wr rj s e = Some s'"
    and lines: "\<And>line p' rs turn. e = Stdout_Line line \<Longrightarrow> handle_line rj (os_pending s) line = (p', rs, turn) \<Longrightarrow>
      list_all asks (os_accepted s) \<Longrightarrow> books (os_accepted s) p' (os_replies s @ rs)"
  shows "books_ok books asks s'"
proof (cases e)
  case (Cmd_Analyze cmd)
  have "books_ok books asks (submit wr cmd (s\<lparr>os_accepted := os_accepted s @ [cmd]\<rparr>))"
    using ok submit_keeps [of "s\<lparr>os_accepted := os_accepted s @ [cmd]\<rparr>" cmd wr] more
    by (auto simp: books_ok_def)
  then show ?thesis using ok step Cmd_Analyze more by (auto simp: books_ok_def split: owner_phase.splits)
next
  case (Stdout_Line line)
  then show ?thesis using ok step lines by (auto simp: books_ok_def split: owner_phase.splits prod.splits)
next
  case (Stdout_Closed r)
  then show ?thesis using ok step exited_keeps by (auto split: owner_phase.splits)
next
  case (Backoff_Over b)
  then show ?thesis using ok step start_keeps [of "s\<lparr>os_backoff := _, os_status := Starting\<rparr>" wr]
    by (auto simp: books_ok_def Let_def split: owner_phase.splits if_splits)
qed (use ok step failures_keep no_pending in \<open>auto simp: books_ok_def fail_all_def stop_owner_def
       split: owner_phase.splits bool.splits if_splits\<close>)

end

section \<open>Complete batches only\<close>

definition batch_ok :: "analyze_cmd list \<Rightarrow> pending_table \<Rightarrow> reply list \<Rightarrow> bool" where
  "batch_ok cmds p rs =
     ((\<forall>(_, req) \<in> set p. length (pq_got req) < pq_expected req \<and>
         (\<exists>c \<in> set cmds. ac_tx c = pq_tx req \<and> ac_expected c = pq_expected req)) \<and>
      (\<forall>(tx, r) \<in> set rs. \<forall>turns. r = Inr turns \<longrightarrow>
         (\<exists>c \<in> set cmds. ac_tx c = tx \<and> ac_expected c = length turns)))"

interpretation batches: reply_books batch_ok "\<lambda>c. 1 \<le> ac_expected c"
  by unfold_locales (fastforce simp: batch_ok_def list_all_iff)+

lemma batch_ok_line:
  assumes "batch_ok cmds p rs" and "handle_line rj p line = (p', rs', turn)"
  shows "batch_ok cmds p' (rs @ rs')"
  using assms(2)
proof (cases rule: handle_line_cases)
  case same
  then show ?thesis using assms(1) by simp
next
  case (failed i req err)
  then show ?thesis using assms(1) take_pending_sub [of i p] by (auto simp: batch_ok_def)
next
  case (completed i req t)
  have "(i, req) \<in> set p" using completed(1) by (rule map_of_SomeD)
  then have "length (pq_got req) < pq_expected req"
      "\<exists>c \<in> set cmds. ac_tx c = pq_tx req \<and> ac_expected c = pq_expected req"
    using assms(1) by (auto simp: batch_ok_def)
  then have "\<exists>c \<in> set cmds. ac_tx c = pq_tx req \<and> ac_expected c = length (pq_got req @ [t])"
    using completed(4) by auto
  then show ?thesis using assms(1) take_pending_sub [of i p] completed(2,3) by (auto simp: batch_ok_def)
next
  case (more i req t)
  have "(i, req) \<in> set p" using more(1) by (rule map_of_SomeD)
  then show ?thesis using assms(1) more(2,4) unfolding more(3) by (auto simp: batch_ok_def)
qed

lemma reachable_batches:
  assumes "owner_reachable wr rj s" shows "books_ok batch_ok (\<lambda>c. 1 \<le> ac_expected c) s"
  using assms
proof (induction rule: owner_reachable.induct)
  case (reach_init supervised)
  then show ?case by (simp add: owner_init_def books_ok_def batch_ok_def)
next
  case (reach_step s e s')
  then show ?case
    by (intro batches.step_keeps [OF reach_step.IH reach_step.hyps(2)] batch_ok_line [of "os_accepted s" "os_pending s"])
      (simp_all add: books_ok_def)
qed

section \<open>The stderr tail\<close>

lemma read_stderr_eq:
  "read_stderr ls = (drop (length ls - STDERR_TAIL_LINES) ls, \<exists>l \<in> set ls. contains_str READY_LINE l)"
proof (induction ls rule: rev_induct)
  case Nil
  then show ?case by (simp add: read_stderr_def)
next
  case (snoc l ls)
  define d where "d = drop (length ls - STDERR_TAIL_LINES) ls"
  have len: "length d = min (length ls) STDERR_TAIL_LINES" by (simp add: d_def)
  have "(if length d = STDERR_TAIL_LINES then tl d else d) @ [l] =
      drop (length (ls @ [l]) - STDERR_TAIL_LINES) (ls @ [l])"
  proof (cases "STDERR_TAIL_LINES \<le> length ls")
    case True
    then have "tl d = drop (Suc (length ls - STDERR_TAIL_LINES)) ls"
      unfolding d_def by (simp only: drop_Suc tl_drop)
    moreover have "Suc (length ls - STDERR_TAIL_LINES) = length (ls @ [l]) - STDERR_TAIL_LINES"
      using True by simp
    ultimately have "tl d @ [l] = drop (length (ls @ [l]) - STDERR_TAIL_LINES) (ls @ [l])"
      by (simp add: STDERR_TAIL_LINES_def)
    moreover have "length d = STDERR_TAIL_LINES" using True len by simp
    ultimately show ?thesis by simp
  next
    case False
    then show ?thesis using len by (simp add: d_def)
  qed
  moreover have "read_stderr (ls @ [l]) = stderr_line (read_stderr ls) l" by (simp add: read_stderr_def)
  ultimately show ?case
    unfolding snoc.IH d_def [symmetric] stderr_line_def Let_def prod.case by auto
qed

section \<open>Nobody is dropped before the end\<close>

lemma start_serving_dropped [simp]: "os_dropped (start_serving wr s) = os_dropped s"
proof -
  have "os_dropped (foldl (\<lambda>t cmd. submit wr cmd t) t cmds) = os_dropped t" for t cmds
    by (induction cmds arbitrary: t) simp_all
  then show ?thesis by (simp add: start_serving_def)
qed

lemma reachable_dropped:
  assumes "owner_reachable wr rj s" shows "os_phase s = Stopped \<or> os_dropped s = []"
  using assms
proof (induction rule: owner_reachable.induct)
  case (reach_init supervised)
  then show ?case by (simp add: owner_init_def)
next
  case (reach_step s e s')
  then show ?case
    by (cases e) (auto simp: process_exited_def Let_def
        split: owner_phase.splits bool.splits if_splits prod.splits)
qed

lemma reachable_run:
  "owner_reachable wr rj s \<Longrightarrow> owner_run wr rj s es = Some s' \<Longrightarrow> owner_reachable wr rj s'"
  by (induction es arbitrary: s) (auto split: option.splits intro: reach_step)

section \<open>Properties\<close>

text \<open>C8. Every query the owner accepted is in exactly one place: waiting for the process, held for a
  relaunch, answered once, or dropped; the process knows each by its own id; and a stopped owner
  holds none.\<close>

theorem owner_answers_once:
  assumes "owner_reachable wr rj s"
  shows "mset (map ac_tx (os_accepted s)) =
      mset (map (pq_tx \<circ> snd) (os_pending s)) + mset (map ac_tx (os_backlog s)) +
      mset (map fst (os_replies s)) + mset (os_dropped s) \<and>
    distinct (map fst (os_pending s)) \<and>
    (os_phase s = Stopped \<longrightarrow> os_pending s = [] \<and> os_backlog s = [])"
  using reachable_ok [OF assms] by (auto simp: places_ok_def places_def ids_ok_def phase_ok_def)

definition sample_cmd :: "nat \<Rightarrow> analyze_cmd" where
  "sample_cmd tx = \<lparr>ac_query = analyze_query sample_game (default_engine_config None) [0] 100 0 None,
                    ac_expected = 1, ac_tx = tx\<rparr>"

definition sample_json :: json_reader where
  "sample_json line = Some \<lparr>lj_id = Some line, lj_error = None, lj_warning = None,
     lj_turn = Some \<lparr>turn_number = 0, tr_root_info = None, tr_move_infos = [], tr_ownership = None,
                     tr_ownership_stdev = None, tr_policy = None, tr_human_policy = None\<rparr>\<rparr>"

definition sample_events :: "owner_event list" where
  "sample_events = [Ready_Signal True, Cmd_Analyze (sample_cmd 7), Stdout_Line (query_id 0),
     Cmd_Analyze (sample_cmd 8), Stdout_Closed \<lparr>xr_status = ''signal: 9'', xr_stderr = []\<rparr>,
     Cmd_Analyze (sample_cmd 9), Backoff_Over False, Backoff_Over True]"

lemma query_id_simps [simp]: "query_id j = query_id k \<longleftrightarrow> j = k"
  using query_id_inj by blast

lemma sample_run_fields:
  "map_option (\<lambda>s. (map fst (os_replies s), map (pq_tx \<circ> snd) (os_pending s), os_phase s, os_dropped s,
      map ac_tx (os_backlog s), os_backoff s, os_supervised s, os_started s,
      map (\<lambda>c. (ac_tx c, ac_expected c)) (os_accepted s), map (map_sum (\<lambda>_. ()) length \<circ> snd) (os_replies s)))
     (owner_run (\<lambda>_. Written) sample_json (owner_init True) sample_events) =
   Some ([7, 8], [9], Serving False, [], [], 4, True, True, [(7, 1), (8, 1), (9, 1)], [Inr 1, Inl ()])"
  by code_simp

lemma sample_run:
  obtains s where "owner_run (\<lambda>_. Written) sample_json (owner_init True) sample_events = Some s"
    and "map fst (os_replies s) = [7, 8]" and "map (pq_tx \<circ> snd) (os_pending s) = [9]"
    and "os_phase s = Serving False" and "os_dropped s = []" and "os_backlog s = []"
    and "os_supervised s" and "os_started s" and "\<forall>c \<in> set (os_accepted s). 1 \<le> ac_expected c"
    and "\<exists>t. (7, Inr [t]) \<in> set (os_replies s)"
proof -
  from sample_run_fields obtain s where
    s: "owner_run (\<lambda>_. Written) sample_json (owner_init True) sample_events = Some s"
      "map fst (os_replies s) = [7, 8]" "map (pq_tx \<circ> snd) (os_pending s) = [9]"
      "os_phase s = Serving False" "os_dropped s = []" "os_backlog s = []"
      "os_supervised s" "os_started s"
    and acc: "map (\<lambda>c. (ac_tx c, ac_expected c)) (os_accepted s) = [(7, 1), (8, 1), (9, 1)]"
    and rep: "map (map_sum (\<lambda>_. ()) length \<circ> snd) (os_replies s) = [Inr 1, Inl ()]"
    by auto
  have "\<forall>c \<in> set (os_accepted s). 1 \<le> ac_expected c"
    using arg_cong [OF acc, of set] by (auto simp: image_iff set_eq_iff) (metis order_refl)
  moreover have "\<exists>t. (7, Inr [t]) \<in> set (os_replies s)"
  proof -
    obtain r rs where r: "os_replies s = r # rs" using rep by (cases "os_replies s") auto
    then have "fst r = 7" "map_sum (\<lambda>_. ()) length (snd r) = Inr 1" using s(2) rep by auto
    then obtain ts where "snd r = Inr ts" "length ts = 1" by (cases "snd r") auto
    then obtain t where "r = (7, Inr [t])"
      using \<open>fst r = 7\<close> by (cases r; cases ts) auto
    then show ?thesis using r by auto
  qed
  ultimately show thesis by (rule that [OF s])
qed

theorem owner_answers_once_witness:
  "\<exists>s. owner_run (\<lambda>_. Written) sample_json (owner_init True) sample_events = Some s \<and>
     mset (map fst (os_replies s)) + {#9#} = mset (map ac_tx (os_accepted s))"
proof -
  obtain s where s: "owner_run (\<lambda>_. Written) sample_json (owner_init True) sample_events = Some s"
      "map (pq_tx \<circ> snd) (os_pending s) = [9]" "os_backlog s = []" "os_dropped s = []"
    by (rule sample_run) (rule that)
  then have "owner_reachable (\<lambda>_. Written) sample_json s" using reachable_run reach_init by blast
  from owner_answers_once [OF this] show ?thesis using s by (intro exI [of _ s]) (simp del: mset_map)
qed

text \<open>A caller that is answered with turns gets a complete batch: as many responses as it asked
  for, never fewer.\<close>

lemma owner_complete_batches:
  assumes "owner_reachable wr rj s" and "\<forall>c \<in> set (os_accepted s). 1 \<le> ac_expected c"
    and "(tx, Inr turns) \<in> set (os_replies s)"
  shows "\<exists>c \<in> set (os_accepted s). ac_tx c = tx \<and> ac_expected c = length turns"
proof -
  have "batch_ok (os_accepted s) (os_pending s) (os_replies s)"
    using reachable_batches [OF assms(1)] assms(2) by (simp add: books_ok_def list_all_iff)
  then show ?thesis using assms(3) by (auto simp: batch_ok_def)
qed

lemma owner_complete_batches_witness:
  "\<exists>s t. owner_run (\<lambda>_. Written) sample_json (owner_init True) sample_events = Some s \<and>
     (7, Inr [t]) \<in> set (os_replies s) \<and> (\<exists>c \<in> set (os_accepted s). ac_tx c = 7 \<and> ac_expected c = length [t])"
proof -
  obtain s where s: "owner_run (\<lambda>_. Written) sample_json (owner_init True) sample_events = Some s"
      "\<forall>c \<in> set (os_accepted s). 1 \<le> ac_expected c" "\<exists>t. (7, Inr [t]) \<in> set (os_replies s)"
    by (rule sample_run) (rule that)
  then obtain t where t: "(7, Inr [t]) \<in> set (os_replies s)" by blast
  have r: "owner_reachable (\<lambda>_. Written) sample_json s" using s(1) reachable_run reach_init by blast
  from owner_complete_batches [OF r s(2) t] show ?thesis using s(1) t by blast
qed

text \<open>C32. A shutdown, whether the process runs or is being waited for, answers every query the owner
  ever accepted and drops none.\<close>

theorem owner_shutdown_answers_all:
  assumes "owner_reachable wr rj s" and "owner_step wr rj s Cmd_Shutdown = Some s'"
  shows "os_phase s' = Stopped \<and> os_dropped s' = [] \<and> os_status s' = Exited shut_down_text \<and>
    mset (map fst (os_replies s')) = mset (map ac_tx (os_accepted s'))"
proof -
  have "owner_reachable wr rj s'" using assms by (rule reach_step)
  from reachable_ok [OF this] have "mset (map ac_tx (os_accepted s')) = places s'"
    by (simp add: places_ok_def)
  moreover have "os_phase s \<noteq> Stopped" using assms(2) by auto
  then have d: "os_dropped s = []" using reachable_dropped [OF assms(1)] by simp
  have ph: "phase_ok s" using reachable_ok [OF assms(1)] by simp
  have "os_pending s' = []" "os_backlog s' = []" "os_phase s' = Stopped" "os_dropped s' = []"
      "os_status s' = Exited shut_down_text"
    using assms(2) d ph by (auto simp: phase_ok_def stop_owner_def split: owner_phase.splits)
  ultimately show ?thesis by (simp add: places_def)
qed

theorem owner_shutdown_answers_all_witness:
  "\<exists>s s'. owner_run (\<lambda>_. Written) sample_json (owner_init True) sample_events = Some s \<and>
     owner_step (\<lambda>_. Written) sample_json s Cmd_Shutdown = Some s' \<and> os_dropped s' = []"
proof -
  obtain s where s: "owner_run (\<lambda>_. Written) sample_json (owner_init True) sample_events = Some s"
      "os_phase s = Serving False"
    by (rule sample_run) (rule that)
  then have r: "owner_reachable (\<lambda>_. Written) sample_json s" using reachable_run reach_init by blast
  obtain s' where s': "owner_step (\<lambda>_. Written) sample_json s Cmd_Shutdown = Some s'" using s(2) by simp
  from owner_shutdown_answers_all [OF r s'] show ?thesis using s(1) s' by blast
qed



text \<open>The stderr reader keeps exactly the last thirty lines and has seen the ready announcement
  exactly when some line contained it.\<close>

lemma stderr_tail:
  "read_stderr ls = (drop (length ls - 30) ls, \<exists>l \<in> set ls. contains_str READY_LINE l)"
  using read_stderr_eq [of ls] by (simp add: STDERR_TAIL_LINES_def)

end
