(* ===== verification/Job_Store.thy ===== *)
theory Job_Store
  imports App_Error Rust_Float
begin

text \<open>
  The job store (\<open>src/src/db\<close>, \<open>src/migrations\<close>) and what it enqueues: the \<open>jobs\<close> table with its
  trigger and CHECK constraint, the guarded transitions, the queries behind the list, the feed and
  the stream.  Each function of \<open>db\<close> is one statement or one transaction, so it is one atomic step
  on the store.  Times are microseconds of the database's clock and \<open>now\<close> is an argument; ids are
  minted by \<open>mint\<close> (\<open>uuidv7()\<close>) from the position in the change sequence; \<open>send\<close> is pgmq's
  (\<open>None\<close>: accepted).  The \<open>j\<close> of \<open>JSONB\<close> is \<open>json\<close>, \<open>serde_json::Value\<close> as its documentation
  lists it.
\<close>

section \<open>Model\<close>

datatype json =
    J_Null
  | J_Bool bool
  | J_Int int
  | J_Float fl
  | J_Str string
  | J_Arr "json list"
  | J_Obj "(string \<times> json) list"

fun json_get :: "string \<Rightarrow> json \<Rightarrow> json option" where
  "json_get k (J_Obj kvs) = map_of kvs k"
| "json_get k _ = None"

fun json_u64 :: "json \<Rightarrow> nat option" where
  "json_u64 (J_Int i) = (if 0 \<le> i \<and> nat i \<le> usize_max then Some (nat i) else None)"
| "json_u64 _ = None"

datatype job_status = Queued | Running | Done | Failed

fun status_str :: "job_status \<Rightarrow> string" where
  "status_str Queued = ''queued''"
| "status_str Running = ''running''"
| "status_str Done = ''done''"
| "status_str Failed = ''failed''"

type_synonym uuid = nat

text \<open>A row of \<open>jobs\<close>, in the order of \<open>schema.rs\<close>.\<close>

record job_row =
  jr_id :: uuid
  jr_status :: job_status
  jr_result :: "json option"
  jr_error :: "string option"
  jr_last_error :: "string option"
  jr_created_at :: int
  jr_updated_at :: int
  jr_change_seq :: nat

text \<open>The projections \<open>Job\<close> and \<open>JobSummary\<close>.\<close>

record job_view =
  jv_id :: uuid
  jv_status :: job_status
  jv_result :: "json option"
  jv_error :: "string option"

record job_summary =
  js_id :: uuid
  js_status :: job_status
  js_error :: "string option"
  js_created_at :: int
  js_updated_at :: int

definition as_job :: "job_row \<Rightarrow> job_view" where
  "as_job r = \<lparr>jv_id = jr_id r, jv_status = jr_status r, jv_result = jr_result r, jv_error = jr_error r\<rparr>"

definition as_summary :: "job_row \<Rightarrow> job_summary" where
  "as_summary r = \<lparr>js_id = jr_id r, js_status = jr_status r, js_error = jr_error r,
                   js_created_at = jr_created_at r, js_updated_at = jr_updated_at r\<rparr>"

record new_job =
  nj_sgf :: string
  nj_human_profile :: "string option"

record job_message =
  jm_job_id :: uuid
  jm_sgf :: string
  jm_human_profile :: "string option"

definition into_message :: "new_job \<Rightarrow> uuid \<Rightarrow> job_message" where
  "into_message job i = \<lparr>jm_job_id = i, jm_sgf = nj_sgf job, jm_human_profile = nj_human_profile job\<rparr>"

text \<open>The store: the table, the change sequence, and the messages sent in committed transactions.\<close>

record store =
  st_rows :: "job_row list"
  st_seq :: nat
  st_sent :: "job_message list"

definition NON_TERMINAL :: "job_status list" where
  "NON_TERMINAL = [Queued, Running]"

text \<open>The CHECK constraint \<open>jobs_result_xor_error\<close>.\<close>

definition result_xor_error :: "job_row \<Rightarrow> bool" where
  "result_xor_error r =
     (jr_status r \<in> {Queued, Running} \<and> jr_result r = None \<and> jr_error r = None \<or>
      jr_status r = Done \<and> jr_result r \<noteq> None \<and> jr_error r = None \<or>
      jr_status r = Failed \<and> jr_error r \<noteq> None \<and> jr_result r = None)"

text \<open>The trigger \<open>jobs_stamp_change\<close>, and the INSERT of a row of defaults.\<close>

definition stamp_change :: "int \<Rightarrow> nat \<Rightarrow> job_row \<Rightarrow> job_row" where
  "stamp_change now n r = r\<lparr>jr_change_seq := n, jr_updated_at := now\<rparr>"

definition default_row :: "uuid \<Rightarrow> int \<Rightarrow> job_row" where
  "default_row i now = \<lparr>jr_id = i, jr_status = Queued, jr_result = None, jr_error = None,
     jr_last_error = None, jr_created_at = now, jr_updated_at = now, jr_change_seq = 0\<rparr>"

definition insert_default :: "(nat \<Rightarrow> uuid) \<Rightarrow> int \<Rightarrow> store \<Rightarrow> uuid app_result \<times> store" where
  "insert_default mint now s =
     (let n = st_seq s + 1; i = mint n in
      if i \<in> jr_id ` set (st_rows s) then
        (Inl (from_diesel ''duplicate key value violates unique constraint''), s\<lparr>st_seq := n\<rparr>)
      else
        (Inr i, s\<lparr>st_seq := n, st_rows := st_rows s @ [stamp_change now n (default_row i now)]\<rparr>))"

definition publish :: "(job_message \<Rightarrow> string option) \<Rightarrow> job_message \<Rightarrow> store \<Rightarrow> unit app_result \<times> store" where
  "publish send m s =
     (case send m of
        Some err \<Rightarrow> (Inl (Queue err), s)
      | None \<Rightarrow> (Inr (), s\<lparr>st_sent := st_sent s @ [m]\<rparr>))"

text \<open>A transaction: on an error everything is rolled back but the sequence.\<close>

definition transaction :: "(store \<Rightarrow> 'a app_result \<times> store) \<Rightarrow> store \<Rightarrow> 'a app_result \<times> store" where
  "transaction body s =
     (case body s of
        (Inr x, s') \<Rightarrow> (Inr x, s')
      | (Inl e, s') \<Rightarrow> (Inl e, s\<lparr>st_seq := st_seq s'\<rparr>))"

definition submit_one ::
  "(nat \<Rightarrow> uuid) \<Rightarrow> (job_message \<Rightarrow> string option) \<Rightarrow> int \<Rightarrow> new_job \<Rightarrow> store \<Rightarrow> uuid app_result \<times> store" where
  "submit_one mint send now job s =
     (case insert_default mint now s of
        (Inl e, s1) \<Rightarrow> (Inl e, s1)
      | (Inr i, s1) \<Rightarrow>
          (case publish send (into_message job i) s1 of
             (Inl e, s2) \<Rightarrow> (Inl e, s2)
           | (Inr _, s2) \<Rightarrow> (Inr i, s2)))"

definition db_submit ::
  "(nat \<Rightarrow> uuid) \<Rightarrow> (job_message \<Rightarrow> string option) \<Rightarrow> int \<Rightarrow> new_job \<Rightarrow> store \<Rightarrow> uuid app_result \<times> store" where
  "db_submit mint send now job = transaction (submit_one mint send now job)"

fun submit_all ::
  "(nat \<Rightarrow> uuid) \<Rightarrow> (job_message \<Rightarrow> string option) \<Rightarrow> int \<Rightarrow> new_job list \<Rightarrow> store
     \<Rightarrow> uuid list app_result \<times> store" where
  "submit_all mint send now [] s = (Inr [], s)"
| "submit_all mint send now (job # jobs) s =
     (case submit_one mint send now job s of
        (Inl e, s1) \<Rightarrow> (Inl e, s1)
      | (Inr i, s1) \<Rightarrow>
          (case submit_all mint send now jobs s1 of
             (Inl e, s2) \<Rightarrow> (Inl e, s2)
           | (Inr ids, s2) \<Rightarrow> (Inr (i # ids), s2)))"

definition submit_many ::
  "(nat \<Rightarrow> uuid) \<Rightarrow> (job_message \<Rightarrow> string option) \<Rightarrow> int \<Rightarrow> new_job list \<Rightarrow> store
     \<Rightarrow> uuid list app_result \<times> store" where
  "submit_many mint send now jobs s =
     (if jobs = [] then (Inr [], s) else transaction (submit_all mint send now jobs) s)"

text \<open>\<open>UPDATE jobs SET ... WHERE id = i AND status IN NON_TERMINAL\<close>, through the trigger.  The id is
  the primary key, so at most one row matches.\<close>

definition guarded_update :: "int \<Rightarrow> uuid \<Rightarrow> (job_row \<Rightarrow> job_row) \<Rightarrow> store \<Rightarrow> store" where
  "guarded_update now i f s =
     (if \<exists>r \<in> set (st_rows s). jr_id r = i \<and> jr_status r \<in> set NON_TERMINAL then
        s\<lparr>st_seq := st_seq s + 1,
          st_rows := map (\<lambda>r. if jr_id r = i \<and> jr_status r \<in> set NON_TERMINAL
                             then stamp_change now (st_seq s + 1) (f r) else r) (st_rows s)\<rparr>
      else s)"

definition set_running :: "int \<Rightarrow> uuid \<Rightarrow> store \<Rightarrow> store" where
  "set_running now i = guarded_update now i (\<lambda>r. r\<lparr>jr_status := Running\<rparr>)"

definition record_attempt_failure :: "int \<Rightarrow> uuid \<Rightarrow> string \<Rightarrow> store \<Rightarrow> store" where
  "record_attempt_failure now i err = guarded_update now i (\<lambda>r. r\<lparr>jr_last_error := Some err\<rparr>)"

definition set_done :: "int \<Rightarrow> uuid \<Rightarrow> json \<Rightarrow> store \<Rightarrow> store" where
  "set_done now i res =
     guarded_update now i (\<lambda>r. r\<lparr>jr_status := Done, jr_result := Some res, jr_error := None\<rparr>)"

definition set_failed :: "int \<Rightarrow> uuid \<Rightarrow> string \<Rightarrow> store \<Rightarrow> store" where
  "set_failed now i err =
     guarded_update now i (\<lambda>r. r\<lparr>jr_status := Failed, jr_error := Some err, jr_result := None\<rparr>)"

text \<open>The queries; rows that tie in their sort key come in table order.\<close>

definition list_jobs :: "store \<Rightarrow> job_summary list" where
  "list_jobs s = map as_summary (sort_key (\<lambda>r. - jr_created_at r) (st_rows s))"

definition jobs_in_state :: "job_status \<Rightarrow> nat \<Rightarrow> store \<Rightarrow> job_summary list" where
  "jobs_in_state st limit s =
     map as_summary (take limit (sort_key jr_created_at (filter (\<lambda>r. jr_status r = st) (st_rows s))))"

definition count_in_state :: "job_status \<Rightarrow> store \<Rightarrow> nat" where
  "count_in_state st s = length (filter (\<lambda>r. jr_status r = st) (st_rows s))"

definition get_job :: "uuid \<Rightarrow> store \<Rightarrow> job_view option" where
  "get_job i s = map_option as_job (find (\<lambda>r. jr_id r = i) (st_rows s))"

definition rows_since :: "nat \<Rightarrow> store \<Rightarrow> job_row list" where
  "rows_since cursor s = sort_key jr_change_seq (filter (\<lambda>r. cursor < jr_change_seq r) (st_rows s))"

definition changes_since :: "nat \<Rightarrow> store \<Rightarrow> (nat \<times> job_summary) list" where
  "changes_since cursor s = map (\<lambda>r. (jr_change_seq r, as_summary r)) (rows_since cursor s)"

definition settled :: "int \<Rightarrow> nat \<Rightarrow> job_row \<Rightarrow> bool" where
  "settled now settle_secs r = (jr_updated_at r \<le> now - int settle_secs * 1000000)"

definition settled_changes ::
  "int \<Rightarrow> nat \<Rightarrow> nat \<Rightarrow> nat \<Rightarrow> store \<Rightarrow> (nat \<times> job_summary) list \<times> bool" where
  "settled_changes now cursor limit settle_secs s =
     (let rows = take limit (rows_since cursor s);
          ready = map (\<lambda>r. (jr_change_seq r, as_summary r)) (takeWhile (settled now settle_secs) rows)
      in (ready, length ready < length rows))"

definition latest_change_seq :: "store \<Rightarrow> nat" where
  "latest_change_seq s = foldr max (map jr_change_seq (st_rows s)) 0"

section \<open>The invariant of the table\<close>

definition store_inv :: "store \<Rightarrow> bool" where
  "store_inv s =
     (distinct (map jr_id (st_rows s)) \<and> distinct (map jr_change_seq (st_rows s)) \<and>
      (\<forall>r \<in> set (st_rows s). result_xor_error r \<and> 1 \<le> jr_change_seq r \<and> jr_change_seq r \<le> st_seq s))"

definition terminal :: "job_row \<Rightarrow> bool" where
  "terminal r = (jr_status r \<notin> set NON_TERMINAL)"

lemma terminal_iff: "terminal r \<longleftrightarrow> jr_status r = Done \<or> jr_status r = Failed"
  by (cases "jr_status r") (simp_all add: terminal_def NON_TERMINAL_def)

definition row_of :: "uuid \<Rightarrow> store \<Rightarrow> job_row option" where
  "row_of i s = find (\<lambda>r. jr_id r = i) (st_rows s)"

lemma row_of_Some: "row_of i s = Some r \<Longrightarrow> r \<in> set (st_rows s) \<and> jr_id r = i"
  by (auto simp: row_of_def find_Some_iff)

lemma row_of_mem: "store_inv s \<Longrightarrow> r \<in> set (st_rows s) \<Longrightarrow> row_of (jr_id r) s = Some r"
proof -
  assume inv: "store_inv s" and r: "r \<in> set (st_rows s)"
  then obtain r' where r': "row_of (jr_id r) s = Some r'"
    unfolding row_of_def by (cases "find (\<lambda>x. jr_id x = jr_id r) (st_rows s)") (auto simp: find_None_iff)
  then have "r' = r"
    using row_of_Some [OF r'] r inv unfolding store_inv_def by (metis distinct_map inj_onD)
  with r' show ?thesis by simp
qed

text \<open>What every write to the table promises its callers: the invariant, no terminal row touched, the
  sequence only grows, rows are never lost, and whatever it changes gets a fresh number.\<close>

locale table_write =
  fixes upd :: "store \<Rightarrow> store"
  assumes keeps_inv: "store_inv s \<Longrightarrow> store_inv (upd s)"
    and keeps_terminal: "store_inv s \<Longrightarrow> row_of i s = Some r \<Longrightarrow> terminal r \<Longrightarrow> row_of i (upd s) = Some r"
    and seq_grows: "st_seq s \<le> st_seq (upd s)"
    and keeps_rows: "jr_id ` set (st_rows s) \<subseteq> jr_id ` set (st_rows (upd s))"
    and stamps: "r \<in> set (st_rows (upd s)) \<Longrightarrow> r \<in> set (st_rows s) \<or> st_seq s < jr_change_seq r"
begin

lemma feed_complete:
  assumes "c \<le> st_seq s" and "r \<in> set (st_rows (upd s))" and "r \<notin> set (st_rows s)"
  shows "(jr_change_seq r, as_summary r) \<in> set (changes_since c (upd s))"
  using stamps [OF assms(2)] assms by (auto simp: changes_since_def rows_since_def)

lemma feed_exact:
  assumes "store_inv s"
  shows "set (changes_since (st_seq s) (upd s)) =
    (\<lambda>r. (jr_change_seq r, as_summary r)) ` (set (st_rows (upd s)) - set (st_rows s))"
proof -
  have "\<not> st_seq s < jr_change_seq r" if "r \<in> set (st_rows s)" for r
    using assms that by (auto simp: store_inv_def)
  then show ?thesis using stamps by (auto simp: changes_since_def rows_since_def)
qed

end

lemma find_map_same:
  "(\<And>r. jr_id (f r) = jr_id r) \<Longrightarrow>
     find (\<lambda>r. jr_id r = i) (map f rs) = map_option f (find (\<lambda>r. jr_id r = i) rs)"
  by (induction rs) auto

lemma guarded_update_rows:
  "st_rows (guarded_update now i f s) =
     map (\<lambda>r. if jr_id r = i \<and> \<not> terminal r then stamp_change now (st_seq s + 1) (f r) else r) (st_rows s)"
proof (cases "\<exists>r \<in> set (st_rows s). jr_id r = i \<and> jr_status r \<in> set NON_TERMINAL")
  case True
  then show ?thesis by (simp add: guarded_update_def terminal_def)
next
  case False
  then show ?thesis
    by (auto simp: guarded_update_def terminal_def intro!: map_idI [symmetric])
qed

lemma stamp_change_simps [simp]:
  "jr_id (stamp_change now n r) = jr_id r" "jr_status (stamp_change now n r) = jr_status r"
  "jr_change_seq (stamp_change now n r) = n" "jr_updated_at (stamp_change now n r) = now"
  "jr_result (stamp_change now n r) = jr_result r" "jr_error (stamp_change now n r) = jr_error r"
  by (simp_all add: stamp_change_def)

lemma row_of_guarded_update:
  assumes "\<And>r. jr_id (f r) = jr_id r"
  shows "row_of k (guarded_update now i f s) =
    map_option (\<lambda>r. if jr_id r = i \<and> \<not> terminal r then stamp_change now (st_seq s + 1) (f r) else r) (row_of k s)"
  unfolding row_of_def guarded_update_rows using assms by (intro find_map_same) simp

lemma guarded_update_table_write:
  assumes "\<And>r. jr_id (f r) = jr_id r"
    and "\<And>r. result_xor_error r \<Longrightarrow> \<not> terminal r \<Longrightarrow> result_xor_error (f r)"
  shows "table_write (guarded_update now i f)"
proof
  let ?w = "guarded_update now i f"
  let ?g = "\<lambda>s r. if jr_id r = i \<and> \<not> terminal r then stamp_change now (st_seq s + 1) (f r) else r"
  fix s :: store
  have ids: "map jr_id (st_rows (?w s)) = map jr_id (st_rows s)"
    using assms(1) by (simp add: guarded_update_rows comp_def cong: map_cong)
  have seq: "st_seq (?w s) = (if \<exists>r \<in> set (st_rows s). jr_id r = i \<and> \<not> terminal r then st_seq s + 1 else st_seq s)"
    by (simp add: guarded_update_def terminal_def)
  show "st_seq s \<le> st_seq (?w s)" by (simp add: seq)
  show "jr_id ` set (st_rows s) \<subseteq> jr_id ` set (st_rows (?w s))"
    using arg_cong [OF ids, of set] by simp
  show "r \<in> set (st_rows s) \<or> st_seq s < jr_change_seq r" if "r \<in> set (st_rows (?w s))" for r
    using that by (auto simp: guarded_update_rows)
  show "row_of k (?w s) = Some r" if "store_inv s" "row_of k s = Some r" "terminal r" for k r
    using that by (simp add: row_of_guarded_update assms(1))
  show "store_inv (?w s)" if inv: "store_inv s"
  proof -
    have d: "distinct (map jr_id (st_rows s))" "distinct (map jr_change_seq (st_rows s))"
      and rows: "\<And>r. r \<in> set (st_rows s) \<Longrightarrow> result_xor_error r \<and> 1 \<le> jr_change_seq r \<and> jr_change_seq r \<le> st_seq s"
      using inv by (auto simp: store_inv_def)
    have "inj_on (\<lambda>r. jr_change_seq (?g s r)) (set (st_rows s))"
    proof (rule inj_onI)
      fix a b assume ab: "a \<in> set (st_rows s)" "b \<in> set (st_rows s)"
        and eq: "jr_change_seq (?g s a) = jr_change_seq (?g s b)"
      show "a = b"
      proof (cases "jr_id a = i \<and> \<not> terminal a \<and> jr_id b = i")
        case True
        then show ?thesis using ab d(1) by (auto simp: distinct_map dest: inj_onD)
      next
        case False
        then have "jr_change_seq a = jr_change_seq b"
          using eq rows [OF ab(1)] rows [OF ab(2)] by (auto split: if_splits)
        then show ?thesis using ab d(2) by (auto simp: distinct_map dest: inj_onD)
      qed
    qed
    then have "distinct (map jr_change_seq (st_rows (?w s)))"
      using d(1) unfolding guarded_update_rows map_map distinct_map comp_def by blast
    moreover have "result_xor_error (?g s r) \<and> 1 \<le> jr_change_seq (?g s r) \<and>
        jr_change_seq (?g s r) \<le> st_seq (?w s)" if "r \<in> set (st_rows s)" for r
      using rows [OF that] that assms(2) [of r] seq
      by (auto simp: result_xor_error_def stamp_change_def)
    then have "\<forall>r \<in> set (st_rows (?w s)). result_xor_error r \<and> 1 \<le> jr_change_seq r \<and>
        jr_change_seq r \<le> st_seq (?w s)"
      unfolding guarded_update_rows set_map by blast
    ultimately show ?thesis
      using d(1) unfolding store_inv_def ids by blast
  qed
qed

interpretation running_write: table_write "set_running now i" for now i
  unfolding set_running_def
  by (rule guarded_update_table_write) (auto simp: result_xor_error_def terminal_iff)

interpretation attempt_write: table_write "record_attempt_failure now i err" for now i err
  unfolding record_attempt_failure_def
  by (rule guarded_update_table_write) (auto simp: result_xor_error_def)

interpretation done_write: table_write "set_done now i res" for now i res
  unfolding set_done_def
  by (rule guarded_update_table_write) (auto simp: result_xor_error_def)

interpretation failed_write: table_write "set_failed now i err" for now i err
  unfolding set_failed_def
  by (rule guarded_update_table_write) (auto simp: result_xor_error_def)

section \<open>Submissions are table writes too\<close>

lemmas table_write_laws = table_write.keeps_inv table_write.keeps_terminal table_write.seq_grows
  table_write.keeps_rows table_write.stamps

lemma table_write_comp:
  assumes u: "table_write u" and v: "table_write v" shows "table_write (\<lambda>s. v (u s))"
proof
  fix s :: store
  show "store_inv s \<Longrightarrow> store_inv (v (u s))"
    using table_write.keeps_inv [OF u] table_write.keeps_inv [OF v] by blast
  show "store_inv s \<Longrightarrow> row_of i s = Some r \<Longrightarrow> terminal r \<Longrightarrow> row_of i (v (u s)) = Some r" for i r
    using table_write.keeps_inv [OF u] table_write.keeps_terminal [OF u] table_write.keeps_terminal [OF v]
    by blast
  show "st_seq s \<le> st_seq (v (u s))"
    using table_write.seq_grows [OF u, of s] table_write.seq_grows [OF v, of "u s"] by linarith
  show "jr_id ` set (st_rows s) \<subseteq> jr_id ` set (st_rows (v (u s)))"
    using table_write.keeps_rows [OF u, of s] table_write.keeps_rows [OF v, of "u s"] by blast
  show "r \<in> set (st_rows (v (u s))) \<Longrightarrow> r \<in> set (st_rows s) \<or> st_seq s < jr_change_seq r" for r
    using table_write.stamps [OF v, of r "u s"] table_write.stamps [OF u, of r s]
      table_write.seq_grows [OF u, of s] by linarith
qed

lemma table_write_id: "table_write (\<lambda>s. s)"
  by unfold_locales auto

lemma table_write_foldl:
  assumes "\<And>x. table_write (f x)" shows "table_write (\<lambda>s. foldl (\<lambda>t x. f x t) s xs)"
proof (induction xs)
  case Nil
  then show ?case by (simp add: table_write_id)
next
  case (Cons x xs)
  have "table_write (\<lambda>s. foldl (\<lambda>t x. f x t) (f x s) xs)"
    using table_write_comp [OF assms Cons.IH] .
  then show ?case by simp
qed

lemma find_append: "find P (xs @ ys) = (case find P xs of Some x \<Rightarrow> Some x | None \<Rightarrow> find P ys)"
  by (induction xs) auto

lemma default_row_simps [simp]:
  "jr_id (default_row i now) = i" "jr_status (default_row i now) = Queued"
  "result_xor_error (stamp_change now n (default_row i now))"
  by (simp_all add: default_row_def result_xor_error_def stamp_change_def)

lemma insert_default_cases:
  obtains (clash) e where "insert_default mint now s = (Inl e, s\<lparr>st_seq := st_seq s + 1\<rparr>)"
  | (inserted) i where "insert_default mint now s = (Inr i, s\<lparr>st_seq := st_seq s + 1,
        st_rows := st_rows s @ [stamp_change now (st_seq s + 1) (default_row i now)]\<rparr>)"
      "i = mint (st_seq s + 1)" "i \<notin> jr_id ` set (st_rows s)"
  by (cases "mint (st_seq s + 1) \<in> jr_id ` set (st_rows s)") (simp_all add: insert_default_def Let_def)

lemma insert_table_write: "table_write (\<lambda>s. snd (insert_default mint now s))"
proof
  fix s :: store
  let ?u = "\<lambda>s. snd (insert_default mint now s)"
  show "st_seq s \<le> st_seq (?u s)" by (cases rule: insert_default_cases [of mint now s]) simp_all
  show "jr_id ` set (st_rows s) \<subseteq> jr_id ` set (st_rows (?u s))"
    by (cases rule: insert_default_cases [of mint now s]) auto
  show "r \<in> set (st_rows (?u s)) \<Longrightarrow> r \<in> set (st_rows s) \<or> st_seq s < jr_change_seq r" for r
    by (cases rule: insert_default_cases [of mint now s]) auto
  show "row_of i s = Some r \<Longrightarrow> row_of i (?u s) = Some r" for i r
    by (cases rule: insert_default_cases [of mint now s]) (auto simp: row_of_def find_append)
  show "store_inv (?u s)" if inv: "store_inv s"
  proof (cases rule: insert_default_cases [of mint now s])
    case (clash e)
    with inv show ?thesis by (auto simp: store_inv_def)
  next
    case (inserted i)
    have "st_seq s + 1 \<notin> jr_change_seq ` set (st_rows s)" using inv by (auto simp: store_inv_def)
    with inv inserted show ?thesis by (auto simp: store_inv_def)
  qed
qed

lemma publish_store: "\<exists>sent. snd (publish send m s) = s\<lparr>st_sent := sent\<rparr>"
proof (cases "send m")
  case None
  then show ?thesis by (auto simp: publish_def)
next
  case (Some e)
  then show ?thesis by (simp add: publish_def) (metis store.surjective store.update_convs(3))
qed

lemma store_inv_sent [simp]:
  "store_inv (s\<lparr>st_sent := x\<rparr>) = store_inv s" "row_of i (s\<lparr>st_sent := x\<rparr>) = row_of i s"
  "row_of i (s\<lparr>st_seq := n\<rparr>) = row_of i s"
  by (simp_all add: store_inv_def row_of_def)

lemma publish_table_write: "table_write (\<lambda>s. snd (publish send m s))"
proof
  fix s :: store
  obtain x where x: "snd (publish send m s) = s\<lparr>st_sent := x\<rparr>" using publish_store by blast
  show "store_inv s \<Longrightarrow> store_inv (snd (publish send m s))" by (simp add: x)
  show "row_of i s = Some r \<Longrightarrow> row_of i (snd (publish send m s)) = Some r" for i r by (simp add: x)
  show "st_seq s \<le> st_seq (snd (publish send m s))" by (simp add: x)
  show "jr_id ` set (st_rows s) \<subseteq> jr_id ` set (st_rows (snd (publish send m s)))" by (simp add: x)
  show "r \<in> set (st_rows (snd (publish send m s))) \<Longrightarrow> r \<in> set (st_rows s) \<or> st_seq s < jr_change_seq r" for r
    by (simp add: x)
qed

text \<open>A write chosen by the state it starts from is a write if every choice is.\<close>

lemma table_write_pointwise:
  assumes "\<And>s. \<exists>u. table_write u \<and> w s = u s" shows "table_write w"
proof
  fix s :: store
  obtain u where u: "table_write u" "w s = u s" using assms by blast
  show "store_inv s \<Longrightarrow> store_inv (w s)" using table_write.keeps_inv [OF u(1)] u(2) by simp
  show "store_inv s \<Longrightarrow> row_of i s = Some r \<Longrightarrow> terminal r \<Longrightarrow> row_of i (w s) = Some r" for i r
    using table_write.keeps_terminal [OF u(1)] u(2) by simp
  show "st_seq s \<le> st_seq (w s)" using table_write.seq_grows [OF u(1)] u(2) by simp
  show "jr_id ` set (st_rows s) \<subseteq> jr_id ` set (st_rows (w s))"
    using table_write.keeps_rows [OF u(1)] u(2) by simp
  show "r \<in> set (st_rows (w s)) \<Longrightarrow> r \<in> set (st_rows s) \<or> st_seq s < jr_change_seq r" for r
    using table_write.stamps [OF u(1)] u(2) by simp
qed

lemma submit_one_table_write: "table_write (\<lambda>s. snd (submit_one mint send now job s))"
proof (rule table_write_pointwise)
  fix s
  show "\<exists>u. table_write u \<and> snd (submit_one mint send now job s) = u s"
  proof (cases rule: insert_default_cases [of mint now s])
    case (clash e)
    then show ?thesis using insert_table_write [of mint now]
      by (intro exI [of _ "\<lambda>s. snd (insert_default mint now s)"]) (simp add: submit_one_def)
  next
    case (inserted i)
    then have "snd (submit_one mint send now job s) =
        snd (publish send (into_message job i) (snd (insert_default mint now s)))"
      by (simp add: submit_one_def split: prod.splits sum.splits)
    then show ?thesis
      using table_write_comp [OF insert_table_write [of mint now] publish_table_write [of send "into_message job i"]]
      by blast
  qed
qed

lemma submit_all_table_write: "table_write (\<lambda>s. snd (submit_all mint send now jobs s))"
proof (induction jobs)
  case Nil
  then show ?case by (simp add: table_write_id)
next
  case (Cons job jobs)
  show ?case
  proof (rule table_write_pointwise)
    fix s
    obtain r s1 where one: "submit_one mint send now job s = (r, s1)" by force
    show "\<exists>u. table_write u \<and> snd (submit_all mint send now (job # jobs) s) = u s"
    proof (cases r)
      case (Inl e)
      then show ?thesis using submit_one_table_write one
        by (intro exI [of _ "\<lambda>s. snd (submit_one mint send now job s)"]) simp
    next
      case (Inr i)
      then have "snd (submit_all mint send now (job # jobs) s) =
          snd (submit_all mint send now jobs (snd (submit_one mint send now job s)))"
        using one by (simp split: prod.splits sum.splits)
      then show ?thesis using table_write_comp [OF submit_one_table_write Cons.IH] by blast
    qed
  qed
qed

lemma transaction_table_write:
  assumes "table_write (\<lambda>s. snd (body s))" shows "table_write (\<lambda>s. snd (transaction body s))"
proof (rule table_write_pointwise)
  fix s
  obtain r s' where b: "body s = (r, s')" by force
  show "\<exists>u. table_write u \<and> snd (transaction body s) = u s"
  proof (cases r)
    case (Inr x)
    then show ?thesis using assms b by (intro exI [of _ "\<lambda>s. snd (body s)"]) (simp add: transaction_def)
  next
    case (Inl e)
    have grow: "st_seq s \<le> st_seq s'" using table_write.seq_grows [OF assms, of s] b by simp
    have "table_write (\<lambda>t. t\<lparr>st_seq := max (st_seq t) (st_seq s')\<rparr>)"
      by unfold_locales (auto simp: store_inv_def)
    moreover have "snd (transaction body s) = s\<lparr>st_seq := max (st_seq s) (st_seq s')\<rparr>"
      using Inl b grow by (simp add: transaction_def max_absorb2)
    ultimately show ?thesis by blast
  qed
qed

interpretation submit_write: table_write "\<lambda>s. snd (db_submit mint send now job s)" for mint send now job
  unfolding db_submit_def by (rule transaction_table_write [OF submit_one_table_write])

interpretation submit_many_write: table_write "\<lambda>s. snd (submit_many mint send now jobs s)" for mint send now jobs
proof -
  show "table_write (\<lambda>s. snd (submit_many mint send now jobs s))"
    using table_write_id transaction_table_write [OF submit_all_table_write, of mint send now jobs]
    by (cases "jobs = []") (simp_all add: submit_many_def)
qed

section \<open>Histories\<close>

text \<open>Every function of \<open>db\<close> that writes, with its arguments.\<close>

datatype store_op =
    Op_Submit new_job "job_message \<Rightarrow> string option"
  | Op_Submit_Many "new_job list" "job_message \<Rightarrow> string option"
  | Op_Running uuid
  | Op_Attempt_Failed uuid string
  | Op_Done uuid json
  | Op_Failed uuid string

fun apply_op :: "(nat \<Rightarrow> uuid) \<Rightarrow> int \<times> store_op \<Rightarrow> store \<Rightarrow> store" where
  "apply_op mint (now, Op_Submit job send) = (\<lambda>s. snd (db_submit mint send now job s))"
| "apply_op mint (now, Op_Submit_Many jobs send) = (\<lambda>s. snd (submit_many mint send now jobs s))"
| "apply_op mint (now, Op_Running i) = set_running now i"
| "apply_op mint (now, Op_Attempt_Failed i err) = record_attempt_failure now i err"
| "apply_op mint (now, Op_Done i res) = set_done now i res"
| "apply_op mint (now, Op_Failed i err) = set_failed now i err"

definition run_ops :: "(nat \<Rightarrow> uuid) \<Rightarrow> (int \<times> store_op) list \<Rightarrow> store \<Rightarrow> store" where
  "run_ops mint ops s = foldl (\<lambda>t op. apply_op mint op t) s ops"

definition empty_store :: store where
  "empty_store = \<lparr>st_rows = [], st_seq = 0, st_sent = []\<rparr>"

lemma apply_op_table_write: "table_write (apply_op mint op)"
proof -
  obtain now k where op: "op = (now, k)" by (cases op)
  show ?thesis
    unfolding op
    by (cases k) (simp_all add: submit_write.table_write_axioms submit_many_write.table_write_axioms
        running_write.table_write_axioms attempt_write.table_write_axioms
        done_write.table_write_axioms failed_write.table_write_axioms)
qed

interpretation history: table_write "run_ops mint ops" for mint ops
  unfolding run_ops_def by (rule table_write_foldl) (rule apply_op_table_write)

lemma empty_store_inv [simp]: "store_inv empty_store"
  by (simp add: store_inv_def empty_store_def)

lemma run_ops_append: "run_ops mint (ops @ ops') s = run_ops mint ops' (run_ops mint ops s)"
  by (simp add: run_ops_def)

lemma sorted_rows_since: "sorted (map jr_change_seq (rows_since c s))"
  by (simp add: rows_since_def)

lemma takeWhile_prefix: "takeWhile P xs = take (length (takeWhile P xs)) xs"
  by (metis append_eq_conv_conj takeWhile_dropWhile_id)

lemma settled_changes_prefix:
  "\<exists>k. fst (settled_changes now cursor limit settle s) = take k (changes_since cursor s)"
proof -
  define k where "k = length (takeWhile (settled now settle) (take limit (rows_since cursor s)))"
  have "takeWhile (settled now settle) (take limit (rows_since cursor s)) = take (min k limit) (rows_since cursor s)"
    unfolding k_def by (subst takeWhile_prefix) simp
  then show ?thesis
    by (intro exI [of _ "min k limit"])
      (simp add: settled_changes_def Let_def changes_since_def take_map)
qed

lemma settled_changes_settled:
  assumes "(n, sm) \<in> set (fst (settled_changes now cursor limit settle s))"
  shows "\<exists>r \<in> set (st_rows s). jr_change_seq r = n \<and> cursor < n \<and> settled now settle r"
proof -
  obtain r where r: "r \<in> set (takeWhile (settled now settle) (take limit (rows_since cursor s)))"
      "jr_change_seq r = n"
    using assms by (auto simp: settled_changes_def Let_def)
  have "r \<in> set (rows_since cursor s)" using set_takeWhileD [OF r(1)] by (meson in_set_takeD)
  then show ?thesis using r set_takeWhileD [OF r(1)] by (auto simp: rows_since_def)
qed

lemma submit_one_Inr:
  assumes "submit_one mint send now job s = (Inr i, s')"
  shows "i \<notin> jr_id ` set (st_rows s) \<and> st_sent s' = st_sent s @ [into_message job i] \<and>
    (\<exists>r. st_rows s' = st_rows s @ [r] \<and> jr_id r = i \<and> jr_status r = Queued)"
proof (cases rule: insert_default_cases [of mint now s])
  case (clash e)
  then show ?thesis using assms by (simp add: submit_one_def)
next
  case (inserted k)
  then show ?thesis using assms
    by (cases "send (into_message job k)") (auto simp: submit_one_def publish_def)
qed

lemma submit_all_Inr:
  "submit_all mint send now jobs s = (Inr ids, s') \<Longrightarrow>
     length ids = length jobs \<and> distinct ids \<and> set ids \<inter> jr_id ` set (st_rows s) = {} \<and>
     st_sent s' = st_sent s @ map2 into_message jobs ids \<and>
     (\<exists>rs. st_rows s' = st_rows s @ rs \<and> map jr_id rs = ids \<and> (\<forall>r \<in> set rs. jr_status r = Queued))"
proof (induction jobs arbitrary: s ids)
  case Nil
  then show ?case by simp
next
  case (Cons job jobs)
  from Cons.prems obtain i s1 ids' where one: "submit_one mint send now job s = (Inr i, s1)"
      and rest: "submit_all mint send now jobs s1 = (Inr ids', s')" and ids: "ids = i # ids'"
    by (auto split: prod.splits sum.splits)
  obtain r where r: "i \<notin> jr_id ` set (st_rows s)" "st_sent s1 = st_sent s @ [into_message job i]"
      "st_rows s1 = st_rows s @ [r]" "jr_id r = i" "jr_status r = Queued"
    using submit_one_Inr [OF one] by blast
  obtain rs where rs: "length ids' = length jobs" "distinct ids'"
      "set ids' \<inter> jr_id ` set (st_rows s1) = {}" "st_sent s' = st_sent s1 @ map2 into_message jobs ids'"
      "st_rows s' = st_rows s1 @ rs" "map jr_id rs = ids'" "\<forall>r \<in> set rs. jr_status r = Queued"
    using Cons.IH [OF rest] by blast
  show ?case
    using r rs ids by (auto intro!: exI [of _ "r # rs"])
qed

section \<open>Properties\<close>

text \<open>C6. After any history of writes from the empty table, ids and change numbers are unique, a done row
  carries a result and no error, a failed row an error and no result, any other row neither; and
  however the history goes on, a row that was done or failed stays exactly as it was.\<close>

theorem job_history:
  "store_inv (run_ops mint ops empty_store) \<and>
   (\<forall>i r. row_of i (run_ops mint ops empty_store) = Some r \<and> terminal r \<longrightarrow>
      row_of i (run_ops mint (ops @ later) empty_store) = Some r)"
  using history.keeps_inv [OF empty_store_inv] history.keeps_terminal
  by (auto simp: run_ops_append)

definition sample_ops :: "(int \<times> store_op) list" where
  "sample_ops = [(1, Op_Submit \<lparr>nj_sgf = ''(;)'', nj_human_profile = None\<rparr> (\<lambda>_. None)),
                 (2, Op_Running 1), (3, Op_Done 1 J_Null)]"

theorem job_history_witness:
  "row_of 1 (run_ops id (sample_ops @ [(4, Op_Failed 1 ''late'')]) empty_store) =
     Some \<lparr>jr_id = 1, jr_status = Done, jr_result = Some J_Null, jr_error = None, jr_last_error = None,
           jr_created_at = 1, jr_updated_at = 3, jr_change_seq = 3\<rparr>"
proof -
  have "row_of 1 (run_ops id sample_ops empty_store) =
     Some \<lparr>jr_id = 1, jr_status = Done, jr_result = Some J_Null, jr_error = None, jr_last_error = None,
           jr_created_at = 1, jr_updated_at = 3, jr_change_seq = 3\<rparr>"
    by code_simp
  then show ?thesis
    using job_history [of id sample_ops "[(4, Op_Failed 1 ''late'')]"] by (simp add: terminal_iff)
qed

text \<open>The change feed is exact: a reader whose cursor is the sequence's current value reads, after
  any further writes, exactly the rows those writes left changed, in increasing change number.\<close>

lemma changes_since_exact:
  assumes "store_inv s"
  shows "set (changes_since (st_seq s) (run_ops mint ops s)) =
      (\<lambda>r. (jr_change_seq r, as_summary r)) ` (set (st_rows (run_ops mint ops s)) - set (st_rows s)) \<and>
    sorted (map fst (changes_since c (run_ops mint ops s)))"
  using history.feed_exact [OF assms] sorted_rows_since [of c "run_ops mint ops s"]
  by (simp add: changes_since_def comp_def)

theorem changes_since_exact_witness:
  "set (changes_since (st_seq empty_store) (run_ops id sample_ops empty_store)) =
     (\<lambda>r. (jr_change_seq r, as_summary r)) ` (set (st_rows (run_ops id sample_ops empty_store)) - set (st_rows empty_store))"
  using changes_since_exact [of empty_store id sample_ops 0] by simp

text \<open>C28. A batch is submitted whole or not at all: on success there is one new queued row and one
  message per game, ids in input order and all of them new; on an error no row and no message.\<close>

theorem submit_many_atomic:
  "case submit_many mint send now jobs s of
     (Inl e, s') \<Rightarrow> st_rows s' = st_rows s \<and> st_sent s' = st_sent s
   | (Inr ids, s') \<Rightarrow>
       length ids = length jobs \<and> distinct ids \<and> set ids \<inter> jr_id ` set (st_rows s) = {} \<and>
       st_sent s' = st_sent s @ map2 into_message jobs ids \<and>
       (\<exists>rs. st_rows s' = st_rows s @ rs \<and> map jr_id rs = ids \<and> list_all (\<lambda>r. jr_status r = Queued) rs)"
proof (cases "jobs = []")
  case True
  then show ?thesis by (simp add: submit_many_def)
next
  case False
  obtain r s1 where b: "submit_all mint send now jobs s = (r, s1)" by force
  show ?thesis
    using False b submit_all_Inr [of mint send now jobs s _ s1]
    by (cases r) (simp_all add: submit_many_def transaction_def list_all_iff)
qed



text \<open>The sequence is not gapless: a submission whose message cannot be sent leaves a gap.\<close>

lemma rollback_leaves_gap:
  "st_rows (snd (db_submit id (\<lambda>_. Some ''down'') now job empty_store)) = [] \<and>
   st_seq (snd (db_submit id (\<lambda>_. Some ''down'') now job empty_store)) = 1"
  by (simp add: db_submit_def transaction_def submit_one_def insert_default_def empty_store_def publish_def Let_def)

end
