(* ===== verification/Registry.thy ===== *)
theory Registry
  imports Prelude "HOL-Library.AList" "HOL-Library.Multiset"
begin

text \<open>
  The registry of connected workers (\<open>src/src/cluster/registry.rs\<close>): the owner task's commands, and
  the owner together with its callers.  The callers are separate tasks, so the second part is a
  state machine: a \<open>register\<close> call is sent, answered and resumed in separate steps, may be cancelled
  in between, and a guard's drop only tries to enqueue its command.
\<close>

section \<open>The owner task\<close>

definition CMD_BUFFER :: nat where "CMD_BUFFER = 128"

text \<open>\<open>SessionId\<close> is a \<open>u64\<close> counted up from 1; the count is unbounded here.\<close>

record worker_info =
  wi_id :: nat
  wi_name :: string
  wi_peer :: "string option"
  wi_slots :: nat
  wi_connected_at :: int

text \<open>A command carries the number of the caller waiting for its reply, if it has one.\<close>

datatype registry_cmd =
    Register string "string option" nat nat
  | Deregister nat
  | Snapshot nat

record registry_owner =
  ro_workers :: "(nat \<times> worker_info) list"
  ro_next_id :: nat
  ro_gauge :: int

definition owner_start :: registry_owner where
  "owner_start = \<lparr>ro_workers = [], ro_next_id = 1, ro_gauge = 0\<rparr>"

definition owner_register :: "int \<Rightarrow> string \<Rightarrow> string option \<Rightarrow> nat \<Rightarrow> registry_owner \<Rightarrow> nat \<times> registry_owner" where
  "owner_register now name peer slots st =
     (let i = ro_next_id st;
          ws = AList.update i \<lparr>wi_id = i, wi_name = name, wi_peer = peer, wi_slots = slots, wi_connected_at = now\<rparr>
                 (ro_workers st)
      in (i, st\<lparr>ro_workers := ws, ro_next_id := i + 1, ro_gauge := int (length ws)\<rparr>))"

definition owner_deregister :: "nat \<Rightarrow> registry_owner \<Rightarrow> registry_owner" where
  "owner_deregister i st =
     (case map_of (ro_workers st) i of
        None \<Rightarrow> st
      | Some _ \<Rightarrow> (let ws = AList.delete i (ro_workers st)
                   in st\<lparr>ro_workers := ws, ro_gauge := int (length ws)\<rparr>))"

definition owner_snapshot :: "registry_owner \<Rightarrow> worker_info list" where
  "owner_snapshot st = sort_key wi_id (map snd (ro_workers st))"

section \<open>The owner and its callers\<close>

text \<open>A caller of \<open>register\<close> is \<open>waiting\<close> with what its reply channel holds.  \<open>lost\<close> are the ids whose
  \<open>Deregister\<close> will never be sent: the drop found the channel full, or the call was cancelled.\<close>

record registry_sys =
  rs_owner :: registry_owner
  rs_queue :: "registry_cmd list"
  rs_running :: bool
  rs_callers :: nat
  rs_waiting :: "(nat \<times> nat option) list"
  rs_guards :: "(nat \<times> nat) list"
  rs_lost :: "nat list"
  rs_listed :: "(nat \<times> worker_info list) list"

definition registry_init :: registry_sys where
  "registry_init = \<lparr>rs_owner = owner_start, rs_queue = [], rs_running = True, rs_callers = 0,
     rs_waiting = [], rs_guards = [], rs_lost = [], rs_listed = []\<rparr>"

datatype registry_event =
    Reg_Call string "string option" nat
  | Reg_Resume nat
  | Reg_Cancel nat
  | Guard_Drop nat
  | Snap_Call
  | Owner_Turn int
  | Reg_Shutdown

text \<open>\<open>register\<close> up to its first wait: with the owner gone the guard carries id 0.\<close>

definition call_register :: "string \<Rightarrow> string option \<Rightarrow> nat \<Rightarrow> registry_sys \<Rightarrow> registry_sys" where
  "call_register name peer slots s =
     (let c = rs_callers s in
      if \<not> rs_running s then s\<lparr>rs_callers := c + 1, rs_guards := (c, 0) # rs_guards s\<rparr>
      else if length (rs_queue s) < CMD_BUFFER then
        s\<lparr>rs_callers := c + 1, rs_queue := rs_queue s @ [Register name peer slots c],
          rs_waiting := (c, None) # rs_waiting s\<rparr>
      else s)"

definition resume_register :: "nat \<Rightarrow> registry_sys \<Rightarrow> registry_sys" where
  "resume_register c s =
     (case map_of (rs_waiting s) c of
        Some (Some i) \<Rightarrow> s\<lparr>rs_waiting := AList.delete c (rs_waiting s), rs_guards := (c, i) # rs_guards s\<rparr>
      | _ \<Rightarrow> s)"

text \<open>The caller's future is dropped while it waits: an id already in its reply channel goes with it.\<close>

definition cancel_register :: "nat \<Rightarrow> registry_sys \<Rightarrow> registry_sys" where
  "cancel_register c s =
     (case map_of (rs_waiting s) c of
        None \<Rightarrow> s
      | Some answer \<Rightarrow> s\<lparr>rs_waiting := AList.delete c (rs_waiting s),
          rs_lost := (case answer of None \<Rightarrow> [] | Some i \<Rightarrow> [i]) @ rs_lost s\<rparr>)"

text \<open>\<open>Drop for WorkerGuard\<close>: \<open>try_send\<close>, its failure ignored.\<close>

definition drop_guard :: "nat \<Rightarrow> registry_sys \<Rightarrow> registry_sys" where
  "drop_guard c s =
     (case map_of (rs_guards s) c of
        None \<Rightarrow> s
      | Some i \<Rightarrow>
          (let s' = s\<lparr>rs_guards := AList.delete c (rs_guards s)\<rparr> in
           if rs_running s \<and> length (rs_queue s) < CMD_BUFFER
           then s'\<lparr>rs_queue := rs_queue s @ [Deregister i]\<rparr>
           else s'\<lparr>rs_lost := i # rs_lost s\<rparr>))"

definition call_snapshot :: "registry_sys \<Rightarrow> registry_sys" where
  "call_snapshot s =
     (let c = rs_callers s in
      if \<not> rs_running s then s\<lparr>rs_callers := c + 1, rs_listed := rs_listed s @ [(c, [])]\<rparr>
      else if length (rs_queue s) < CMD_BUFFER then
        s\<lparr>rs_callers := c + 1, rs_queue := rs_queue s @ [Snapshot c]\<rparr>
      else s)"

definition answer_register :: "nat \<Rightarrow> nat \<Rightarrow> registry_sys \<Rightarrow> registry_sys" where
  "answer_register c i s =
     (case map_of (rs_waiting s) c of
        None \<Rightarrow> s\<lparr>rs_lost := i # rs_lost s\<rparr>
      | Some _ \<Rightarrow> s\<lparr>rs_waiting := AList.update c (Some i) (rs_waiting s)\<rparr>)"

text \<open>One turn of \<open>owner_loop\<close>: the next command of the channel.\<close>

fun owner_cmd :: "int \<Rightarrow> registry_cmd \<Rightarrow> registry_sys \<Rightarrow> registry_sys" where
  "owner_cmd now (Register name peer slots c) s =
     (let (i, own) = owner_register now name peer slots (rs_owner s)
      in answer_register c i (s\<lparr>rs_owner := own\<rparr>))"
| "owner_cmd now (Deregister i) s = s\<lparr>rs_owner := owner_deregister i (rs_owner s)\<rparr>"
| "owner_cmd now (Snapshot c) s = s\<lparr>rs_listed := rs_listed s @ [(c, owner_snapshot (rs_owner s))]\<rparr>"

definition owner_turn :: "int \<Rightarrow> registry_sys \<Rightarrow> registry_sys" where
  "owner_turn now s =
     (case rs_queue s of
        [] \<Rightarrow> s
      | cmd # rest \<Rightarrow> (if rs_running s then owner_cmd now cmd (s\<lparr>rs_queue := rest\<rparr>) else s))"

text \<open>The owner breaks out of its loop: the channel and the replies in it are dropped, so a waiting
  caller gets id 0 and a waiting snapshot the empty list.\<close>

definition owner_shutdown :: "registry_sys \<Rightarrow> registry_sys" where
  "owner_shutdown s =
     (if rs_running s then
        s\<lparr>rs_running := False, rs_queue := [],
          rs_waiting := map (\<lambda>(c, a). (c, Some (opt_else 0 a))) (rs_waiting s),
          rs_listed := rs_listed s @ map (\<lambda>c. (c, []))
            (concat (map (\<lambda>cmd. case cmd of Snapshot c \<Rightarrow> [c] | _ \<Rightarrow> []) (rs_queue s)))\<rparr>
      else s)"

fun registry_step :: "registry_event \<Rightarrow> registry_sys \<Rightarrow> registry_sys" where
  "registry_step (Reg_Call name peer slots) s = call_register name peer slots s"
| "registry_step (Reg_Resume c) s = resume_register c s"
| "registry_step (Reg_Cancel c) s = cancel_register c s"
| "registry_step (Guard_Drop c) s = drop_guard c s"
| "registry_step Snap_Call s = call_snapshot s"
| "registry_step (Owner_Turn now) s = owner_turn now s"
| "registry_step Reg_Shutdown s = owner_shutdown s"

inductive registry_reachable :: "registry_sys \<Rightarrow> bool" where
  start: "registry_reachable registry_init"
| step: "registry_reachable s \<Longrightarrow> registry_reachable (registry_step ev s)"

section \<open>Association lists\<close>

lemma mset_alist_delete:
  "distinct (map fst xs) \<Longrightarrow> map_of xs k = Some v \<Longrightarrow> mset xs = add_mset (k, v) (mset (AList.delete k xs))"
proof (induction xs)
  case Nil
  then show ?case by simp
next
  case (Cons x xs)
  obtain k' v' where x: "x = (k', v')" by fastforce
  show ?case
  proof (cases "k' = k")
    case True
    then have "filter (\<lambda>(k', _). k \<noteq> k') xs = xs"
      using Cons.prems(1) by (auto simp: x filter_id_conv rev_image_eqI)
    then show ?thesis using True Cons.prems by (simp add: x AList.delete_eq)
  next
    case False
    then show ?thesis using Cons by (simp add: x)
  qed
qed

lemma mset_alist_update:
  "distinct (map fst xs) \<Longrightarrow> mset (AList.update k v xs) = add_mset (k, v) (mset (AList.delete k xs))"
proof (induction xs)
  case Nil
  then show ?case by simp
next
  case (Cons x xs)
  obtain k' v' where x: "x = (k', v')" by fastforce
  show ?case
  proof (cases "k' = k")
    case True
    then have "filter (\<lambda>(k', _). k \<noteq> k') xs = xs"
      using Cons.prems(1) by (auto simp: x filter_id_conv rev_image_eqI)
    then show ?thesis using True by (simp add: x AList.delete_eq)
  next
    case False
    then show ?thesis using Cons by (simp add: x)
  qed
qed

lemma update_fresh: "k \<notin> set (map fst xs) \<Longrightarrow> AList.update k v xs = xs @ [(k, v)]"
  by (induction xs) auto

lemma distinct_delete: "distinct (map fst xs) \<Longrightarrow> distinct (map fst (AList.delete k xs))"
  by (rule AList.distinct_delete)

lemma keys_delete: "set (map fst (AList.delete k xs)) = set (map fst xs) - {k}"
  by (simp add: AList.delete_keys)

lemma keys_update: "set (map fst (AList.update k v xs)) = insert k (set (map fst xs))"
  by (simp add: AList.dom_update)

lemma mset_filter_out:
  "distinct xs \<Longrightarrow> i \<in> set xs \<Longrightarrow> mset xs = add_mset i (mset (filter (\<lambda>j. j \<noteq> i) xs))"
proof (induction xs)
  case Nil
  then show ?case by simp
next
  case (Cons x xs)
  show ?case
  proof (cases "x = i")
    case True
    then have "filter (\<lambda>j. j \<noteq> i) xs = xs" using Cons.prems by (auto simp: filter_id_conv)
    then show ?thesis using True by simp
  next
    case False
    then show ?thesis using Cons by simp
  qed
qed

section \<open>Sessions that come and go\<close>

text \<open>What a session relies on: joining mints an id not in use, leaving removes exactly that id.\<close>

locale live_ids =
  fixes join :: "'x \<Rightarrow> 's \<Rightarrow> nat \<times> 's" and leave :: "nat \<Rightarrow> 's \<Rightarrow> 's"
    and ids :: "'s \<Rightarrow> nat list" and good :: "'s \<Rightarrow> bool"
  assumes join_good: "good s \<Longrightarrow> good (snd (join x s))"
    and join_ids: "good s \<Longrightarrow> ids (snd (join x s)) = ids s @ [fst (join x s)]"
    and good_distinct: "good s \<Longrightarrow> distinct (ids s)"
    and leave_good: "good s \<Longrightarrow> good (leave i s)"
    and leave_ids: "good s \<Longrightarrow> ids (leave i s) = filter (\<lambda>j. j \<noteq> i) (ids s)"
begin

lemma join_fresh: "good s \<Longrightarrow> fst (join x s) \<notin> set (ids s)"
  using good_distinct [OF join_good, of s x] by (simp add: join_ids)

lemma join_then_leave: "good s \<Longrightarrow> ids (leave (fst (join x s)) (snd (join x s))) = ids s"
  using join_fresh [of s x] by (auto simp: leave_ids join_good join_ids filter_id_conv)

lemma leave_once: "good s \<Longrightarrow> i \<in> set (ids s) \<Longrightarrow> mset (ids s) = add_mset i (mset (ids (leave i s)))"
  using good_distinct [of s] by (simp only: leave_ids mset_filter_out)

end

definition owner_ids :: "registry_owner \<Rightarrow> nat list" where
  "owner_ids st = map fst (ro_workers st)"

definition owner_good :: "registry_owner \<Rightarrow> bool" where
  "owner_good st = (distinct (owner_ids st) \<and>
     list_all (\<lambda>(k, w). wi_id w = k \<and> 1 \<le> k \<and> k < ro_next_id st) (ro_workers st) \<and>
     1 \<le> ro_next_id st \<and> ro_gauge st = int (length (ro_workers st)))"

lemma owner_fresh: "owner_good st \<Longrightarrow> ro_next_id st \<notin> set (map fst (ro_workers st))"
  by (fastforce simp: owner_good_def list_all_iff)

lemma owner_delete_keys: "map fst (AList.delete i xs) = filter (\<lambda>j. j \<noteq> i) (map fst xs)"
  by (induction xs) auto

interpretation reg: live_ids "\<lambda>(now, name, peer, slots). owner_register now name peer slots" owner_deregister owner_ids owner_good
proof unfold_locales
  fix st :: registry_owner and x :: "int \<times> string \<times> string option \<times> nat" and i :: nat
  assume good: "owner_good st"
  obtain now name peer slots where x: "x = (now, name, peer, slots)" by (cases x)
  show "owner_ids (snd ((case x of (now, name, peer, slots) \<Rightarrow> owner_register now name peer slots) st))
      = owner_ids st @ [fst ((case x of (now, name, peer, slots) \<Rightarrow> owner_register now name peer slots) st)]"
    using owner_fresh [OF good] by (simp add: x owner_register_def Let_def owner_ids_def update_fresh)
  show "owner_good (snd ((case x of (now, name, peer, slots) \<Rightarrow> owner_register now name peer slots) st))"
    using good owner_fresh [OF good]
    by (fastforce simp: x owner_register_def Let_def owner_good_def owner_ids_def update_fresh list_all_iff)
  show "distinct (owner_ids st)" using good by (simp add: owner_good_def)
  show ids: "owner_ids (owner_deregister i st) = filter (\<lambda>j. j \<noteq> i) (owner_ids st)"
  proof (cases "map_of (ro_workers st) i")
    case None
    then have "i \<notin> set (map fst (ro_workers st))" by (simp add: map_of_eq_None_iff)
    then have "filter (\<lambda>j. j \<noteq> i) (map fst (ro_workers st)) = map fst (ro_workers st)"
      by (metis (mono_tags, lifting) filter_True)
    with None show ?thesis by (simp add: owner_deregister_def owner_ids_def)
  next
    case (Some w)
    then show ?thesis by (simp add: owner_deregister_def owner_ids_def Let_def owner_delete_keys)
  qed
  show "owner_good (owner_deregister i st)"
    using good ids
    by (auto simp: owner_good_def owner_deregister_def Let_def list_all_iff AList.delete_eq split: option.splits)
qed

lemma snapshot_ids: "owner_good st \<Longrightarrow> map wi_id (owner_snapshot st) = sort (owner_ids st)"
proof -
  assume "owner_good st"
  then have "map wi_id (map snd (ro_workers st)) = owner_ids st"
    by (auto simp: owner_good_def owner_ids_def list_all_iff)
  then show ?thesis
    unfolding owner_snapshot_def by (metis mset_map mset_sort properties_for_sort sorted_sort_key)
qed

section \<open>The invariant of the owner and its callers\<close>

definition answered :: "(nat \<times> nat option) list \<Rightarrow> nat multiset" where
  "answered xs = sum_mset (image_mset (\<lambda>(c, a). mset (case a of None \<Rightarrow> [] | Some i \<Rightarrow> [i])) (mset xs))"

fun leaving :: "registry_cmd list \<Rightarrow> nat list" where
  "leaving [] = []"
| "leaving (Deregister i # cmds) = i # leaving cmds"
| "leaving (_ # cmds) = leaving cmds"

fun registering :: "registry_cmd list \<Rightarrow> nat list" where
  "registering [] = []"
| "registering (Register _ _ _ c # cmds) = c # registering cmds"
| "registering (_ # cmds) = registering cmds"

lemma leaving_append [simp]: "leaving (xs @ ys) = leaving xs @ leaving ys"
  by (induction xs rule: leaving.induct) simp_all

lemma registering_append [simp]: "registering (xs @ ys) = registering xs @ registering ys"
  by (induction xs rule: registering.induct) simp_all

lemma answered_simps [simp]:
  "answered [] = {#}"
  "answered ((c, a) # xs) = mset (case a of None \<Rightarrow> [] | Some i \<Rightarrow> [i]) + answered xs"
  by (simp_all add: answered_def)

lemma answered_delete:
  "distinct (map fst xs) \<Longrightarrow> map_of xs c = Some a \<Longrightarrow>
     answered xs = mset (case a of None \<Rightarrow> [] | Some i \<Rightarrow> [i]) + answered (AList.delete c xs)"
  by (simp add: answered_def mset_alist_delete)

lemma answered_update:
  "distinct (map fst xs) \<Longrightarrow> map_of xs c = Some None \<Longrightarrow>
     answered (AList.update c (Some i) xs) = add_mset i (answered xs)"
  by (simp add: answered_def mset_alist_update mset_alist_delete)

definition callers_ok :: "registry_sys \<Rightarrow> bool" where
  "callers_ok s = (distinct (map fst (rs_waiting s)) \<and> distinct (map fst (rs_guards s)) \<and>
     set (map fst (rs_waiting s)) \<inter> set (map fst (rs_guards s)) = {} \<and>
     (\<forall>c \<in> set (map fst (rs_waiting s)) \<union> set (map fst (rs_guards s)). c < rs_callers s))"

definition queue_ok :: "registry_sys \<Rightarrow> bool" where
  "queue_ok s = (distinct (registering (rs_queue s)) \<and>
     (\<forall>c \<in> set (registering (rs_queue s)). c < rs_callers s \<and> (\<forall>i. (c, Some i) \<notin> set (rs_waiting s))))"

definition accounted :: "registry_sys \<Rightarrow> nat multiset" where
  "accounted s = mset (map snd (rs_guards s)) + answered (rs_waiting s) + mset (leaving (rs_queue s)) + mset (rs_lost s)"

definition sys_ok :: "registry_sys \<Rightarrow> bool" where
  "sys_ok s = (callers_ok s \<and> (rs_running s \<longrightarrow> owner_good (rs_owner s) \<and> queue_ok s \<and>
     mset (owner_ids (rs_owner s)) = accounted s))"

lemmas sys_defs = sys_ok_def callers_ok_def queue_ok_def accounted_def

lemma map_of_keys: "map_of xs c = Some v \<Longrightarrow> c \<in> set (map fst xs)"
  by (force dest: map_of_SomeD)

lemma sys_ok_call: "sys_ok s \<Longrightarrow> sys_ok (call_register name peer slots s)"
proof -
  assume ok: "sys_ok s"
  have "(rs_callers s, a) \<notin> set (rs_waiting s)" for a
    using ok by (force simp: sys_ok_def callers_ok_def)
  with ok show ?thesis by (auto simp: sys_defs call_register_def Let_def less_Suc_eq)
qed

lemma sys_ok_snap: "sys_ok s \<Longrightarrow> sys_ok (call_snapshot s)"
  by (auto simp: sys_defs call_snapshot_def Let_def less_Suc_eq)

lemma map_of_delete_other: "map_of (AList.delete c xs) d = (if d = c then None else map_of xs d)"
  by (simp add: AList.delete_conv')

lemma delete_subset: "x \<in> set (AList.delete c xs) \<Longrightarrow> x \<in> set xs"
  by (simp add: AList.delete_eq)

lemma taken_caller:
  assumes "sys_ok s" and "map_of (rs_waiting s) c = Some a"
    and "gs = [] \<and> (lost = (case a of None \<Rightarrow> [] | Some i \<Rightarrow> [i])) \<or> (\<exists>i. a = Some i \<and> gs = [(c, i)] \<and> lost = [])"
  shows "sys_ok (s\<lparr>rs_waiting := AList.delete c (rs_waiting s), rs_guards := gs @ rs_guards s, rs_lost := lost @ rs_lost s\<rparr>)"
proof -
  let ?s = "s\<lparr>rs_waiting := AList.delete c (rs_waiting s), rs_guards := gs @ rs_guards s, rs_lost := lost @ rs_lost s\<rparr>"
  have c: "callers_ok s" using assms(1) by (simp add: sys_ok_def)
  have mem: "c \<in> set (map fst (rs_waiting s))" using assms(2) by (rule map_of_keys)
  have d: "distinct (map fst (rs_waiting s))" using c by (simp add: callers_ok_def)
  have gs: "set (map fst gs) \<subseteq> {c}" "distinct (map fst gs)" using assms(3) by auto
  have keys: "set (map fst (AList.delete c (rs_waiting s))) = set (map fst (rs_waiting s)) - {c}"
    by (rule keys_delete)
  have "set (map fst (rs_waiting s)) \<inter> set (map fst (rs_guards s)) = {}" using c by (simp add: callers_ok_def)
  then have apart: "set (map fst gs) \<inter> set (map fst (rs_guards s)) = {}"
      "(set (map fst (rs_waiting s)) - {c}) \<inter> set (map fst (gs @ rs_guards s)) = {}"
    using gs(1) mem by auto
  then have "distinct (map fst (gs @ rs_guards s))" using c gs(2) by (simp add: callers_ok_def)
  moreover have "\<forall>d \<in> (set (map fst (rs_waiting s)) - {c}) \<union> set (map fst (gs @ rs_guards s)). d < rs_callers s"
    using c gs(1) mem unfolding callers_ok_def map_append set_append by blast
  ultimately have "callers_ok ?s"
    using distinct_delete [OF d] apart(2) keys by (simp add: callers_ok_def del: set_map set_append map_append)
  moreover have "queue_ok s \<Longrightarrow> queue_ok ?s"
    by (auto simp: queue_ok_def dest: delete_subset)
  moreover have "accounted ?s = accounted s"
    using assms(3) answered_delete [OF d assms(2)] by (cases a) (auto simp: accounted_def)
  ultimately show ?thesis using assms(1) by (simp add: sys_ok_def)
qed

lemma sys_ok_resume: "sys_ok s \<Longrightarrow> sys_ok (resume_register c s)"
  using taken_caller [of s c _ "[(c, i)]" "[]" for i]
  by (auto simp: resume_register_def split: option.splits)

lemma sys_ok_cancel: "sys_ok s \<Longrightarrow> sys_ok (cancel_register c s)"
  using taken_caller [of s c _ "[]"]
  by (auto simp: cancel_register_def split: option.splits)

lemma sys_ok_drop:
  assumes "sys_ok s"
  shows "sys_ok (drop_guard c s)"
proof (cases "map_of (rs_guards s) c")
  case None
  then show ?thesis using assms by (simp add: drop_guard_def)
next
  case (Some i)
  have c: "callers_ok s" using assms by (simp add: sys_ok_def)
  then have "mset (rs_guards s) = add_mset (c, i) (mset (AList.delete c (rs_guards s)))"
    using Some by (simp add: callers_ok_def mset_alist_delete)
  moreover have "callers_ok (drop_guard c s)"
    using c keys_delete [of c "rs_guards s"]
    by (auto simp: callers_ok_def drop_guard_def Let_def Some distinct_delete simp del: set_map)
  ultimately show ?thesis
    using assms by (auto simp: sys_ok_def drop_guard_def Let_def Some queue_ok_def accounted_def)
qed

lemma sys_ok_shutdown: "sys_ok s \<Longrightarrow> sys_ok (owner_shutdown s)"
  by (auto simp: sys_ok_def owner_shutdown_def callers_ok_def comp_def case_prod_beta image_image)

lemma sys_ok_answer:
  assumes "callers_ok s" and "queue_ok s" and "c \<notin> set (registering (rs_queue s))"
    and "\<forall>i. (c, Some i) \<notin> set (rs_waiting s)"
  shows "callers_ok (answer_register c i s) \<and> queue_ok (answer_register c i s) \<and>
    accounted (answer_register c i s) = add_mset i (accounted s)"
proof (cases "map_of (rs_waiting s) c")
  case None
  then show ?thesis using assms by (simp add: answer_register_def callers_ok_def queue_ok_def accounted_def)
next
  case (Some a)
  have d: "distinct (map fst (rs_waiting s))" using assms(1) by (simp add: callers_ok_def)
  have a: "map_of (rs_waiting s) c = Some None" using Some assms(4) map_of_SomeD [OF Some] by (cases a) auto
  have sub: "x \<in> set (AList.update c v xs) \<Longrightarrow> x = (c, v) \<or> x \<in> set xs" for x :: "nat \<times> nat option" and v xs
    by (induction xs) (auto split: if_splits)
  have "callers_ok (answer_register c i s)"
    using assms(1) map_of_keys [OF Some] keys_update [of c "Some i" "rs_waiting s"]
    by (auto simp: answer_register_def Some callers_ok_def AList.distinct_update simp del: set_map)
  moreover have "queue_ok (answer_register c i s)"
    using assms(2,3) by (auto simp: answer_register_def Some queue_ok_def dest: sub)
  moreover have "accounted (answer_register c i s) = add_mset i (accounted s)"
    by (simp add: answer_register_def Some accounted_def answered_update [OF d a])
  ultimately show ?thesis by simp
qed

lemma answer_owner [simp]:
  "rs_owner (answer_register c i s) = rs_owner s" "rs_running (answer_register c i s) = rs_running s"
  by (simp_all add: answer_register_def split: option.splits)

lemma sys_ok_turn:
  assumes "sys_ok s"
  shows "sys_ok (owner_turn now s)"
proof (cases "rs_queue s")
  case Nil
  then show ?thesis using assms by (simp add: owner_turn_def)
next
  case (Cons cmd rest)
  show ?thesis
  proof (cases "rs_running s")
    case False
    then show ?thesis using assms Cons by (simp add: owner_turn_def)
  next
    case True
    let ?s = "s\<lparr>rs_queue := rest\<rparr>"
    have turn: "owner_turn now s = owner_cmd now cmd ?s" by (simp add: owner_turn_def Cons True)
    have ok: "callers_ok s" "owner_good (rs_owner s)" "queue_ok s" "mset (owner_ids (rs_owner s)) = accounted s"
      using assms True by (simp_all add: sys_ok_def)
    have c: "callers_ok (s\<lparr>rs_queue := q, rs_owner := own\<rparr>)" for q own
      using ok(1) by (simp add: callers_ok_def)
    show ?thesis
    proof (cases cmd)
      case (Register name peer slots caller)
      obtain i own where io: "owner_register now name peer slots (rs_owner s) = (i, own)" by fastforce
      let ?t = "s\<lparr>rs_queue := rest, rs_owner := own\<rparr>"
      have "callers_ok (answer_register caller i ?t) \<and> queue_ok (answer_register caller i ?t) \<and>
          accounted (answer_register caller i ?t) = add_mset i (accounted ?t)"
        using ok(3) c by (intro sys_ok_answer) (auto simp: queue_ok_def Cons Register)
      moreover have "owner_good own" "owner_ids own = owner_ids (rs_owner s) @ [i]"
        using reg.join_good [OF ok(2), of "(now, name, peer, slots)"] reg.join_ids [OF ok(2), of "(now, name, peer, slots)"]
        by (simp_all add: io)
      ultimately show ?thesis
        using ok(4) by (simp add: turn Register io sys_ok_def accounted_def Cons)
    next
      case (Deregister i)
      have "i \<in> set (owner_ids (rs_owner s))"
      proof -
        have "i \<in># mset (owner_ids (rs_owner s))" by (simp add: ok(4) accounted_def Cons Deregister)
        then show ?thesis by simp
      qed
      then have "mset (owner_ids (rs_owner s)) = add_mset i (mset (owner_ids (owner_deregister i (rs_owner s))))"
        by (rule reg.leave_once [OF ok(2)])
      then show ?thesis
        using ok reg.leave_good [OF ok(2), of i]
        by (simp add: turn Deregister sys_ok_def callers_ok_def queue_ok_def accounted_def Cons)
    next
      case (Snapshot caller)
      then show ?thesis using ok by (simp add: turn sys_ok_def callers_ok_def queue_ok_def accounted_def Cons)
    qed
  qed
qed

lemma registry_reachable_ok: "registry_reachable s \<Longrightarrow> sys_ok s"
proof (induction rule: registry_reachable.induct)
  case start
  then show ?case
    by (simp add: registry_init_def sys_defs owner_start_def owner_good_def owner_ids_def)
next
  case (step s ev)
  then show ?case
    by (cases ev) (simp_all add: sys_ok_call sys_ok_snap sys_ok_resume sys_ok_cancel sys_ok_drop
        sys_ok_turn sys_ok_shutdown)
qed

lemma registry_reachable_run: "registry_reachable s \<Longrightarrow> registry_reachable (fold registry_step evs s)"
  by (induction evs arbitrary: s) (auto intro: registry_reachable.step)

lemma snapshot_register:
  assumes "owner_good st" and "owner_register now name peer slots st = (i, st')"
  shows "owner_snapshot st' = owner_snapshot st @
    [\<lparr>wi_id = i, wi_name = name, wi_peer = peer, wi_slots = slots, wi_connected_at = now\<rparr>]"
proof -
  let ?w = "\<lparr>wi_id = i, wi_name = name, wi_peer = peer, wi_slots = slots, wi_connected_at = now\<rparr>"
  have i: "i = ro_next_id st" and ws: "ro_workers st' = ro_workers st @ [(i, ?w)]"
    using assms(2) owner_fresh [OF assms(1)] by (auto simp: owner_register_def Let_def update_fresh)
  have less: "\<forall>x \<in> set (map snd (ro_workers st)). wi_id x \<le> wi_id ?w"
    using assms(1) by (fastforce simp: owner_good_def list_all_iff i)
  have "sort_key wi_id (map snd (ro_workers st) @ [?w]) = sort_key wi_id (map snd (ro_workers st)) @ [?w]"
  proof (rule properties_for_sort_key)
    show "sorted (map wi_id (sort_key wi_id (map snd (ro_workers st)) @ [?w]))"
      using less by (auto simp: sorted_append)
    show "filter (\<lambda>x. wi_id k = wi_id x) (sort_key wi_id (map snd (ro_workers st)) @ [?w]) =
        filter (\<lambda>x. wi_id k = wi_id x) (map snd (ro_workers st) @ [?w])" for k
      using sort_key_stable [of wi_id "wi_id k" "map snd (ro_workers st)"] by (simp add: eq_commute)
  qed simp
  then show ?thesis by (simp add: owner_snapshot_def ws)
qed

lemma owner_cmd_running [simp]: "rs_running (owner_cmd now cmd s) = rs_running s"
  by (cases cmd) (simp_all add: case_prod_beta)

text \<open>A stopped registry leaves no caller waiting.\<close>

lemma registry_stopped:
  "registry_reachable s \<Longrightarrow> \<not> rs_running s \<Longrightarrow> rs_queue s = [] \<and> list_all (\<lambda>(c, a). a \<noteq> None) (rs_waiting s)"
proof (induction rule: registry_reachable.induct)
  case start
  then show ?case by (simp add: registry_init_def)
next
  case (step s ev)
  have del: "list_all P xs \<Longrightarrow> list_all P (AList.delete c xs)" for P c and xs :: "(nat \<times> nat option) list"
    by (auto simp: list_all_iff dest: delete_subset)
  show ?case
  proof (cases "rs_running s")
    case True
    then show ?thesis
      using step.prems
      by (cases ev) (auto simp: call_register_def resume_register_def cancel_register_def drop_guard_def
          call_snapshot_def owner_turn_def owner_shutdown_def Let_def list_all_iff case_prod_beta
          split: option.splits list.splits if_splits)
  next
    case False
    then show ?thesis
      using step.IH del
      by (cases ev) (auto simp: call_register_def resume_register_def cancel_register_def drop_guard_def
          call_snapshot_def owner_turn_def owner_shutdown_def Let_def split: option.splits)
  qed
qed

section \<open>Properties\<close>

text \<open>C36. While the owner runs, however registrations, cancellations, dropped guards and snapshots
  interleave: a snapshot lists, in order of session id, exactly the ids held by a guard or on their
  way to one, those whose deregistration is still in the channel, and those whose deregistration was
  lost; the gauge counts them, and the next worker to register is listed last.\<close>

theorem registry_lists_sessions:
  assumes "registry_reachable s" and "rs_running s"
  shows "sorted_wrt (<) (map wi_id (owner_snapshot (rs_owner s))) \<and>
    mset (map wi_id (owner_snapshot (rs_owner s))) =
      mset (map snd (rs_guards s)) + answered (rs_waiting s) + mset (leaving (rs_queue s)) + mset (rs_lost s) \<and>
    ro_gauge (rs_owner s) = int (length (owner_snapshot (rs_owner s))) \<and>
    owner_snapshot (snd (owner_register now name peer slots (rs_owner s))) =
      owner_snapshot (rs_owner s) @
      [\<lparr>wi_id = ro_next_id (rs_owner s), wi_name = name, wi_peer = peer, wi_slots = slots, wi_connected_at = now\<rparr>]"
proof -
  have ok: "owner_good (rs_owner s)" "mset (owner_ids (rs_owner s)) = accounted s"
    using registry_reachable_ok [OF assms(1)] assms(2) by (simp_all add: sys_ok_def)
  have "sorted_wrt (<) (sort (owner_ids (rs_owner s)))"
    using ok(1) by (simp add: strict_sorted_iff owner_good_def)
  moreover have "mset (map wi_id (owner_snapshot (rs_owner s))) = accounted s"
    using ok by (simp only: snapshot_ids mset_sort)
  moreover have "ro_gauge (rs_owner s) = int (length (owner_snapshot (rs_owner s)))"
    using ok(1) by (simp add: owner_good_def owner_snapshot_def)
  moreover have "fst (owner_register now name peer slots (rs_owner s)) = ro_next_id (rs_owner s)"
    by (simp add: owner_register_def Let_def)
  ultimately show ?thesis
    using snapshot_register [OF ok(1) prod.collapse [symmetric], of now name peer slots]
    by (simp add: snapshot_ids [OF ok(1)] accounted_def)
qed

definition sample_sessions :: "registry_event list" where
  "sample_sessions = [Reg_Call ''alpha'' None 4, Owner_Turn 10, Reg_Resume 0, Reg_Call ''beta'' None 8,
     Owner_Turn 11, Reg_Resume 1, Guard_Drop 0, Owner_Turn 12, Reg_Call ''gamma'' None 2]"

theorem registry_lists_sessions_witness:
  "map wi_id (owner_snapshot (rs_owner (fold registry_step sample_sessions registry_init))) = [2] \<and>
   ro_gauge (rs_owner (fold registry_step sample_sessions registry_init)) = 1"
proof -
  let ?s = "fold registry_step sample_sessions registry_init"
  have r: "registry_reachable ?s" by (rule registry_reachable_run [OF registry_reachable.start])
  have run: "rs_running ?s" by code_simp
  have "mset (map wi_id (owner_snapshot (rs_owner ?s))) =
      mset (map snd (rs_guards ?s)) + answered (rs_waiting ?s) + mset (leaving (rs_queue ?s)) + mset (rs_lost ?s)"
    using registry_lists_sessions [OF r run] by blast
  moreover have "rs_guards ?s = [(1, 2)]" "rs_waiting ?s = [(2, None)]" "leaving (rs_queue ?s) = []" "rs_lost ?s = []"
    by code_simp+
  ultimately have "mset (map wi_id (owner_snapshot (rs_owner ?s))) = {#2#}" by simp
  then have l: "map wi_id (owner_snapshot (rs_owner ?s)) = [2]" by (simp only: mset_single_iff)
  then have "length (owner_snapshot (rs_owner ?s)) = 1" by (metis length_map length_Cons list.size(3) One_nat_def)
  then have "ro_gauge (rs_owner ?s) = 1"
    using registry_lists_sessions [OF r run] by simp
  with l show ?thesis by simp
qed

text \<open>A \<open>register\<close> call cancelled after its command was sent leaves an entry that nothing removes.\<close>

lemma cancelled_register_leaks:
  "(let s = fold registry_step [Reg_Call ''alpha'' None 4, Reg_Cancel 0, Owner_Turn 10] registry_init
    in rs_guards s = [] \<and> rs_queue s = [] \<and> map wi_id (owner_snapshot (rs_owner s)) = [1])"
  by code_simp

end
