(* ===== verification/Cluster_Server.thy ===== *)
theory Cluster_Server
  imports Auth Job_Store Registry
begin

text \<open>
  The orchestrator's side of a worker connection (\<open>src/src/cluster/message.rs\<close>,
  \<open>src/src/cluster/server.rs\<close>): the socket's guards, the opening \<open>Hello\<close>, and one session as a
  state machine.  The lease loops' \<open>RemoteExecutor::analyze\<close> calls run beside the session's I/O
  loop, so each of a call's waits is a step of its own: it registers its waiter, sends its request,
  and waits for the one-shot reply.  \<open>serde_json\<close>'s reader of a frame is a parameter.
\<close>

section \<open>Messages\<close>

datatype outcome = Outcome_Ok json | Outcome_Err string

datatype client_msg = Hello nat string | Result uuid outcome

record job_request =
  rq_job_id :: uuid
  rq_sgf :: string
  rq_human_profile :: "string option"
  rq_trace :: "string option"

type_synonym msg_reader = "string \<Rightarrow> client_msg option"

datatype inbound =
    Text string
  | Ping
  | Other_Frame
  | Close_Frame
  | Stream_Error string

section \<open>Opening a session\<close>

definition MAX_SLOTS :: nat where "MAX_SLOTS = 64"

definition authorized :: "string \<Rightarrow> string option \<Rightarrow> bool" where
  "authorized token authorization = (if token = [] then True else bearer_matches authorization token)"

datatype upgrade = Refused nat string | Upgraded

text \<open>The dispatcher's token is there in the orchestrator role only.\<close>

definition cluster_ws :: "string option \<Rightarrow> bool \<Rightarrow> string option \<Rightarrow> upgrade" where
  "cluster_ws dispatcher registry authorization =
     (case dispatcher of
        None \<Rightarrow> Refused 404 ''cluster socket not enabled''
      | Some token \<Rightarrow>
          (if \<not> registry then Refused 404 ''cluster socket not enabled''
           else if \<not> authorized token authorization then Refused 401 ''missing or invalid cluster token''
           else Upgraded))"

fun read_hello :: "msg_reader \<Rightarrow> inbound list \<Rightarrow> (nat \<times> string) option" where
  "read_hello reader [] = None"
| "read_hello reader (Text t # rest) =
     (case reader t of Some (Hello slots name) \<Rightarrow> Some (slots, name) | _ \<Rightarrow> None)"
| "read_hello reader (Close_Frame # rest) = None"
| "read_hello reader (Stream_Error e # rest) = None"
| "read_hello reader (_ # rest) = read_hello reader rest"

definition clamp_slots :: "nat \<Rightarrow> nat" where
  "clamp_slots slots = min (max slots 1) MAX_SLOTS"

section \<open>A session\<close>

text \<open>A one-shot reply channel: nothing yet, a value, or its sender dropped.\<close>

datatype reply_slot = Waiting | Filled "string + json" | Sender_Dropped

datatype call_phase = Sending | Undeliverable | Awaiting | Returned "json app_result"

record call =
  ca_request :: job_request
  ca_slot :: reply_slot
  ca_phase :: call_phase
  ca_queued :: bool

text \<open>\<open>Open\<close>: in the I/O loop; \<open>Leaving\<close>: out of it; \<open>Cleared\<close>: the pending table is emptied;
  \<open>Closed\<close>: \<open>run_session\<close> returned, so the outbound receiver is gone.\<close>

datatype session_phase = Open | Leaving | Cleared | Closed

text \<open>\<open>se_sent\<close>, \<open>se_lost\<close> and \<open>se_results\<close> record the requests written to the socket, those thrown
  away, and the results read from it; \<open>se_mark\<close> how many calls had begun at the clearing.\<close>

record session =
  se_slots :: nat
  se_calls :: "call list"
  se_pending :: "(uuid \<times> nat) list"
  se_out :: "job_request list"
  se_phase :: session_phase
  se_sent :: "job_request list"
  se_lost :: "job_request list"
  se_results :: "(uuid \<times> outcome) list"
  se_mark :: nat

definition session_start :: "nat \<Rightarrow> session" where
  "session_start slots = \<lparr>se_slots = clamp_slots slots, se_calls = [], se_pending = [], se_out = [],
     se_phase = Open, se_sent = [], se_lost = [], se_results = [], se_mark = 0\<rparr>"

definition run_session_start :: "msg_reader \<Rightarrow> inbound list \<Rightarrow> session option" where
  "run_session_start reader frames =
     (case read_hello reader frames of None \<Rightarrow> None | Some (slots, name) \<Rightarrow> Some (session_start slots))"

definition call_open :: "call \<Rightarrow> bool" where
  "call_open c = (case ca_phase c of Returned _ \<Rightarrow> False | _ \<Rightarrow> True)"

definition upd_call :: "nat \<Rightarrow> (call \<Rightarrow> call) \<Rightarrow> session \<Rightarrow> session" where
  "upd_call c f s = s\<lparr>se_calls := (se_calls s)[c := f (se_calls s ! c)]\<rparr>"

text \<open>The entry of a job leaves the pending table, and its sender is used or dropped.\<close>

definition take_waiter :: "uuid \<Rightarrow> reply_slot \<Rightarrow> session \<Rightarrow> session" where
  "take_waiter j v s =
     (case map_of (se_pending s) j of
        None \<Rightarrow> s
      | Some c \<Rightarrow> upd_call c (\<lambda>x. x\<lparr>ca_slot := v\<rparr>) (s\<lparr>se_pending := AList.delete j (se_pending s)\<rparr>))"

definition add_call :: "job_request \<Rightarrow> session \<Rightarrow> session" where
  "add_call req s =
     s\<lparr>se_calls := se_calls s @ [\<lparr>ca_request = req, ca_slot = Waiting, ca_phase = Sending, ca_queued = False\<rparr>],
       se_pending := (rq_job_id req, length (se_calls s)) # se_pending s\<rparr>"

text \<open>\<open>RemoteExecutor::analyze\<close>: one lease loop runs one call at a time.  Inserting the waiter drops
  the sender of an older one for the same job.\<close>

definition analyze_begin :: "job_request \<Rightarrow> session \<Rightarrow> session" where
  "analyze_begin req s =
     (if length (filter call_open (se_calls s)) < se_slots s
      then add_call req (take_waiter (rq_job_id req) Sender_Dropped s)
      else s)"

definition analyze_send :: "nat \<Rightarrow> session \<Rightarrow> session" where
  "analyze_send c s =
     (if c < length (se_calls s) \<and> ca_phase (se_calls s ! c) = Sending then
        (if se_phase s = Closed then upd_call c (\<lambda>x. x\<lparr>ca_phase := Undeliverable\<rparr>) s
         else if length (se_out s) < se_slots s then
           upd_call c (\<lambda>x. x\<lparr>ca_phase := Awaiting, ca_queued := True\<rparr>)
             (s\<lparr>se_out := se_out s @ [ca_request (se_calls s ! c)]\<rparr>)
         else s)
      else s)"

definition analyze_undeliverable :: "nat \<Rightarrow> session \<Rightarrow> session" where
  "analyze_undeliverable c s =
     (if c < length (se_calls s) \<and> ca_phase (se_calls s ! c) = Undeliverable then
        upd_call c (\<lambda>x. x\<lparr>ca_phase := Returned (Inl (Queue ''worker socket closed before dispatch''))\<rparr>)
          (take_waiter (rq_job_id (ca_request (se_calls s ! c))) Sender_Dropped s)
      else s)"

fun slot_answer :: "reply_slot \<Rightarrow> json app_result option" where
  "slot_answer Waiting = None"
| "slot_answer (Filled (Inr v)) = Some (Inr v)"
| "slot_answer (Filled (Inl message)) = Some (Inl (Inference message))"
| "slot_answer Sender_Dropped = Some (Inl (Queue ''worker disconnected before result''))"

definition analyze_await :: "nat \<Rightarrow> session \<Rightarrow> session" where
  "analyze_await c s =
     (if c < length (se_calls s) \<and> ca_phase (se_calls s ! c) = Awaiting then
        (case slot_answer (ca_slot (se_calls s ! c)) of
           None \<Rightarrow> s
         | Some r \<Rightarrow> upd_call c (\<lambda>x. x\<lparr>ca_phase := Returned r\<rparr>) s)
      else s)"

text \<open>The I/O loop.\<close>

fun outcome_result :: "outcome \<Rightarrow> string + json" where
  "outcome_result (Outcome_Ok v) = Inr v"
| "outcome_result (Outcome_Err message) = Inl message"

definition complete_job :: "uuid \<Rightarrow> outcome \<Rightarrow> session \<Rightarrow> session" where
  "complete_job j oc s = take_waiter j (Filled (outcome_result oc)) s"

datatype frame_sent = Frame_Sent | Frame_Unserialized | Frame_Failed

definition io_outbound :: "frame_sent \<Rightarrow> session \<Rightarrow> session" where
  "io_outbound fs s =
     (case se_out s of
        [] \<Rightarrow> s
      | req # rest \<Rightarrow>
          (case fs of
             Frame_Sent \<Rightarrow> s\<lparr>se_out := rest, se_sent := se_sent s @ [req]\<rparr>
           | Frame_Unserialized \<Rightarrow> s\<lparr>se_out := rest, se_lost := se_lost s @ [req]\<rparr>
           | Frame_Failed \<Rightarrow> s\<lparr>se_out := rest, se_lost := se_lost s @ [req], se_phase := Leaving\<rparr>))"

fun io_inbound :: "msg_reader \<Rightarrow> inbound option \<Rightarrow> session \<Rightarrow> session" where
  "io_inbound reader (Some (Text t)) s =
     (case reader t of
        Some (Result j oc) \<Rightarrow> complete_job j oc (s\<lparr>se_results := se_results s @ [(j, oc)]\<rparr>)
      | Some (Hello _ _) \<Rightarrow> s
      | None \<Rightarrow> s)"
| "io_inbound reader (Some Ping) s = s"
| "io_inbound reader (Some Other_Frame) s = s"
| "io_inbound reader (Some Close_Frame) s = s\<lparr>se_phase := Leaving\<rparr>"
| "io_inbound reader (Some (Stream_Error e)) s = s\<lparr>se_phase := Leaving\<rparr>"
| "io_inbound reader None s = s\<lparr>se_phase := Leaving\<rparr>"

text \<open>The teardown: the pending table is cleared, and only then does the function return.\<close>

definition clear_pending :: "session \<Rightarrow> session" where
  "clear_pending s =
     (foldl (\<lambda>t j. take_waiter j Sender_Dropped t) s (map fst (se_pending s)))
       \<lparr>se_phase := Cleared, se_mark := length (se_calls s)\<rparr>"

definition close_session :: "session \<Rightarrow> session" where
  "close_session s = s\<lparr>se_lost := se_lost s @ se_out s, se_out := [], se_phase := Closed\<rparr>"

datatype session_event =
    Begin job_request
  | Send nat
  | Undeliver nat
  | Await nat
  | Outbound frame_sent
  | Inbound "inbound option"
  | Cancelled
  | Clear
  | Close

fun session_step :: "msg_reader \<Rightarrow> session_event \<Rightarrow> session \<Rightarrow> session" where
  "session_step reader (Begin req) s = analyze_begin req s"
| "session_step reader (Send c) s = analyze_send c s"
| "session_step reader (Undeliver c) s = analyze_undeliverable c s"
| "session_step reader (Await c) s = analyze_await c s"
| "session_step reader (Outbound fs) s = (if se_phase s = Open then io_outbound fs s else s)"
| "session_step reader (Inbound frame) s = (if se_phase s = Open then io_inbound reader frame s else s)"
| "session_step reader Cancelled s = (if se_phase s = Open then s\<lparr>se_phase := Leaving\<rparr> else s)"
| "session_step reader Clear s = (if se_phase s = Leaving then clear_pending s else s)"
| "session_step reader Close s = (if se_phase s = Cleared then close_session s else s)"

inductive session_reachable :: "msg_reader \<Rightarrow> session \<Rightarrow> bool" for reader where
  start: "session_reachable reader (session_start slots)"
| step: "session_reachable reader s \<Longrightarrow> session_reachable reader (session_step reader ev s)"

section \<open>Steps\<close>

abbreviation call_of :: "session \<Rightarrow> nat \<Rightarrow> call" where
  "call_of s c \<equiv> se_calls s ! c"

abbreviation job_of :: "call \<Rightarrow> uuid" where
  "job_of x \<equiv> rq_job_id (ca_request x)"

lemma upd_call_fields [simp]:
  "length (se_calls (upd_call c f s)) = length (se_calls s)"
  "se_pending (upd_call c f s) = se_pending s" "se_out (upd_call c f s) = se_out s"
  "se_phase (upd_call c f s) = se_phase s" "se_slots (upd_call c f s) = se_slots s"
  "se_sent (upd_call c f s) = se_sent s" "se_lost (upd_call c f s) = se_lost s"
  "se_results (upd_call c f s) = se_results s" "se_mark (upd_call c f s) = se_mark s"
  by (simp_all add: upd_call_def)

lemma upd_call_nth [simp]:
  "d < length (se_calls s) \<Longrightarrow> call_of (upd_call c f s) d = (if c = d then f (call_of s d) else call_of s d)"
  by (simp add: upd_call_def)

lemma take_waiter_fields [simp]:
  "length (se_calls (take_waiter j v s)) = length (se_calls s)" "se_out (take_waiter j v s) = se_out s"
  "se_phase (take_waiter j v s) = se_phase s" "se_slots (take_waiter j v s) = se_slots s"
  "se_sent (take_waiter j v s) = se_sent s" "se_lost (take_waiter j v s) = se_lost s"
  "se_results (take_waiter j v s) = se_results s" "se_mark (take_waiter j v s) = se_mark s"
  by (simp_all add: take_waiter_def split: option.splits)

lemma take_waiter_pending [simp]: "se_pending (take_waiter j v s) = AList.delete j (se_pending s)"
proof (cases "map_of (se_pending s) j")
  case None
  then have "AList.delete j (se_pending s) = se_pending s"
    by (simp add: map_of_eq_None_iff delete_id)
  with None show ?thesis by (simp add: take_waiter_def)
qed (simp add: take_waiter_def)

lemma take_waiter_nth [simp]:
  "c < length (se_calls s) \<Longrightarrow> call_of (take_waiter j v s) c =
     (if map_of (se_pending s) j = Some c then (call_of s c)\<lparr>ca_slot := v\<rparr> else call_of s c)"
  by (auto simp: take_waiter_def upd_call_def split: option.splits)

lemma in_flight_slot [simp]: "call_open (x\<lparr>ca_slot := v\<rparr>) = call_open x"
  by (simp add: call_open_def)

lemma in_flight_phase [simp]:
  "call_open (x\<lparr>ca_phase := p\<rparr>) = (case p of Returned r \<Rightarrow> False | _ \<Rightarrow> True)"
  by (simp add: call_open_def)

lemma in_flight_queued [simp]: "call_open (x\<lparr>ca_queued := q\<rparr>) = call_open x"
  by (simp add: call_open_def)

lemma map_in_flight_update:
  "c < length xs \<Longrightarrow> call_open y = call_open (xs ! c) \<Longrightarrow> map call_open (xs[c := y]) = map call_open xs"
  by (simp add: map_update list_update_same_conv)

lemma count_in_flight: "length (filter call_open xs) = count_list (map call_open xs) True"
  by (induction xs) simp_all

lemma take_waiter_in_flight [simp]:
  "map call_open (se_calls (take_waiter j v s)) = map call_open (se_calls s)"
  by (rule nth_equalityI) (simp_all add: nth_map)

lemma clear_fold:
  "se_pending (foldl (\<lambda>t j. take_waiter j v t) s js) = foldl (\<lambda>p j. AList.delete j p) (se_pending s) js"
  by (induction js arbitrary: s) simp_all

lemma delete_all: "set (map fst p) \<subseteq> set js \<Longrightarrow> foldl (\<lambda>p j. AList.delete j p) p js = []"
proof (induction js arbitrary: p)
  case Nil
  then show ?case by simp
next
  case (Cons j js)
  have "set (map fst (AList.delete j p)) \<subseteq> set js" using Cons.prems keys_delete [of j p] by auto
  then show ?case using Cons.IH by simp
qed

text \<open>A condition that every operation keeps holds in every reachable session.\<close>

locale session_kept =
  fixes P :: "session \<Rightarrow> bool"
  assumes on_start: "P (session_start n)"
    and on_drop: "P s \<Longrightarrow> P (take_waiter j Sender_Dropped s)"
    and on_add: "P s \<Longrightarrow> rq_job_id req \<notin> set (map fst (se_pending s)) \<Longrightarrow>
      length (filter call_open (se_calls s)) < se_slots s \<Longrightarrow> P (add_call req s)"
    and on_send: "P s \<Longrightarrow> P (analyze_send c s)"
    and on_undeliverable: "P s \<Longrightarrow> P (analyze_undeliverable c s)"
    and on_await: "P s \<Longrightarrow> P (analyze_await c s)"
    and on_outbound: "P s \<Longrightarrow> se_phase s = Open \<Longrightarrow> P (io_outbound fs s)"
    and on_result: "P s \<Longrightarrow> se_phase s = Open \<Longrightarrow> P (complete_job j oc (s\<lparr>se_results := se_results s @ [(j, oc)]\<rparr>))"
    and on_leave: "P s \<Longrightarrow> se_phase s = Open \<Longrightarrow> P (s\<lparr>se_phase := Leaving\<rparr>)"
    and on_mark: "P s \<Longrightarrow> se_pending s = [] \<Longrightarrow> se_phase s = Leaving \<Longrightarrow>
      P (s\<lparr>se_phase := Cleared, se_mark := length (se_calls s)\<rparr>)"
    and on_close: "P s \<Longrightarrow> se_phase s = Cleared \<Longrightarrow> P (close_session s)"
begin

lemma begin_kept: "P s \<Longrightarrow> P (analyze_begin req s)"
  unfolding analyze_begin_def
  using on_add [OF on_drop, of s req "rq_job_id req"] keys_delete [of "rq_job_id req" "se_pending s"]
  by (auto simp: count_in_flight simp del: set_map)

lemma clear_kept: "P s \<Longrightarrow> se_phase s = Leaving \<Longrightarrow> P (clear_pending s)"
proof -
  assume s: "P s" "se_phase s = Leaving"
  let ?f = "\<lambda>js. foldl (\<lambda>t j. take_waiter j Sender_Dropped t) s js"
  have "P (?f js) \<and> se_phase (?f js) = Leaving \<and> length (se_calls (?f js)) = length (se_calls s)" for js
    by (induction js rule: rev_induct) (simp_all add: s on_drop)
  then show ?thesis
    using on_mark [of "?f (map fst (se_pending s))"] by (simp add: clear_pending_def clear_fold delete_all)
qed

lemma inbound_kept: "P s \<Longrightarrow> se_phase s = Open \<Longrightarrow> P (io_inbound reader frame s)"
  by (cases "(reader, frame, s)" rule: io_inbound.cases)
    (auto simp: on_result on_leave split: option.splits client_msg.splits)

lemma reachable: "session_reachable reader s \<Longrightarrow> P s"
proof (induction rule: session_reachable.induct)
  case (start slots)
  show ?case by (rule on_start)
next
  case (step s ev)
  then show ?case
    by (cases ev) (simp_all add: begin_kept on_send on_undeliverable on_await on_outbound inbound_kept
        on_leave clear_kept on_close)
qed

end

section \<open>Invariants\<close>

definition waits :: "call \<Rightarrow> bool" where
  "waits x = (ca_slot x = Waiting \<and> call_open x)"

lemma waits_phase: "call_open (x\<lparr>ca_phase := p\<rparr>) = call_open x \<Longrightarrow> waits (x\<lparr>ca_phase := p\<rparr>) = waits x"
  by (simp add: waits_def)

lemma waits_simps [simp]:
  "waits (x\<lparr>ca_slot := Sender_Dropped\<rparr>) = False" "waits (x\<lparr>ca_slot := Filled r\<rparr>) = False"
  "waits (x\<lparr>ca_phase := Returned a\<rparr>) = False" "waits (x\<lparr>ca_queued := q\<rparr>) = waits x"
  "waits \<lparr>ca_request = req, ca_slot = Waiting, ca_phase = Sending, ca_queued = q\<rparr>"
  by (simp_all add: waits_def call_open_def)

text \<open>The pending table holds exactly the calls whose reply channel is still open, under their job.\<close>

definition waiters_ok :: "session \<Rightarrow> bool" where
  "waiters_ok s = (distinct (map fst (se_pending s)) \<and>
     (\<forall>j c. (j, c) \<in> set (se_pending s) \<longleftrightarrow> c < length (se_calls s) \<and> waits (call_of s c) \<and> j = job_of (call_of s c)) \<and>
     se_mark s \<le> length (se_calls s) \<and>
     (se_phase s \<in> {Cleared, Closed} \<longrightarrow> (\<forall>c < length (se_calls s). c < se_mark s \<longrightarrow> \<not> waits (call_of s c))))"

lemma delete_mem: "(j, c) \<in> set (AList.delete k xs) \<longleftrightarrow> (j, c) \<in> set xs \<and> j \<noteq> k"
  by (auto simp: AList.delete_eq)

lemma waiters_ok_take:
  assumes "waiters_ok s" and "v \<noteq> Waiting"
  shows "waiters_ok (take_waiter j v s)"
proof -
  have d: "distinct (map fst (se_pending s))" using assms(1) by (simp add: waiters_ok_def)
  have v: "\<not> waits (x\<lparr>ca_slot := v\<rparr>)" for x using assms(2) by (simp add: waits_def)
  have m: "map_of (se_pending s) j = Some c \<longleftrightarrow> (j, c) \<in> set (se_pending s)" for c
    using d by simp
  have t: "job_of (call_of (take_waiter j v s) c) = job_of (call_of s c)"
      "waits (call_of (take_waiter j v s) c) = (waits (call_of s c) \<and> (j, c) \<notin> set (se_pending s))"
    if "c < length (se_calls s)" for c
    using that v by (simp_all add: m)
  show ?thesis
    using assms(1) t unfolding waiters_ok_def
    by (auto simp: delete_mem distinct_delete simp del: take_waiter_nth)
qed

lemma waiters_ok_upd:
  assumes "waiters_ok s" and "c < length (se_calls s)"
    and "waits (f (call_of s c)) = waits (call_of s c)" and "ca_request (f (call_of s c)) = ca_request (call_of s c)"
  shows "waiters_ok (upd_call c f s)"
  using assms unfolding waiters_ok_def by (auto split: if_splits)

lemma waiters_ok_fields [simp]:
  "waiters_ok (s\<lparr>se_out := ob\<rparr>) = waiters_ok s" "waiters_ok (s\<lparr>se_sent := x\<rparr>) = waiters_ok s"
  "waiters_ok (s\<lparr>se_lost := x\<rparr>) = waiters_ok s" "waiters_ok (s\<lparr>se_results := rs\<rparr>) = waiters_ok s"
  by (simp_all add: waiters_ok_def)

interpretation waiters: session_kept waiters_ok
proof unfold_locales
  show "waiters_ok (session_start n)" for n by (simp add: waiters_ok_def session_start_def)
  show "waiters_ok s \<Longrightarrow> waiters_ok (take_waiter j Sender_Dropped s)" for s j by (simp add: waiters_ok_take)
  show "waiters_ok s \<Longrightarrow> waiters_ok (complete_job j oc (s\<lparr>se_results := se_results s @ [(j, oc)]\<rparr>))" for s j oc
    by (simp add: complete_job_def waiters_ok_take)
  show "waiters_ok s \<Longrightarrow> rq_job_id req \<notin> set (map fst (se_pending s)) \<Longrightarrow> waiters_ok (add_call req s)" for s req
    unfolding waiters_ok_def add_call_def by (auto simp: nth_append less_Suc_eq)
  show "waiters_ok s \<Longrightarrow> waiters_ok (analyze_send c s)" for s c
    unfolding analyze_send_def
    by (auto intro!: waiters_ok_upd simp: waits_def call_open_def)
  show "waiters_ok s \<Longrightarrow> waiters_ok (analyze_await c s)" for s c
    unfolding analyze_await_def
    by (auto intro!: waiters_ok_upd simp: waits_def split: option.splits)
  show "waiters_ok (analyze_undeliverable c s)" if ok: "waiters_ok s" for s c
  proof (cases "c < length (se_calls s) \<and> ca_phase (call_of s c) = Undeliverable")
    case True
    let ?j = "job_of (call_of s c)"
    let ?t = "take_waiter ?j Sender_Dropped s"
    have t: "waiters_ok ?t" using ok by (simp add: waiters_ok_take)
    have "\<not> waits (call_of ?t c)"
    proof
      assume "waits (call_of ?t c)"
      then have "(job_of (call_of ?t c), c) \<in> set (se_pending ?t)"
        using t True unfolding waiters_ok_def by simp
      then show False using True by (auto simp: delete_mem split: if_splits)
    qed
    then show ?thesis
      using t True by (auto simp: analyze_undeliverable_def intro!: waiters_ok_upd)
  next
    case False
    then show ?thesis using ok by (auto simp: analyze_undeliverable_def)
  qed
  show "waiters_ok s \<Longrightarrow> se_phase s = Open \<Longrightarrow> waiters_ok (io_outbound fs s)" for s fs
    by (cases fs) (auto simp: io_outbound_def waiters_ok_def split: list.splits)
  show "waiters_ok s \<Longrightarrow> se_phase s = Open \<Longrightarrow> waiters_ok (s\<lparr>se_phase := Leaving\<rparr>)" for s
    by (simp add: waiters_ok_def)
  show "waiters_ok s \<Longrightarrow> se_pending s = [] \<Longrightarrow>
      waiters_ok (s\<lparr>se_phase := Cleared, se_mark := length (se_calls s)\<rparr>)" for s
    by (auto simp: waiters_ok_def)
  show "waiters_ok s \<Longrightarrow> se_phase s = Cleared \<Longrightarrow> waiters_ok (close_session s)" for s
    by (simp add: waiters_ok_def close_session_def)
qed

lemma split_at_index:
  assumes "c < length xs"
  obtains as x bs where "xs = as @ x # bs" and "length as = c" and "xs ! c = x"
  using assms by (metis id_take_nth_drop length_take min.absorb2 less_imp_le_nat)

lemma mset_filter_update:
  assumes "c < length xs"
  shows "mset (filter P (xs[c := y])) + (if P (xs ! c) then {#xs ! c#} else {#}) =
     mset (filter P xs) + (if P y then {#y#} else {#})"
  using assms by (elim split_at_index) (auto simp: list_update_append)

lemma length_filter_update:
  assumes "c < length xs" and "P y \<Longrightarrow> P (xs ! c)"
  shows "length (filter P (xs[c := y])) \<le> length (filter P xs)"
  using assms by (elim split_at_index) (auto simp: list_update_append)

text \<open>What a call returns is what its reply channel got, and that came from a result frame; each frame
  fills at most one channel.\<close>

definition is_filled :: "call \<Rightarrow> bool" where
  "is_filled x = (case ca_slot x of Filled _ \<Rightarrow> True | _ \<Rightarrow> False)"

definition reply_of :: "call \<Rightarrow> uuid \<times> reply_slot" where
  "reply_of x = (job_of x, ca_slot x)"

definition result_reply :: "uuid \<times> outcome \<Rightarrow> uuid \<times> reply_slot" where
  "result_reply = (\<lambda>(j, oc). (j, Filled (outcome_result oc)))"

definition not_dispatched :: "json app_result" where
  "not_dispatched = Inl (Queue ''worker socket closed before dispatch'')"

definition returns_ok :: "call \<Rightarrow> bool" where
  "returns_ok x = (case ca_phase x of
     Returned r \<Rightarrow> slot_answer (ca_slot x) = Some r \<or> r = not_dispatched
   | _ \<Rightarrow> True)"

definition replies_ok :: "session \<Rightarrow> bool" where
  "replies_ok s = (waiters_ok s \<and> list_all returns_ok (se_calls s) \<and>
     image_mset reply_of (mset (filter is_filled (se_calls s))) \<subseteq># image_mset result_reply (mset (se_results s)))"

lemma replies_ok_upd:
  assumes "replies_ok s" and "c < length (se_calls s)" and "waiters_ok (upd_call c f s)"
    and "returns_ok (f (call_of s c))" and "is_filled (f (call_of s c)) = is_filled (call_of s c)"
    and "reply_of (f (call_of s c)) = reply_of (call_of s c)"
  shows "replies_ok (upd_call c f s)"
proof -
  have "image_mset reply_of (mset (filter is_filled (se_calls (upd_call c f s)))) =
      image_mset reply_of (mset (filter is_filled (se_calls s)))"
    using arg_cong [OF mset_filter_update [of c "se_calls s" is_filled "f (call_of s c)"], of "image_mset reply_of"]
      assms(2,5,6) by (auto simp: upd_call_def split: if_splits)
  moreover have "list_all returns_ok (se_calls (upd_call c f s))"
    using assms(1,2,4) by (auto simp: replies_ok_def upd_call_def list_all_length nth_list_update)
  ultimately show ?thesis using assms(1,3) by (simp add: replies_ok_def)
qed

lemma pending_call:
  "waiters_ok s \<Longrightarrow> map_of (se_pending s) j = Some c \<Longrightarrow>
     c < length (se_calls s) \<and> waits (call_of s c) \<and> j = job_of (call_of s c)"
  unfolding waiters_ok_def using map_of_SomeD [of "se_pending s" j c] by blast

lemma replies_ok_take:
  assumes "replies_ok s"
    and "v = Sender_Dropped \<and> rs = [] \<or> (\<exists>oc. v = Filled (outcome_result oc) \<and> rs = [(j, oc)])"
  shows "replies_ok (take_waiter j v (s\<lparr>se_results := se_results s @ rs\<rparr>))"
proof -
  let ?t = "s\<lparr>se_results := se_results s @ rs\<rparr>"
  have w: "waiters_ok s" using assms(1) by (simp add: replies_ok_def)
  have w': "waiters_ok (take_waiter j v ?t)" using assms(2) w by (intro waiters_ok_take) auto
  show ?thesis
  proof (cases "map_of (se_pending s) j")
    case None
    then have "take_waiter j v ?t = ?t" by (simp add: take_waiter_def)
    then show ?thesis using assms(1) by (auto simp: replies_ok_def intro: subset_mset.trans)
  next
    case (Some c)
    have c: "c < length (se_calls s)" "waits (call_of s c)" "j = job_of (call_of s c)"
      using pending_call [OF w Some] by simp_all
    let ?y = "(call_of s c)\<lparr>ca_slot := v\<rparr>"
    have calls: "se_calls (take_waiter j v ?t) = (se_calls s)[c := ?y]"
      by (simp add: take_waiter_def Some upd_call_def)
    have "\<not> is_filled (call_of s c)" using c(2) by (simp add: waits_def is_filled_def)
    then have "mset (filter is_filled ((se_calls s)[c := ?y])) =
        mset (filter is_filled (se_calls s)) + (if is_filled ?y then {#?y#} else {#})"
      using mset_filter_update [OF c(1), of is_filled ?y] by simp
    then have m: "image_mset reply_of (mset (filter is_filled ((se_calls s)[c := ?y]))) =
        image_mset reply_of (mset (filter is_filled (se_calls s))) + image_mset result_reply (mset rs)"
      using assms(2) c(3) by (auto simp: is_filled_def reply_of_def result_reply_def)
    have "returns_ok ?y" using c(2) by (simp add: waits_def returns_ok_def call_open_def split: call_phase.splits)
    then have "list_all returns_ok ((se_calls s)[c := ?y])"
      using assms(1) c(1) by (auto simp: replies_ok_def list_all_length nth_list_update)
    then show ?thesis
      using assms(1) w' calls m by (auto simp: replies_ok_def)
  qed
qed

interpretation replies: session_kept replies_ok
proof unfold_locales
  show "replies_ok (session_start n)" for n
    using waiters.on_start [of n] by (simp add: replies_ok_def session_start_def)
  show drop: "replies_ok s \<Longrightarrow> replies_ok (take_waiter j Sender_Dropped s)" for s j
    using replies_ok_take [of s Sender_Dropped "[]" j] by simp
  show "replies_ok s \<Longrightarrow> replies_ok (complete_job j oc (s\<lparr>se_results := se_results s @ [(j, oc)]\<rparr>))" for s j oc
    unfolding complete_job_def by (rule replies_ok_take) auto
  show "replies_ok s \<Longrightarrow> rq_job_id req \<notin> set (map fst (se_pending s)) \<Longrightarrow>
      length (filter call_open (se_calls s)) < se_slots s \<Longrightarrow> replies_ok (add_call req s)" for s req
    using waiters.on_add [of s req]
    by (auto simp: replies_ok_def add_call_def is_filled_def returns_ok_def)
  show "replies_ok (analyze_send c s)" if ok: "replies_ok s" for s c
  proof -
    have w: "waiters_ok (analyze_send c s)" using ok waiters.on_send by (simp add: replies_ok_def)
    have "replies_ok (s\<lparr>se_out := ob\<rparr>)" for ob using ok by (simp add: replies_ok_def)
    then show ?thesis
      using ok w by (auto simp: analyze_send_def returns_ok_def is_filled_def reply_of_def
          intro!: replies_ok_upd split: if_splits)
  qed
  show "replies_ok (analyze_await c s)" if ok: "replies_ok s" for s c
  proof -
    have w: "waiters_ok (analyze_await c s)" using ok waiters.on_await by (simp add: replies_ok_def)
    then show ?thesis
      using ok by (auto simp: analyze_await_def returns_ok_def is_filled_def reply_of_def
          intro!: replies_ok_upd split: if_splits option.splits)
  qed
  show "replies_ok (analyze_undeliverable c s)" if ok: "replies_ok s" for s c
  proof -
    have w: "waiters_ok (analyze_undeliverable c s)" using ok waiters.on_undeliverable by (simp add: replies_ok_def)
    then show ?thesis
      using ok drop [OF ok] by (auto simp: analyze_undeliverable_def returns_ok_def is_filled_def reply_of_def
          not_dispatched_def intro!: replies_ok_upd split: if_splits)
  qed
  show "replies_ok s \<Longrightarrow> se_phase s = Open \<Longrightarrow> replies_ok (io_outbound fs s)" for s fs
    using waiters.on_outbound [of s fs]
    by (cases fs) (auto simp: io_outbound_def replies_ok_def split: list.splits)
  show "replies_ok s \<Longrightarrow> se_phase s = Open \<Longrightarrow> replies_ok (s\<lparr>se_phase := Leaving\<rparr>)" for s
    using waiters.on_leave [of s] by (simp add: replies_ok_def)
  show "replies_ok s \<Longrightarrow> se_pending s = [] \<Longrightarrow> se_phase s = Leaving \<Longrightarrow>
      replies_ok (s\<lparr>se_phase := Cleared, se_mark := length (se_calls s)\<rparr>)" for s
    using waiters.on_mark [of s] by (simp add: replies_ok_def)
  show "replies_ok s \<Longrightarrow> se_phase s = Cleared \<Longrightarrow> replies_ok (close_session s)" for s
    using waiters.on_close [of s] by (simp add: replies_ok_def close_session_def)
qed

text \<open>Every queued request is in the channel, written to the socket or thrown away, once; and the lease
  loops are the only senders.\<close>

definition dispatch_ok :: "session \<Rightarrow> bool" where
  "dispatch_ok s = (1 \<le> se_slots s \<and> se_slots s \<le> MAX_SLOTS \<and> length (se_out s) \<le> se_slots s \<and>
     length (filter call_open (se_calls s)) \<le> se_slots s \<and>
     list_all (\<lambda>x. ca_phase x = Sending \<longrightarrow> \<not> ca_queued x) (se_calls s) \<and>
     mset (se_sent s) + mset (se_out s) + mset (se_lost s) =
       image_mset ca_request (mset (filter ca_queued (se_calls s))))"

lemma dispatch_ok_upd:
  assumes "dispatch_ok s" and "c < length (se_calls s)"
    and "call_open (f (call_of s c)) \<Longrightarrow> call_open (call_of s c)"
    and "ca_phase (f (call_of s c)) = Sending \<Longrightarrow> ca_phase (call_of s c) = Sending"
    and "ca_queued (f (call_of s c)) = ca_queued (call_of s c)"
    and "ca_request (f (call_of s c)) = ca_request (call_of s c)"
  shows "dispatch_ok (upd_call c f s)"
proof -
  let ?y = "f (call_of s c)"
  have "length (filter call_open ((se_calls s)[c := ?y])) \<le> length (filter call_open (se_calls s))"
    using assms(2,3) by (rule length_filter_update)
  moreover have "image_mset ca_request (mset (filter ca_queued ((se_calls s)[c := ?y]))) =
      image_mset ca_request (mset (filter ca_queued (se_calls s)))"
    using arg_cong [OF mset_filter_update [of c "se_calls s" ca_queued ?y], of "image_mset ca_request"]
      assms(2,5,6) by (auto split: if_splits)
  moreover have "list_all (\<lambda>x. ca_phase x = Sending \<longrightarrow> \<not> ca_queued x) ((se_calls s)[c := ?y])"
    using assms(1,2,4,5) by (auto simp: dispatch_ok_def list_all_length nth_list_update)
  ultimately show ?thesis using assms(1) by (simp add: dispatch_ok_def upd_call_def)
qed

lemma dispatch_ok_take: "dispatch_ok s \<Longrightarrow> waiters_ok s \<Longrightarrow> dispatch_ok (take_waiter j v s)"
proof (cases "map_of (se_pending s) j")
  case (Some c)
  assume s: "dispatch_ok s" "waiters_ok s"
  have "dispatch_ok (s\<lparr>se_pending := AList.delete j (se_pending s)\<rparr>)" using s(1) by (simp add: dispatch_ok_def)
  then have "dispatch_ok (upd_call c (\<lambda>x. x\<lparr>ca_slot := v\<rparr>) (s\<lparr>se_pending := AList.delete j (se_pending s)\<rparr>))"
    using pending_call [OF s(2) Some] by (intro dispatch_ok_upd) auto
  then show ?thesis by (simp add: take_waiter_def Some)
qed (simp add: take_waiter_def)

lemma dispatch_ok_send: "dispatch_ok s \<Longrightarrow> dispatch_ok (analyze_send c s)"
proof (cases "c < length (se_calls s) \<and> ca_phase (call_of s c) = Sending")
  case True
  assume ok: "dispatch_ok s"
  let ?y = "(call_of s c)\<lparr>ca_phase := Awaiting, ca_queued := True\<rparr>"
  have nq: "\<not> ca_queued (call_of s c)" using ok True by (auto simp: dispatch_ok_def list_all_length)
  have fl: "length (filter call_open ((se_calls s)[c := ?y])) \<le> length (filter call_open (se_calls s))"
    using True by (intro length_filter_update) (auto simp: call_open_def)
  have q: "mset (filter ca_queued ((se_calls s)[c := ?y])) = add_mset ?y (mset (filter ca_queued (se_calls s)))"
    using mset_filter_update [of c "se_calls s" ca_queued ?y] True nq by simp
  have l: "list_all (\<lambda>x. ca_phase x = Sending \<longrightarrow> \<not> ca_queued x) ((se_calls s)[c := ?y])"
    using ok True by (auto simp: dispatch_ok_def list_all_length nth_list_update)
  show ?thesis
  proof (cases "se_phase s = Closed")
    case False
    then show ?thesis
      using ok True fl q l by (auto simp: analyze_send_def dispatch_ok_def upd_call_def)
  next
    case closed: True
    then show ?thesis
      using ok True by (auto simp: analyze_send_def call_open_def intro!: dispatch_ok_upd)
  qed
qed (auto simp: analyze_send_def)

interpretation dispatch: session_kept "\<lambda>s. dispatch_ok s \<and> waiters_ok s"
proof (unfold_locales; (elim conjE)?)
  show "dispatch_ok (session_start n) \<and> waiters_ok (session_start n)" for n
    using waiters.on_start [of n]
    by (auto simp: dispatch_ok_def session_start_def clamp_slots_def MAX_SLOTS_def)
next
  fix s c assume ok: "dispatch_ok s" "waiters_ok s"
  show "dispatch_ok (analyze_send c s) \<and> waiters_ok (analyze_send c s)"
    using ok by (simp add: dispatch_ok_send waiters.on_send)
  show "dispatch_ok (analyze_await c s) \<and> waiters_ok (analyze_await c s)"
    using ok waiters.on_await [of s c]
    by (auto simp: analyze_await_def call_open_def intro!: dispatch_ok_upd split: option.splits)
  have "dispatch_ok (take_waiter j Sender_Dropped s)" for j using ok by (rule dispatch_ok_take)
  then show "dispatch_ok (analyze_undeliverable c s) \<and> waiters_ok (analyze_undeliverable c s)"
    using ok waiters.on_undeliverable [of s c]
    by (auto simp: analyze_undeliverable_def call_open_def intro!: dispatch_ok_upd)
next
  fix s j assume ok: "dispatch_ok s" "waiters_ok s"
  show "dispatch_ok (take_waiter j Sender_Dropped s) \<and> waiters_ok (take_waiter j Sender_Dropped s)"
    using ok by (simp add: dispatch_ok_take waiters.on_drop)
next
  fix s j oc assume ok: "dispatch_ok s" "waiters_ok s" and "se_phase s = Open"
  let ?t = "s\<lparr>se_results := se_results s @ [(j, oc)]\<rparr>"
  have "dispatch_ok ?t" using ok(1) by (simp add: dispatch_ok_def)
  then show "dispatch_ok (complete_job j oc ?t) \<and> waiters_ok (complete_job j oc ?t)"
    using ok(2) by (simp add: complete_job_def dispatch_ok_take waiters_ok_take)
next
  fix s and req :: job_request assume "dispatch_ok s" "waiters_ok s" "rq_job_id req \<notin> set (map fst (se_pending s))"
    "length (filter call_open (se_calls s)) < se_slots s"
  then show "dispatch_ok (add_call req s) \<and> waiters_ok (add_call req s)"
    using waiters.on_add [of s req] by (auto simp: dispatch_ok_def add_call_def)
next
  fix s fs assume "dispatch_ok s" "waiters_ok s" "se_phase s = Open"
  then show "dispatch_ok (io_outbound fs s) \<and> waiters_ok (io_outbound fs s)"
    using waiters.on_outbound [of s fs]
    by (cases fs) (auto simp: io_outbound_def dispatch_ok_def split: list.splits)
next
  fix s assume "dispatch_ok s" "waiters_ok s" "se_phase s = Open"
  then show "dispatch_ok (s\<lparr>se_phase := Leaving\<rparr>) \<and> waiters_ok (s\<lparr>se_phase := Leaving\<rparr>)"
    using waiters.on_leave [of s] by (auto simp: dispatch_ok_def)
next
  fix s assume "dispatch_ok s" "waiters_ok s" "se_pending s = []" "se_phase s = Leaving"
  then show "dispatch_ok (s\<lparr>se_phase := Cleared, se_mark := length (se_calls s)\<rparr>) \<and>
      waiters_ok (s\<lparr>se_phase := Cleared, se_mark := length (se_calls s)\<rparr>)"
    using waiters.on_mark [of s] by (auto simp: dispatch_ok_def)
next
  fix s assume "dispatch_ok s" "waiters_ok s" "se_phase s = Cleared"
  then show "dispatch_ok (close_session s) \<and> waiters_ok (close_session s)"
    using waiters.on_close [of s] by (auto simp: dispatch_ok_def close_session_def ac_simps)
qed

lemma pending_le_in_flight:
  assumes "waiters_ok s"
  shows "length (se_pending s) \<le> length (filter call_open (se_calls s))"
proof -
  have d: "distinct (se_pending s)" using assms by (simp add: waiters_ok_def distinct_map)
  have i: "inj_on snd (set (se_pending s))"
  proof (rule inj_onI)
    fix x y assume "x \<in> set (se_pending s)" "y \<in> set (se_pending s)" "snd x = snd y"
    moreover obtain j c j' c' where "x = (j, c)" "y = (j', c')" by (cases x; cases y)
    ultimately show "x = y" using assms unfolding waiters_ok_def by auto
  qed
  have "length (se_pending s) = card (snd ` set (se_pending s))"
    using d i by (simp add: card_image distinct_card)
  also have "snd ` set (se_pending s) \<subseteq> {c. c < length (se_calls s) \<and> call_open (call_of s c)}"
    using assms unfolding waiters_ok_def waits_def by auto
  then have "card (snd ` set (se_pending s)) \<le> card {c. c < length (se_calls s) \<and> call_open (call_of s c)}"
    by (intro card_mono) auto
  finally show ?thesis by (simp add: length_filter_conv_card)
qed

lemma session_reachable_run:
  "session_reachable reader s \<Longrightarrow> session_reachable reader (fold (session_step reader) evs s)"
  by (induction evs arbitrary: s) (auto intro: session_reachable.step)

definition skipped :: "inbound \<Rightarrow> bool" where
  "skipped f = (f = Ping \<or> f = Other_Frame)"

lemma read_hello_skip: "list_all skipped before \<Longrightarrow> read_hello reader (before @ frames) = read_hello reader frames"
  by (induction before) (auto simp: skipped_def)

lemma read_hello_Some:
  "read_hello reader frames = Some (slots, name) \<Longrightarrow>
     \<exists>t rest. dropWhile skipped frames = Text t # rest \<and> reader t = Some (Hello slots name)"
  by (induction reader frames rule: read_hello.induct)
    (auto simp: skipped_def split: option.splits client_msg.splits)

lemma read_hello_iff:
  "read_hello reader frames = Some (slots, name) \<longleftrightarrow>
     (\<exists>before t rest. frames = before @ Text t # rest \<and>
        list_all (\<lambda>f. f = Ping \<or> f = Other_Frame) before \<and> reader t = Some (Hello slots name))"
  (is "?l \<longleftrightarrow> ?r")
proof
  assume ?l
  then obtain t rest where t: "dropWhile skipped frames = Text t # rest" "reader t = Some (Hello slots name)"
    using read_hello_Some by blast
  have "frames = takeWhile skipped frames @ Text t # rest"
    using takeWhile_dropWhile_id [of skipped frames] by (simp add: t)
  moreover have "list_all (\<lambda>f. f = Ping \<or> f = Other_Frame) (takeWhile skipped frames)"
    by (auto simp: list_all_iff skipped_def dest: set_takeWhileD)
  ultimately show ?r using t(2) by blast
next
  assume ?r
  then show ?l using read_hello_skip by (fastforce simp: skipped_def [abs_def])
qed

lemma slot_answer_cases:
  "slot_answer v = Some r \<longleftrightarrow> (\<exists>x. v = Filled (Inr x) \<and> r = Inr x) \<or> (\<exists>m. v = Filled (Inl m) \<and> r = Inl (Inference m)) \<or>
     v = Sender_Dropped \<and> r = Inl (Queue ''worker disconnected before result'')"
  by (cases v rule: slot_answer.cases) auto

lemma filled_result:
  assumes "replies_ok s" and "c < length (se_calls s)" and "ca_slot (call_of s c) = Filled x"
  shows "\<exists>oc. (job_of (call_of s c), oc) \<in> set (se_results s) \<and> outcome_result oc = x"
proof -
  have "call_of s c \<in># mset (filter is_filled (se_calls s))"
    using assms(2,3) by (simp add: is_filled_def)
  then have "reply_of (call_of s c) \<in># image_mset reply_of (mset (filter is_filled (se_calls s)))"
    by (rule imageI [of _ "set_mset _" reply_of, folded set_image_mset])
  moreover have "image_mset reply_of (mset (filter is_filled (se_calls s))) \<subseteq># image_mset result_reply (mset (se_results s))"
    using assms(1) by (simp add: replies_ok_def)
  ultimately have "reply_of (call_of s c) \<in># image_mset result_reply (mset (se_results s))"
    by (rule mset_subset_eqD [rotated])
  then show ?thesis using assms(3) by (auto simp: reply_of_def result_reply_def)
qed

lemma outcome_result_eq:
  "outcome_result oc = Inr v \<longleftrightarrow> oc = Outcome_Ok v" "outcome_result oc = Inl m \<longleftrightarrow> oc = Outcome_Err m"
  by (cases oc; auto)+

text \<open>Where the result of a call comes from.\<close>

lemma reply_sources:
  assumes "session_reachable reader s" and "c < length (se_calls s)"
    and "ca_phase (call_of s c) = Returned r"
  shows "case r of
      Inr v \<Rightarrow> (job_of (call_of s c), Outcome_Ok v) \<in> set (se_results s)
    | Inl (Inference m) \<Rightarrow> (job_of (call_of s c), Outcome_Err m) \<in> set (se_results s)
    | Inl (Queue m) \<Rightarrow> m = ''worker socket closed before dispatch'' \<or> m = ''worker disconnected before result''
    | _ \<Rightarrow> False"
proof -
  have ok: "replies_ok s" using assms(1) by (rule replies.reachable)
  then have "returns_ok (call_of s c)" using assms(2) by (auto simp: replies_ok_def list_all_length)
  then have "slot_answer (ca_slot (call_of s c)) = Some r \<or> r = not_dispatched"
    by (simp add: returns_ok_def assms(3))
  then show ?thesis
    using filled_result [OF ok assms(2)]
    by (fastforce simp: slot_answer_cases not_dispatched_def outcome_result_eq)
qed

section \<open>Properties\<close>

text \<open>C9. However calls, frames, cancellation and teardown interleave: a remote analysis that returns a
  value or an analysis error returns what the worker sent under that very job's id, anything else it
  returns is a queue error, and no result frame answers two calls.\<close>

theorem remote_results_genuine:
  assumes "session_reachable reader s" and "c < length (se_calls s)"
    and "ca_phase (call_of s c) = Returned r"
  shows "(case r of
      Inr v \<Rightarrow> (job_of (call_of s c), Outcome_Ok v) \<in> set (se_results s)
    | Inl (Inference m) \<Rightarrow> (job_of (call_of s c), Outcome_Err m) \<in> set (se_results s)
    | Inl (Queue m) \<Rightarrow> m = ''worker socket closed before dispatch'' \<or> m = ''worker disconnected before result''
    | _ \<Rightarrow> False) \<and>
    image_mset reply_of (mset (filter is_filled (se_calls s))) \<subseteq># image_mset result_reply (mset (se_results s))"
  using reply_sources [OF assms] replies.reachable [OF assms(1)] by (simp add: replies_ok_def)

definition sample_reader :: msg_reader where
  "sample_reader t = (if t = ''hello'' then Some (Hello 200 ''rig'')
     else if t = ''done'' then Some (Result 7 (Outcome_Ok J_Null)) else None)"

definition sample_request :: "uuid \<Rightarrow> job_request" where
  "sample_request j = \<lparr>rq_job_id = j, rq_sgf = ''(;SZ[9])'', rq_human_profile = None, rq_trace = None\<rparr>"

definition sample_session :: session where
  "sample_session = fold (session_step sample_reader)
     [Begin (sample_request 7), Send 0, Outbound Frame_Sent, Inbound (Some (Text ''done'')), Await 0,
      Begin (sample_request 8), Send 1, Inbound None, Clear, Close] (session_start 200)"

lemma sample_session_reachable: "session_reachable sample_reader sample_session"
  unfolding sample_session_def by (rule session_reachable_run [OF session_reachable.start])

lemma sample_session_facts:
  "length (se_calls sample_session) = 2" "ca_phase (call_of sample_session 0) = Returned (Inr J_Null)"
  "job_of (call_of sample_session 0) = 7" "se_results sample_session = [(7, Outcome_Ok J_Null)]"
  "se_phase sample_session = Closed" "se_mark sample_session = 2" "call_open (call_of sample_session 1)"
  "se_slots sample_session = 64"
  by code_simp+

theorem remote_results_genuine_witness:
  "(7, Outcome_Ok J_Null) \<in> set (se_results sample_session)"
  using remote_results_genuine [OF sample_session_reachable, of 0 "Inr J_Null"]
  by (simp add: sample_session_facts)

text \<open>A session never has more analyses in flight than the slots it granted, which are between 1 and
  64 whatever the worker asked for; its pending table and its outbound channel are bounded by them;
  and every request is written to the socket at most once for the call that queued it.\<close>

lemma session_backpressure:
  assumes "session_reachable reader s"
  shows "1 \<le> se_slots s \<and> se_slots s \<le> 64 \<and>
    length (filter call_open (se_calls s)) \<le> se_slots s \<and>
    length (se_pending s) \<le> length (filter call_open (se_calls s)) \<and>
    length (se_out s) \<le> se_slots s \<and>
    mset (se_sent s) + mset (se_out s) + mset (se_lost s) = image_mset ca_request (mset (filter ca_queued (se_calls s)))"
proof -
  have ok: "dispatch_ok s" "waiters_ok s" using dispatch.reachable [OF assms] by simp_all
  then show ?thesis using pending_le_in_flight [OF ok(2)] by (simp add: dispatch_ok_def MAX_SLOTS_def)
qed

lemma session_backpressure_witness:
  "length (filter call_open (se_calls sample_session)) \<le> 64 \<and> mset (se_sent sample_session) \<subseteq>#
     image_mset ca_request (mset (filter ca_queued (se_calls sample_session)))"
  using session_backpressure [OF sample_session_reachable]
  by (metis (no_types, lifting) le_trans mset_subset_eq_add_left subset_mset.trans)

text \<open>C17. Once a session is torn down, every analysis that had begun before the pending table was
  cleared returns by its next step, and a lease loop is never left waiting for it.\<close>

theorem teardown_releases_calls:
  assumes "session_reachable reader s" and "se_phase s = Closed"
    and "c < se_mark s" and "call_open (call_of s c)"
  shows "c < length (se_calls s) \<and>
    (\<exists>r. ca_phase (call_of (analyze_await c (analyze_undeliverable c (analyze_send c s))) c) = Returned r)"
proof -
  have w: "waiters_ok s" using assms(1) by (rule waiters.reachable)
  then have c: "c < length (se_calls s)" using assms(3) by (simp add: waiters_ok_def)
  then have "\<not> waits (call_of s c)" using w assms(2,3) by (simp add: waiters_ok_def)
  then have slot: "slot_answer (ca_slot (call_of s c)) \<noteq> None"
    using assms(4) by (cases "ca_slot (call_of s c)" rule: slot_answer.cases) (auto simp: waits_def)
  show ?thesis
  proof (cases "ca_phase (call_of s c)")
    case Awaiting
    then show ?thesis
      using c slot by (auto simp: analyze_await_def analyze_undeliverable_def analyze_send_def)
  qed (use c assms(2,4) in \<open>auto simp: analyze_await_def analyze_undeliverable_def analyze_send_def call_open_def\<close>)
qed

theorem teardown_releases_calls_witness:
  "\<exists>r. ca_phase (call_of (analyze_await 1 (analyze_undeliverable 1 (analyze_send 1 sample_session))) 1) = Returned r"
  by (rule conjunct2 [OF teardown_releases_calls [OF sample_session_reachable]])
    (simp_all add: sample_session_facts del: One_nat_def)

text \<open>The socket is upgraded exactly for the orchestrator role and a request that proves the token, if
  one is set; a session then opens exactly when the first text frame, after nothing but pings and
  other control or binary frames, is a \<open>Hello\<close>.\<close>

lemma session_opens_exactly:
  "(cluster_ws dispatcher registry authorization = Upgraded \<longleftrightarrow>
     (\<exists>token. dispatcher = Some token \<and> registry \<and> (token = [] \<or> authorization = Some (''Bearer '' @ token)))) \<and>
   (run_session_start reader frames = Some s \<longleftrightarrow>
     (\<exists>before t rest slots name. frames = before @ Text t # rest \<and>
        list_all (\<lambda>f. f = Ping \<or> f = Other_Frame) before \<and> reader t = Some (Hello slots name) \<and>
        s = session_start slots))"
proof -
  have "run_session_start reader frames = Some s \<longleftrightarrow>
      (\<exists>slots name. read_hello reader frames = Some (slots, name) \<and> s = session_start slots)"
    by (auto simp: run_session_start_def split: option.splits)
  moreover have "cluster_ws dispatcher registry authorization = Upgraded \<longleftrightarrow>
      (\<exists>token. dispatcher = Some token \<and> registry \<and> (token = [] \<or> authorization = Some (''Bearer '' @ token)))"
    by (auto simp: cluster_ws_def authorized_def bearer_matches_eq split: option.splits)
  ultimately show ?thesis unfolding read_hello_iff by blast
qed

text \<open>A call that registers its waiter after the table was cleared and sends before the receiver is
  dropped is answered by nothing: no later step of the session or of any call already begun moves it.\<close>

definition stuck :: "nat \<Rightarrow> session \<Rightarrow> bool" where
  "stuck c s = (se_phase s = Closed \<and> c < length (se_calls s) \<and> ca_phase (call_of s c) = Awaiting \<and>
     ca_slot (call_of s c) = Waiting)"

lemma teardown_race_hangs:
  "stuck 0 (fold (session_step sample_reader)
     [Inbound None, Clear, Begin (sample_request 7), Send 0, Close, Await 0, Send 0, Undeliver 0, Clear, Close]
     (session_start 1))"
  by code_simp

end
