(* ===== verification/Worker.thy ===== *)
theory Worker
  imports Job_Store Engine
begin

text \<open>
  The queue consumer (\<open>src/src/worker.rs\<close>, \<open>src/src/queue.rs\<close>): what one delivery of a message does
  to the store and the queue, and the lease loop around it.  pgmq is not part of the program: a
  delivery arrives with its read count, and what the consumer asks of the queue (archive, extend)
  is recorded.  Every call of the store or the queue may fail, before or after it took effect; how
  each one of a delivery went, and what the executor returned, is the delivery's environment.
\<close>

section \<open>Model\<close>

datatype queue_kind = Analysis_Queue

fun queue_str :: "queue_kind \<Rightarrow> string" where
  "queue_str Analysis_Queue = ''analysis''"

record queue_message =
  qm_msg_id :: int
  qm_read_ct :: int
  qm_message :: job_message

datatype io_fault = Io_Ok | Io_Lost string | Io_Unknown string

record delivery_env =
  de_now :: int
  de_running :: io_fault
  de_failed :: io_fault
  de_done :: io_fault
  de_attempt :: io_fault
  de_archive :: io_fault
  de_result :: "json app_result"

text \<open>The world of a consumer: the store, the archived messages, the executor's runs and the outcomes
  counted (\<open>job_processed\<close>, \<open>moves_analyzed\<close>, \<open>job_queue_wait\<close>).\<close>

record world =
  w_store :: store
  w_archived :: "int list"
  w_runs :: "uuid list"
  w_outcomes :: "string list"
  w_moves :: "nat list"
  w_waits :: "int list"

type_synonym 'a action = "world \<Rightarrow> 'a app_result \<times> world"

definition and_then :: "unit action \<Rightarrow> 'a action \<Rightarrow> 'a action" where
  "and_then f g w = (case f w of (Inl e, w') \<Rightarrow> (Inl e, w') | (Inr _, w') \<Rightarrow> g w')"

definition db_write :: "io_fault \<Rightarrow> (store \<Rightarrow> store) \<Rightarrow> unit action" where
  "db_write fault upd w =
     (case fault of
        Io_Ok \<Rightarrow> (Inr (), w\<lparr>w_store := upd (w_store w)\<rparr>)
      | Io_Lost e \<Rightarrow> (Inl (Db e), w)
      | Io_Unknown e \<Rightarrow> (Inl (Db e), w\<lparr>w_store := upd (w_store w)\<rparr>))"

definition queue_archive :: "io_fault \<Rightarrow> int \<Rightarrow> unit action" where
  "queue_archive fault m w =
     (case fault of
        Io_Ok \<Rightarrow> (Inr (), w\<lparr>w_archived := w_archived w @ [m]\<rparr>)
      | Io_Lost e \<Rightarrow> (Inl (Queue e), w)
      | Io_Unknown e \<Rightarrow> (Inl (Queue e), w\<lparr>w_archived := w_archived w @ [m]\<rparr>))"

definition count_outcome :: "string \<Rightarrow> nat option \<Rightarrow> unit action" where
  "count_outcome what moves w =
     (Inr (), w\<lparr>w_outcomes := w_outcomes w @ [what],
                w_moves := w_moves w @ (case moves of None \<Rightarrow> [] | Some n \<Rightarrow> [n])\<rparr>)"

definition run_executor :: "uuid \<Rightarrow> unit action" where
  "run_executor i w = (Inr (), w\<lparr>w_runs := w_runs w @ [i]\<rparr>)"

text \<open>\<open>value.get("report").get("num_moves").as_u64()\<close>.\<close>

definition value_num_moves :: "json \<Rightarrow> nat option" where
  "value_num_moves v = Option.bind (Option.bind (json_get ''report'' v) (json_get ''num_moves'')) json_u64"

definition handle :: "worker_config \<Rightarrow> delivery_env \<Rightarrow> queue_message \<Rightarrow> unit action" where
  "handle cfg env msg =
     (let i = jm_job_id (qm_message msg); m = qm_msg_id msg in
      if max_attempts cfg < qm_read_ct msg then
        and_then (db_write (de_failed env) (set_failed (de_now env) i ''max delivery attempts exceeded''))
          (and_then (queue_archive (de_archive env) m)
            (count_outcome ''failed'' None))
      else
        and_then (db_write (de_running env) (set_running (de_now env) i))
          (and_then (run_executor i)
            (case de_result env of
               Inr v \<Rightarrow>
                 and_then (db_write (de_done env) (set_done (de_now env) i v))
                   (and_then (queue_archive (de_archive env) m)
                     (count_outcome ''done'' (value_num_moves v)))
             | Inl err \<Rightarrow>
                 and_then (db_write (de_attempt env)
                     (record_attempt_failure (de_now env) i (error_text err)))
                   (count_outcome ''retry'' None))))"

text \<open>The heartbeat that re-arms the message's lock, and the number of loops.\<close>

definition HEARTBEAT_DIVISOR :: int where "HEARTBEAT_DIVISOR = 2"

definition heartbeat_interval :: "int \<Rightarrow> int" where
  "heartbeat_interval vt_secs = max vt_secs HEARTBEAT_DIVISOR div HEARTBEAT_DIVISOR"

definition worker_loops :: "worker_config \<Rightarrow> nat" where
  "worker_loops cfg = max (concurrency cfg) 1"

definition poll_interval :: "worker_config \<Rightarrow> nat" where
  "poll_interval cfg = max (poll_secs cfg) 1"

text \<open>The lease loop, one event per turn of its \<open>select\<close>: it ends at a shutdown and at nothing else.\<close>

datatype loop_event =
    Loop_Shutdown
  | Delivered queue_message delivery_env
  | Poll_Empty
  | Read_Failed string

fun worker_loop :: "worker_config \<Rightarrow> loop_event list \<Rightarrow> world \<Rightarrow> world" where
  "worker_loop cfg [] w = w"
| "worker_loop cfg (Loop_Shutdown # es) w = w"
| "worker_loop cfg (Poll_Empty # es) w = worker_loop cfg es w"
| "worker_loop cfg (Read_Failed err # es) w = worker_loop cfg es w"
| "worker_loop cfg (Delivered msg env # es) w =
     (let w1 = (if qm_read_ct msg = 1 then w\<lparr>w_waits := w_waits w @ [qm_msg_id msg]\<rparr> else w)
      in worker_loop cfg es (snd (handle cfg env msg w1)))"

text \<open>\<open>LocalExecutor::analyze\<close>; \<open>to_value\<close> is \<open>serde_json::to_value\<close> of an analysis.\<close>

definition local_execute ::
  "(game_analysis \<Rightarrow> string + json) \<Rightarrow> (string \<Rightarrow> string option \<Rightarrow> game_analysis app_result)
     \<Rightarrow> uuid \<Rightarrow> string \<Rightarrow> string option \<Rightarrow> json app_result" where
  "local_execute to_value engine job_id sgf human_profile =
     res_bind (engine sgf human_profile) (\<lambda>analysis.
       case to_value analysis of Inl err \<Rightarrow> Inl (Internal err) | Inr v \<Rightarrow> Inr v)"

section \<open>Actions\<close>

lemma and_then_cases:
  "and_then f g w = (case f w of (Inl e, w') \<Rightarrow> (Inl e, w') | (Inr _, w') \<Rightarrow> g w')"
  by (simp add: and_then_def)

text \<open>A condition on worlds that every write a delivery can make keeps: then a whole delivery keeps it,
  whatever faults it meets.\<close>

locale kept =
  fixes P :: "world \<Rightarrow> bool"
  assumes on_running: "P w \<Longrightarrow> P (w\<lparr>w_store := set_running now i (w_store w)\<rparr>)"
    and on_failed: "P w \<Longrightarrow> P (w\<lparr>w_store := set_failed now i err (w_store w)\<rparr>)"
    and on_done: "P w \<Longrightarrow> P (w\<lparr>w_store := set_done now i v (w_store w)\<rparr>)"
    and on_attempt: "P w \<Longrightarrow> P (w\<lparr>w_store := record_attempt_failure now i err (w_store w)\<rparr>)"
    and on_rest: "P w \<Longrightarrow> P (w\<lparr>w_archived := ar, w_runs := rs, w_outcomes := out, w_moves := mv, w_waits := ws\<rparr>)"
begin

definition keeps :: "unit action \<Rightarrow> bool" where
  "keeps f = (\<forall>w. P w \<longrightarrow> P (snd (f w)))"

lemma keeps_and_then: "keeps f \<Longrightarrow> keeps g \<Longrightarrow> keeps (and_then f g)"
  unfolding keeps_def and_then_def by (auto split: prod.splits sum.splits)

lemma keeps_db_write:
  "(\<And>w. P w \<Longrightarrow> P (w\<lparr>w_store := upd (w_store w)\<rparr>)) \<Longrightarrow> keeps (db_write fault upd)"
  by (cases fault) (simp_all add: keeps_def db_write_def)

lemma keeps_archive: "keeps (queue_archive fault m)"
proof -
  have "P w \<Longrightarrow> P (w\<lparr>w_archived := ar\<rparr>)" for w ar
    using on_rest [where w = w and ar = ar and rs = "w_runs w" and out = "w_outcomes w" and mv = "w_moves w" and ws = "w_waits w"] by simp
  then show ?thesis by (cases fault) (simp_all add: keeps_def queue_archive_def)
qed

lemma keeps_count: "keeps (count_outcome what moves)"
proof -
  have "P w \<Longrightarrow> P (w\<lparr>w_outcomes := out, w_moves := mv\<rparr>)" for w out mv
    using on_rest [where w = w and ar = "w_archived w" and rs = "w_runs w" and out = out and mv = mv and ws = "w_waits w"] by simp
  then show ?thesis by (simp add: keeps_def count_outcome_def)
qed

lemma keeps_run: "keeps (run_executor i)"
proof -
  have "P w \<Longrightarrow> P (w\<lparr>w_runs := rs\<rparr>)" for w rs
    using on_rest [where w = w and ar = "w_archived w" and rs = rs and out = "w_outcomes w" and mv = "w_moves w" and ws = "w_waits w"] by simp
  then show ?thesis by (simp add: keeps_def run_executor_def)
qed

lemma keeps_handle: "keeps (handle cfg env msg)"
  unfolding handle_def Let_def
  by (auto intro!: keeps_and_then keeps_db_write keeps_count keeps_archive keeps_run
      on_running on_failed on_done on_attempt split: sum.splits)

lemma handle_keeps: "P w \<Longrightarrow> P (snd (handle cfg env msg w))"
  using keeps_handle unfolding keeps_def by blast

lemma loop_keeps: "P w \<Longrightarrow> P (worker_loop cfg es w)"
proof (induction cfg es w rule: worker_loop.induct)
  case (5 cfg msg env es w)
  have "P (w\<lparr>w_waits := ws\<rparr>)" for ws
    using on_rest [OF "5.prems", where ar = "w_archived w" and rs = "w_runs w" and out = "w_outcomes w"
        and mv = "w_moves w" and ws = ws] by simp
  then show ?case using 5 by (simp add: Let_def handle_keeps)
qed simp_all

end

interpretation store_ok: kept "\<lambda>w. store_inv (w_store w)"
  by unfold_locales (simp_all add: running_write.keeps_inv failed_write.keeps_inv
      done_write.keeps_inv attempt_write.keeps_inv)

interpretation row_kept: kept "\<lambda>w. store_inv (w_store w) \<and> row_of k (w_store w) = Some r \<and> terminal r" for k r
  by unfold_locales (auto simp: running_write.keeps_inv failed_write.keeps_inv done_write.keeps_inv
      attempt_write.keeps_inv running_write.keeps_terminal failed_write.keeps_terminal
      done_write.keeps_terminal attempt_write.keeps_terminal)

lemma settled_row:
  assumes "\<And>r. jr_id (f r) = jr_id r" and "\<And>r. terminal (f r)"
    and "row_of i (guarded_update now i f s) = Some r"
  shows "terminal r"
proof -
  obtain r0 where r0: "row_of i s = Some r0"
      "r = (if jr_id r0 = i \<and> \<not> terminal r0 then stamp_change now (st_seq s + 1) (f r0) else r0)"
    using assms(3) by (auto simp: row_of_guarded_update [OF assms(1)])
  then show ?thesis using assms(2) [of r0] row_of_Some [OF r0(1)] by (auto simp: terminal_iff)
qed

lemma set_done_terminal: "row_of i (set_done now i v s) = Some r \<Longrightarrow> terminal r"
  unfolding set_done_def by (erule settled_row [rotated 2]) (simp_all add: terminal_iff)

lemma set_failed_terminal: "row_of i (set_failed now i err s) = Some r \<Longrightarrow> terminal r"
  unfolding set_failed_def by (erule settled_row [rotated 2]) (simp_all add: terminal_iff)

section \<open>One delivery\<close>

lemma db_write_simps [simp]:
  "w_archived (snd (db_write fault upd w)) = w_archived w" "w_runs (snd (db_write fault upd w)) = w_runs w"
  by (cases fault; simp add: db_write_def)+

lemma archive_simps [simp]:
  "w_store (snd (queue_archive fault m w)) = w_store w" "w_runs (snd (queue_archive fault m w)) = w_runs w"
  by (cases fault; simp add: queue_archive_def)+

lemma db_write_Inr: "db_write fault upd w = (Inr u, w') \<Longrightarrow> w' = w\<lparr>w_store := upd (w_store w)\<rparr>"
  by (cases fault) (auto simp: db_write_def)

lemma and_then_archived:
  "w_archived (snd (and_then (db_write fault upd) g w)) = w_archived w \<or>
   snd (and_then (db_write fault upd) g w) = snd (g (w\<lparr>w_store := upd (w_store w)\<rparr>))"
  by (cases fault) (simp_all add: and_then_def db_write_def)

lemma archive_then_count_store:
  "w_store (snd (and_then (queue_archive fault m) (count_outcome what mv) w)) = w_store w"
  by (cases fault) (simp_all add: and_then_def queue_archive_def count_outcome_def)

lemma attempt_then_count_archived:
  "w_archived (snd (and_then (db_write fault upd) (count_outcome what mv) w)) = w_archived w"
  by (cases fault) (simp_all add: and_then_def db_write_def count_outcome_def)

lemma run_then: "and_then (run_executor i) g w = g (w\<lparr>w_runs := w_runs w @ [i]\<rparr>)"
  by (simp add: and_then_def run_executor_def)

lemma handle_archives_terminal:
  assumes "w_archived (snd (handle cfg env msg w)) \<noteq> w_archived w"
    and "row_of (jm_job_id (qm_message msg)) (w_store (snd (handle cfg env msg w))) = Some r"
  shows "terminal r"
proof (cases "max_attempts cfg < qm_read_ct msg")
  case True
  then show ?thesis
    using assms and_then_archived [of "de_failed env" _ _ w] set_failed_terminal
    by (fastforce simp: handle_def Let_def archive_then_count_store)
next
  case False
  show ?thesis
  proof (cases "de_result env")
    case (Inl err)
    then show ?thesis
      using assms(1) False and_then_archived [of "de_running env" _ _ w]
      by (fastforce simp: handle_def Let_def run_then attempt_then_count_archived)
  next
    case (Inr v)
    let ?i = "jm_job_id (qm_message msg)"
    let ?w1 = "w\<lparr>w_store := set_running (de_now env) ?i (w_store w), w_runs := w_runs w @ [?i]\<rparr>"
    let ?g = "and_then (queue_archive (de_archive env) (qm_msg_id msg)) (count_outcome ''done'' (value_num_moves v))"
    have h: "snd (handle cfg env msg w) =
        snd (and_then (db_write (de_done env) (set_done (de_now env) ?i v)) ?g ?w1)"
      using assms(1) False Inr and_then_archived [of "de_running env" "set_running (de_now env) ?i" _ w]
      by (fastforce simp: handle_def Let_def run_then)
    have "snd (handle cfg env msg w) = snd (?g (?w1\<lparr>w_store := set_done (de_now env) ?i v (w_store ?w1)\<rparr>))"
      using and_then_archived [of "de_done env" "set_done (de_now env) ?i v" ?g ?w1] assms(1)
      unfolding h by simp
    then show ?thesis using assms(2) set_done_terminal by (simp add: archive_then_count_store)
  qed
qed

text \<open>What one delivery does to the world's books: at most one run, of its own job and within the attempts; at
  most one removal, of its own message; and an outcome other than \<open>retry\<close> is counted only with a removal.\<close>

lemma handle_books:
  fixes msg w cfg env
  defines "w' \<equiv> snd (handle cfg env msg w)"
  shows "(w_runs w' = w_runs w \<or> (qm_read_ct msg \<le> max_attempts cfg \<and> w_runs w' = w_runs w @ [jm_job_id (qm_message msg)])) \<and>
    (w_archived w' = w_archived w \<or> w_archived w' = w_archived w @ [qm_msg_id msg]) \<and>
    length (filter (\<lambda>what. what \<noteq> ''retry'') (w_outcomes w')) + length (w_archived w) \<le>
      length (filter (\<lambda>what. what \<noteq> ''retry'') (w_outcomes w)) + length (w_archived w')"
proof (cases "max_attempts cfg < qm_read_ct msg")
  case True
  then show ?thesis unfolding w'_def
    by (cases "de_failed env"; cases "de_archive env")
      (simp_all add: handle_def Let_def and_then_def db_write_def queue_archive_def count_outcome_def)
next
  case False
  note run = handle_def Let_def and_then_def db_write_def queue_archive_def count_outcome_def run_executor_def
  show ?thesis
  proof (cases "de_running env = Io_Ok")
    case True
    with False show ?thesis unfolding w'_def
      by (cases "de_result env"; (cases "de_done env"; cases "de_archive env")?; cases "de_attempt env") (simp_all add: run)
  next
    case lost: False
    with False show ?thesis unfolding w'_def by (cases "de_running env") (simp_all add: run)
  qed
qed

lemma handle_runs:
  "w_runs (snd (handle cfg env msg w)) = w_runs w \<or>
   (qm_read_ct msg \<le> max_attempts cfg \<and>
    w_runs (snd (handle cfg env msg w)) = w_runs w @ [jm_job_id (qm_message msg)])"
  using handle_books by blast

section \<open>Many deliveries\<close>

text \<open>Once a job's row is settled, if there is one, it stays so.\<close>

definition settled_job :: "uuid \<Rightarrow> world \<Rightarrow> bool" where
  "settled_job k w = (\<forall>r. row_of k (w_store w) = Some r \<longrightarrow> terminal r)"

lemma settled_job_guarded:
  assumes "\<And>r. jr_id (f r) = jr_id r" and "\<forall>r. row_of k s = Some r \<longrightarrow> terminal r"
  shows "row_of k (guarded_update now i f s) = Some r \<Longrightarrow> terminal r"
  using assms(2) by (auto simp: row_of_guarded_update [OF assms(1)] split: if_splits)

interpretation settled_kept: kept "settled_job k" for k
  unfolding settled_job_def
  by unfold_locales (auto simp: set_running_def set_failed_def set_done_def record_attempt_failure_def
      elim: settled_job_guarded [rotated 2])

lemma handle_settles:
  assumes "w_archived (snd (handle cfg env msg w)) \<noteq> w_archived w"
  shows "settled_job (jm_job_id (qm_message msg)) (snd (handle cfg env msg w))"
  using handle_archives_terminal [OF assms] by (simp add: settled_job_def)

lemma handle_archived:
  "w_archived (snd (handle cfg env msg w)) = w_archived w \<or>
   w_archived (snd (handle cfg env msg w)) = w_archived w @ [qm_msg_id msg]"
  using handle_books by blast

definition archived_settled :: "(int \<Rightarrow> uuid) \<Rightarrow> world \<Rightarrow> bool" where
  "archived_settled job_of w = (\<forall>m \<in> set (w_archived w). settled_job (job_of m) w)"

lemma handle_archived_settled:
  assumes "archived_settled job_of w" and "jm_job_id (qm_message msg) = job_of (qm_msg_id msg)"
  shows "archived_settled job_of (snd (handle cfg env msg w))"
proof -
  have old: "settled_job (job_of m) (snd (handle cfg env msg w))" if "m \<in> set (w_archived w)" for m
    using settled_kept.handle_keeps assms(1) that by (auto simp: archived_settled_def)
  show ?thesis
  proof (cases "w_archived (snd (handle cfg env msg w)) = w_archived w")
    case True
    then show ?thesis using old by (simp add: archived_settled_def)
  next
    case False
    then have "settled_job (job_of (qm_msg_id msg)) (snd (handle cfg env msg w))"
      using handle_settles assms(2) by metis
    then show ?thesis
      using False handle_archived [of cfg env msg w] old by (auto simp: archived_settled_def)
  qed
qed

fun deliveries :: "loop_event list \<Rightarrow> queue_message list" where
  "deliveries [] = []"
| "deliveries (Delivered msg env # es) = msg # deliveries es"
| "deliveries (_ # es) = deliveries es"

lemma waits_irrelevant [simp]:
  "archived_settled job_of (w\<lparr>w_waits := ws\<rparr>) = archived_settled job_of w"
  by (simp add: archived_settled_def settled_job_def)

lemma loop_archived_settled:
  "archived_settled job_of w \<Longrightarrow>
     \<forall>msg \<in> set (deliveries es). jm_job_id (qm_message msg) = job_of (qm_msg_id msg) \<Longrightarrow>
     archived_settled job_of (worker_loop cfg es w)"
proof (induction cfg es w rule: worker_loop.induct)
  case (5 cfg msg env es w)
  then show ?case by (simp add: Let_def handle_archived_settled)
qed simp_all

lemma loop_runs:
  "length (w_runs (worker_loop cfg es w)) \<le>
     length (w_runs w) + length (filter (\<lambda>msg. qm_read_ct msg \<le> max_attempts cfg) (deliveries es))"
proof (induction cfg es w rule: worker_loop.induct)
  case (5 cfg msg env es w)
  define w1 where "w1 = (if qm_read_ct msg = 1 then w\<lparr>w_waits := w_waits w @ [qm_msg_id msg]\<rparr> else w)"
  have "w_runs w1 = w_runs w" by (simp add: w1_def)
  moreover have "w_runs (snd (handle cfg env msg w1)) = w_runs w1 \<or>
      (qm_read_ct msg \<le> max_attempts cfg \<and>
       w_runs (snd (handle cfg env msg w1)) = w_runs w1 @ [jm_job_id (qm_message msg)])"
    by (rule handle_runs)
  moreover have "length (w_runs (worker_loop cfg es (snd (handle cfg env msg w1)))) \<le>
      length (w_runs (snd (handle cfg env msg w1))) +
      length (filter (\<lambda>msg. qm_read_ct msg \<le> max_attempts cfg) (deliveries es))"
    using 5 unfolding w1_def Let_def by blast
  ultimately show ?case unfolding worker_loop.simps Let_def w1_def [symmetric] by auto
qed simp_all

lemma increasing_bounded:
  "sorted_wrt (<) (xs :: int list) \<Longrightarrow> \<forall>x \<in> set xs. l < x \<Longrightarrow>
     length (filter (\<lambda>x. x \<le> u) xs) \<le> nat (u - l)"
proof (induction xs arbitrary: l)
  case Nil
  then show ?case by simp
next
  case (Cons x xs)
  have "length (filter (\<lambda>x. x \<le> u) xs) \<le> nat (u - x)"
    using Cons.prems by (intro Cons.IH) auto
  then show ?case using Cons.prems(2) by auto
qed

section \<open>Properties\<close>

text \<open>C5. Whatever is delivered, whatever the executor returns and whichever calls fail, before or after
  taking effect: a message is removed from the queue only when its job's row is done or failed, and
  the table's invariant holds throughout.\<close>

theorem archived_only_when_settled:
  assumes "store_inv (w_store w)" and "w_archived w = []"
    and "\<forall>msg \<in> set (deliveries es). jm_job_id (qm_message msg) = job_of (qm_msg_id msg)"
    and "m \<in> set (w_archived (worker_loop cfg es w))"
    and "row_of (job_of m) (w_store (worker_loop cfg es w)) = Some r"
  shows "terminal r \<and> store_inv (w_store (worker_loop cfg es w))"
proof -
  have "archived_settled job_of w" using assms(2) by (simp add: archived_settled_def)
  then have "archived_settled job_of (worker_loop cfg es w)" using assms(3) by (rule loop_archived_settled)
  then show ?thesis
    using assms(4,5) store_ok.loop_keeps [of w cfg es] assms(1)
    by (auto simp: archived_settled_def settled_job_def)
qed

definition sample_delivery :: "int \<Rightarrow> queue_message" where
  "sample_delivery n = \<lparr>qm_msg_id = 11, qm_read_ct = n,
     qm_message = \<lparr>jm_job_id = 1, jm_sgf = ''(;)'', jm_human_profile = None\<rparr>\<rparr>"

definition sample_env :: "io_fault \<Rightarrow> json app_result \<Rightarrow> delivery_env" where
  "sample_env f res = \<lparr>de_now = 5, de_running = Io_Ok, de_failed = Io_Ok, de_done = f, de_attempt = Io_Ok,
     de_archive = Io_Ok, de_result = res\<rparr>"

definition sample_world :: world where
  "sample_world = \<lparr>w_store = run_ops id [(1, Op_Submit \<lparr>nj_sgf = ''(;)'', nj_human_profile = None\<rparr> (\<lambda>_. None))] empty_store,
     w_archived = [], w_runs = [], w_outcomes = [], w_moves = [], w_waits = []\<rparr>"

definition sample_loop :: "loop_event list" where
  "sample_loop = [Delivered (sample_delivery 1) (sample_env Io_Ok (Inl NotFound)), Poll_Empty,
     Delivered (sample_delivery 2) (sample_env (Io_Unknown ''reset'') (Inr J_Null)),
     Delivered (sample_delivery 3) (sample_env Io_Ok (Inr (J_Bool True))), Loop_Shutdown]"

lemma sample_world_inv: "store_inv (w_store sample_world)"
  by (simp add: sample_world_def history.keeps_inv)

theorem archived_only_when_settled_witness:
  "\<exists>r. row_of 1 (w_store (worker_loop default_worker_config sample_loop sample_world)) = Some r \<and> terminal r"
proof -
  have facts: "(w_archived (worker_loop default_worker_config sample_loop sample_world),
      map_option jr_result (row_of 1 (w_store (worker_loop default_worker_config sample_loop sample_world)))) =
      ([11], Some (Some J_Null))"
    by code_simp
  then obtain r where r: "row_of 1 (w_store (worker_loop default_worker_config sample_loop sample_world)) = Some r"
    by auto
  have "\<forall>msg \<in> set (deliveries sample_loop). jm_job_id (qm_message msg) = (\<lambda>_. 1) (qm_msg_id msg)"
    by (simp add: sample_loop_def sample_delivery_def)
  from archived_only_when_settled [OF sample_world_inv _ this, of 11 default_worker_config r] facts r
  show ?thesis by (simp add: sample_world_def)
qed



text \<open>What a delivery does when no call fails: past \<open>max_attempts\<close> the job is failed and its message
  removed without a run; otherwise the executor runs once, a result is stored and the message
  removed, and an error is recorded on the row, which stays open, with the message left for another
  delivery.\<close>

lemma handle_fault_free:
  assumes "de_running env = Io_Ok" and "de_failed env = Io_Ok" and "de_done env = Io_Ok"
    and "de_attempt env = Io_Ok" and "de_archive env = Io_Ok"
    and "row_of i (w_store w) = Some r" and "\<not> terminal r" and "i = jm_job_id (qm_message msg)"
  shows "fst (handle cfg env msg w) = Inr () \<and>
    (\<exists>r'. row_of i (w_store (snd (handle cfg env msg w))) = Some r' \<and>
       (if max_attempts cfg < qm_read_ct msg then
          jr_status r' = Failed \<and> jr_error r' = Some ''max delivery attempts exceeded'' \<and> jr_result r' = None \<and>
          w_archived (snd (handle cfg env msg w)) = w_archived w @ [qm_msg_id msg] \<and>
          w_runs (snd (handle cfg env msg w)) = w_runs w
        else w_runs (snd (handle cfg env msg w)) = w_runs w @ [i] \<and>
          (case de_result env of
             Inr v \<Rightarrow> jr_status r' = Done \<and> jr_result r' = Some v \<and> jr_error r' = None \<and>
               w_archived (snd (handle cfg env msg w)) = w_archived w @ [qm_msg_id msg]
           | Inl err \<Rightarrow> jr_status r' = Running \<and> jr_last_error r' = Some (error_text err) \<and>
               w_archived (snd (handle cfg env msg w)) = w_archived w)))"
proof -
  have id: "jr_id r = i" using row_of_Some [OF assms(6)] by simp
  show ?thesis
    using assms id
    by (cases "de_result env")
      (simp_all add: handle_def Let_def and_then_def db_write_def queue_archive_def count_outcome_def
        run_executor_def set_failed_def set_running_def set_done_def record_attempt_failure_def
        row_of_guarded_update terminal_iff stamp_change_def)
qed

lemma handle_fault_free_witness:
  "fst (handle default_worker_config (sample_env Io_Ok (Inr J_Null)) (sample_delivery 1) sample_world) = Inr ()"
proof -
  have st: "map_option jr_status (row_of 1 (w_store sample_world)) = Some Queued" by code_simp
  then obtain r where r: "row_of 1 (w_store sample_world) = Some r" "jr_status r = Queued" by auto
  then have "\<not> terminal r" by (simp add: terminal_iff)
  with handle_fault_free [of "sample_env Io_Ok (Inr J_Null)" 1 sample_world r "sample_delivery 1" default_worker_config] r(1)
  show ?thesis by (simp add: sample_env_def sample_delivery_def)
qed

text \<open>With a visibility timeout of at least two seconds every heartbeat comes before the lock it
  renews lapses: the \<open>k\<close>-th renewal is due before the timeout set by the one before it.\<close>

lemma heartbeat_before_lapse:
  assumes "2 \<le> vt"
  shows "1 \<le> heartbeat_interval vt \<and> (k + 1) * heartbeat_interval vt < k * heartbeat_interval vt + vt"
  using assms by (simp add: heartbeat_interval_def HEARTBEAT_DIVISOR_def algebra_simps) presburger

theorem heartbeat_before_lapse_witness: "(7 + 1) * heartbeat_interval 600 < 7 * heartbeat_interval 600 + 600"
  using heartbeat_before_lapse [of 600 7] by simp

text \<open>With a timeout of one second the renewal is due only when the lock lapses.\<close>

lemma heartbeat_one_second: "heartbeat_interval 1 = 1"
  by (simp add: heartbeat_interval_def HEARTBEAT_DIVISOR_def)

end
