(* ===== verification/Cluster_Client.thy ===== *)
theory Cluster_Client
  imports Cluster_Server Worker
begin

text \<open>
  The worker's side of the cluster (\<open>src/src/cluster/client.rs\<close>): the client's lifecycle, the session
  it serves, and the analyses it runs.  An analysis is a task of its own that holds a permit of the
  limiter, outlives the session it came from, and posts its result to that session's channel.  The
  engine, \<open>serde_json\<close> and the socket are parameters and events.
\<close>

section \<open>The client\<close>

datatype client_state = Connecting | Serving | Backoff | Stopped

text \<open>\<open>wc_session\<close> numbers the sessions; \<open>wc_got\<close> and \<open>wc_done\<close> count the jobs read and the results
  taken from the channel in the current one.  \<open>wc_parked\<close> is the job \<open>dispatch\<close> waits with for a
  permit: the serving loop does nothing else meanwhile.\<close>

record worker_client =
  wc_name :: string
  wc_slots :: nat
  wc_backoff :: nat
  wc_state :: client_state
  wc_session :: nat
  wc_permits :: nat
  wc_running :: "(nat \<times> job_request) list"
  wc_parked :: "job_request option"
  wc_out :: "client_msg list"
  wc_got :: nat
  wc_done :: nat
  wc_written :: "client_msg list"
  wc_cancelled :: bool

definition ADJECTIVES :: "string list" where
  "ADJECTIVES = [''brave'', ''calm'', ''clever'', ''eager'', ''fuzzy'', ''gentle'', ''jolly'', ''keen'',
     ''lucky'', ''mighty'', ''nimble'', ''proud'', ''quick'', ''sly'', ''witty'', ''zesty'']"

definition ANIMALS :: "string list" where
  "ANIMALS = [''otter'', ''fox'', ''panda'', ''heron'', ''lynx'', ''koi'', ''wren'', ''ibex'', ''gecko'',
     ''raven'', ''mole'', ''tapir'', ''yak'', ''quokka'', ''civet'', ''shrew'']"

text \<open>The three random bytes are an argument.\<close>

definition generate_name :: "nat \<Rightarrow> nat \<Rightarrow> nat \<Rightarrow> string" where
  "generate_name b0 b1 b2 =
     (let n = show_nat (b2 mod 100) in
      ADJECTIVES ! (b0 mod length ADJECTIVES) @ ''-'' @ ANIMALS ! (b1 mod length ANIMALS) @ ''-'' @
      (if length n < 2 then ''0'' else []) @ n)"

definition client_new :: "worker_config \<Rightarrow> nat \<Rightarrow> nat \<Rightarrow> nat \<Rightarrow> worker_client" where
  "client_new cfg b0 b1 b2 =
     (let slots = (if max (concurrency cfg) 1 \<le> u32_max then max (concurrency cfg) 1 else u32_max) in
      \<lparr>wc_name = (if worker_name cfg = [] then generate_name b0 b1 b2 else worker_name cfg),
       wc_slots = slots, wc_backoff = max (reconnect_backoff_secs cfg) 1, wc_state = Connecting,
       wc_session = 0, wc_permits = slots, wc_running = [], wc_parked = None, wc_out = [],
       wc_got = 0, wc_done = 0, wc_written = [], wc_cancelled = False\<rparr>)"

text \<open>What a dial sends: the \<open>Authorization\<close> header and the opening frame.\<close>

definition dial_authorization :: "worker_config \<Rightarrow> string option" where
  "dial_authorization cfg =
     (if worker_auth_token cfg = [] then None else Some (''Bearer '' @ worker_auth_token cfg))"

definition dial_hello :: "worker_client \<Rightarrow> client_msg" where
  "dial_hello c = Hello (wc_slots c) (wc_name c)"

definition run_job ::
  "(game_analysis \<Rightarrow> string + json) \<Rightarrow> (string \<Rightarrow> string option \<Rightarrow> game_analysis app_result)
     \<Rightarrow> string \<Rightarrow> string option \<Rightarrow> outcome" where
  "run_job to_value engine sgf human_profile =
     (case engine sgf human_profile of
        Inr analysis \<Rightarrow>
          (case to_value analysis of
             Inr v \<Rightarrow> Outcome_Ok v
           | Inl err \<Rightarrow> Outcome_Err (''serialize analysis: '' @ err))
      | Inl err \<Rightarrow> Outcome_Err (error_text err))"

section \<open>Its steps\<close>

type_synonym job_reader = "string \<Rightarrow> job_request option"

definition dialled :: "bool \<Rightarrow> worker_client \<Rightarrow> worker_client" where
  "dialled ok c =
     (if wc_state c \<noteq> Connecting then c
      else if ok then c\<lparr>wc_state := Serving, wc_session := wc_session c + 1, wc_out := [],
                        wc_got := 0, wc_done := 0\<rparr>
      else c\<lparr>wc_state := Backoff\<rparr>)"

definition slept :: "worker_client \<Rightarrow> worker_client" where
  "slept c = (if wc_state c = Backoff then c\<lparr>wc_state := Connecting\<rparr> else c)"

text \<open>The session ends: its channel and socket are dropped.\<close>

definition leave_session :: "client_state \<Rightarrow> worker_client \<Rightarrow> worker_client" where
  "leave_session next_state c = c\<lparr>wc_state := next_state, wc_out := []\<rparr>"

definition start_job :: "job_request \<Rightarrow> worker_client \<Rightarrow> worker_client" where
  "start_job job c = c\<lparr>wc_permits := wc_permits c - 1, wc_running := wc_running c @ [(wc_session c, job)],
     wc_parked := None\<rparr>"

definition dispatch :: "job_request \<Rightarrow> worker_client \<Rightarrow> worker_client" where
  "dispatch job c = (if 0 < wc_permits c then start_job job c else c\<lparr>wc_parked := Some job\<rparr>)"

definition permit_freed :: "worker_client \<Rightarrow> worker_client" where
  "permit_freed c =
     (case wc_parked c of
        None \<Rightarrow> c
      | Some job \<Rightarrow> (if 0 < wc_permits c then start_job job c else c))"

text \<open>One inbound frame of \<open>on_serving\<close>.\<close>

fun serve_inbound :: "job_reader \<Rightarrow> inbound option \<Rightarrow> worker_client \<Rightarrow> worker_client" where
  "serve_inbound reader (Some (Text t)) c =
     (case reader t of None \<Rightarrow> c | Some job \<Rightarrow> dispatch job (c\<lparr>wc_got := wc_got c + 1\<rparr>))"
| "serve_inbound reader (Some Ping) c = c"
| "serve_inbound reader (Some Other_Frame) c = c"
| "serve_inbound reader (Some Close_Frame) c = leave_session Backoff c"
| "serve_inbound reader (Some (Stream_Error e)) c = leave_session Backoff c"
| "serve_inbound reader None c = leave_session Backoff c"

definition serve_outbound :: "frame_sent \<Rightarrow> worker_client \<Rightarrow> worker_client" where
  "serve_outbound fs c =
     (case wc_out c of
        [] \<Rightarrow> c
      | msg # rest \<Rightarrow>
          (let c' = c\<lparr>wc_out := rest, wc_done := wc_done c + 1\<rparr> in
           case fs of
             Frame_Sent \<Rightarrow> c'\<lparr>wc_written := wc_written c @ [msg]\<rparr>
           | Frame_Unserialized \<Rightarrow> c'
           | Frame_Failed \<Rightarrow> leave_session Backoff c'))"

text \<open>An analysis ends: its result goes to its own session's channel, of \<open>slots + 1\<close> places, or nowhere
  if that session is over; then its permit is released.\<close>

definition finish_job :: "nat \<Rightarrow> outcome \<Rightarrow> worker_client \<Rightarrow> worker_client" where
  "finish_job k oc c =
     (if k < length (wc_running c) then
        (let (session, job) = wc_running c ! k;
             c' = c\<lparr>wc_running := take k (wc_running c) @ drop (Suc k) (wc_running c),
                    wc_permits := wc_permits c + 1\<rparr>
         in if wc_state c = Serving \<and> session = wc_session c then
              (if length (wc_out c) < wc_slots c + 1
               then c'\<lparr>wc_out := wc_out c @ [Result (rq_job_id job) oc]\<rparr>
               else c)
            else c')
      else c)"

datatype client_event =
    Cancel
  | Observe
  | Dialled bool
  | Slept
  | Inbound_Frame "inbound option"
  | Outbound_Frame frame_sent
  | Permit_Freed
  | Finished nat outcome

definition observe_cancel :: "worker_client \<Rightarrow> worker_client" where
  "observe_cancel c =
     (if wc_cancelled c \<and> wc_parked c = None then leave_session Stopped c else c)"

definition serving_loop :: "worker_client \<Rightarrow> bool" where
  "serving_loop c = (wc_state c = Serving \<and> wc_parked c = None)"

fun client_step :: "job_reader \<Rightarrow> client_event \<Rightarrow> worker_client \<Rightarrow> worker_client" where
  "client_step reader Cancel c = c\<lparr>wc_cancelled := True\<rparr>"
| "client_step reader Observe c = observe_cancel c"
| "client_step reader (Dialled ok) c = dialled ok c"
| "client_step reader Slept c = slept c"
| "client_step reader (Inbound_Frame frame) c = (if serving_loop c then serve_inbound reader frame c else c)"
| "client_step reader (Outbound_Frame fs) c = (if serving_loop c then serve_outbound fs c else c)"
| "client_step reader Permit_Freed c = permit_freed c"
| "client_step reader (Finished k oc) c = finish_job k oc c"

inductive client_reachable :: "worker_config \<Rightarrow> job_reader \<Rightarrow> worker_client \<Rightarrow> bool" for cfg reader where
  start: "client_reachable cfg reader (client_new cfg b0 b1 b2)"
| step: "client_reachable cfg reader c \<Longrightarrow> client_reachable cfg reader (client_step reader ev c)"

section \<open>The documented lifecycle\<close>

inductive lifecycle :: "client_state \<Rightarrow> client_state \<Rightarrow> bool" where
  dial_ok: "lifecycle Connecting Serving"
| dial_err: "lifecycle Connecting Backoff"
| closed: "lifecycle Serving Backoff"
| sleep_ok: "lifecycle Backoff Connecting"
| shutdown: "s \<noteq> Stopped \<Longrightarrow> lifecycle s Stopped"

inductive_simps lifecycle_simps: "lifecycle s t"

section \<open>Invariant\<close>

definition here :: "worker_client \<Rightarrow> nat" where
  "here c = length (filter (\<lambda>(session, job). session = wc_session c) (wc_running c))"

text \<open>Every permit is free or held by a running analysis, and every job read in the current session is
  running, waiting for a permit, in the outbound channel, or taken from it.\<close>

definition client_ok :: "worker_client \<Rightarrow> bool" where
  "client_ok c = (1 \<le> wc_slots c \<and> wc_slots c \<le> u32_max \<and> 1 \<le> wc_backoff c \<and>
     wc_permits c + length (wc_running c) = wc_slots c \<and>
     list_all (\<lambda>(session, job). session \<le> wc_session c) (wc_running c) \<and>
     (wc_state c = Serving \<longrightarrow>
        wc_got c = wc_done c + length (wc_out c) + here c + (if wc_parked c = None then 0 else 1)) \<and>
     (wc_state c \<noteq> Serving \<longrightarrow> wc_out c = [] \<and> wc_parked c = None))"

lemma client_ok_new: "client_ok (client_new cfg b0 b1 b2)"
  by (auto simp: client_ok_def client_new_def Let_def u32_max_def max_def)

lemma client_ok_dialled: "client_ok c \<Longrightarrow> client_ok (dialled ok c)"
  by (auto simp: client_ok_def dialled_def here_def list_all_iff filter_empty_conv)

lemma client_ok_slept: "client_ok c \<Longrightarrow> client_ok (slept c)"
  by (auto simp: client_ok_def slept_def here_def)

lemma client_ok_leave: "client_ok c \<Longrightarrow> wc_parked c = None \<Longrightarrow> s \<noteq> Serving \<Longrightarrow> client_ok (leave_session s c)"
  by (auto simp: client_ok_def leave_session_def here_def)

lemma client_ok_start_job:
  assumes "client_ok c" and "wc_parked c = Some job" and "0 < wc_permits c"
  shows "client_ok (start_job job c)"
  using assms by (cases "wc_state c = Serving") (auto simp: client_ok_def start_job_def here_def)

lemma client_ok_dispatch:
  assumes "client_ok c" and "serving_loop c"
  shows "client_ok (dispatch job (c\<lparr>wc_got := Suc (wc_got c)\<rparr>))"
  using assms by (auto simp: client_ok_def serving_loop_def dispatch_def start_job_def here_def)

lemma client_ok_inbound: "client_ok c \<Longrightarrow> serving_loop c \<Longrightarrow> client_ok (serve_inbound reader frame c)"
  by (cases "(reader, frame, c)" rule: serve_inbound.cases)
    (auto simp: client_ok_dispatch client_ok_leave serving_loop_def split: option.splits)

lemma client_ok_outbound:
  assumes "client_ok c" and "serving_loop c"
  shows "client_ok (serve_outbound fs c)"
proof (cases "wc_out c")
  case Nil
  then show ?thesis using assms(1) by (simp add: serve_outbound_def)
next
  case (Cons msg rest)
  let ?c = "c\<lparr>wc_out := rest, wc_done := wc_done c + 1\<rparr>"
  have c: "client_ok ?c" using assms Cons by (auto simp: client_ok_def serving_loop_def here_def)
  have "client_ok (?c\<lparr>wc_written := w\<rparr>)" for w using c by (simp add: client_ok_def here_def)
  then show ?thesis
    using c client_ok_leave [OF c] assms(2)
    by (cases fs) (simp_all add: serve_outbound_def Cons Let_def serving_loop_def)
qed

lemma client_ok_finish: "client_ok c \<Longrightarrow> client_ok (finish_job k oc c)"
proof (cases "k < length (wc_running c)")
  case True
  assume ok: "client_ok c"
  obtain session job where kth: "wc_running c ! k = (session, job)" by fastforce
  have split: "wc_running c = take k (wc_running c) @ (session, job) # drop (Suc k) (wc_running c)"
    using id_take_nth_drop [OF True] by (simp add: kth)
  have len: "length (take k (wc_running c) @ drop (Suc k) (wc_running c)) + 1 = length (wc_running c)"
    using True by simp
  have "here c = length (filter (\<lambda>(s, job). s = wc_session c) (take k (wc_running c) @ (session, job) # drop (Suc k) (wc_running c)))"
    unfolding here_def by (subst (1) split) simp
  then have h: "here c = length (filter (\<lambda>(s, job). s = wc_session c) (take k (wc_running c) @ drop (Suc k) (wc_running c)))
      + (if session = wc_session c then 1 else 0)"
    by simp
  have all: "list_all (\<lambda>(s, job). s \<le> wc_session c) (take k (wc_running c) @ drop (Suc k) (wc_running c))"
    using ok by (auto simp: client_ok_def list_all_iff dest: in_set_takeD in_set_dropD)
  show ?thesis
    using ok len h all
    by (auto simp: finish_job_def True kth client_ok_def here_def Let_def)
qed (simp add: finish_job_def)

lemma client_reachable_ok: "client_reachable cfg reader c \<Longrightarrow> client_ok c"
proof (induction rule: client_reachable.induct)
  case (start b0 b1 b2)
  show ?case by (rule client_ok_new)
next
  case (step c ev)
  then show ?case
    by (cases ev) (auto simp: client_ok_dialled client_ok_slept client_ok_inbound client_ok_outbound
        client_ok_finish client_ok_start_job client_ok_leave observe_cancel_def permit_freed_def
        split: option.splits, auto simp: client_ok_def here_def)
qed

lemma client_reachable_run:
  "client_reachable cfg reader c \<Longrightarrow> client_reachable cfg reader (fold (client_step reader) evs c)"
  by (induction evs arbitrary: c) (auto intro: client_reachable.step)

lemma client_ok_out:
  assumes "client_ok c" and "wc_got c \<le> wc_done c + wc_slots c" and "wc_state c = Serving"
  shows "length (wc_out c) \<le> wc_slots c"
  using assms by (simp add: client_ok_def)

lemma finish_frees:
  assumes "length (wc_out c) \<le> wc_slots c" and "k < length (wc_running c)"
  shows "length (wc_running (finish_job k oc c)) + 1 = length (wc_running c) \<and>
    wc_permits (finish_job k oc c) = wc_permits c + 1"
  using assms by (cases "wc_running c ! k") (auto simp: finish_job_def Let_def)

lemma parked_released:
  assumes ok: "client_ok c" and "wc_cancelled c" and "wc_got c \<le> wc_done c + wc_slots c"
    and parked: "wc_parked c = Some job"
  shows "wc_state (client_step reader Observe (client_step reader Permit_Freed
    (if wc_permits c = 0 then client_step reader (Finished 0 oc) c else c))) = Stopped"
proof -
  have serving: "wc_state c = Serving" using ok parked by (auto simp: client_ok_def)
  show ?thesis
  proof (cases "wc_permits c")
    case (Suc n)
    then show ?thesis
      using assms(2) parked by (simp add: permit_freed_def start_job_def observe_cancel_def leave_session_def)
  next
    case 0
    then obtain r rs where "wc_running c = r # rs"
      using ok by (cases "wc_running c") (auto simp: client_ok_def)
    then show ?thesis
      using assms(2) parked 0 client_ok_out [OF ok assms(3) serving]
      by (cases r) (auto simp: finish_job_def Let_def permit_freed_def start_job_def observe_cancel_def leave_session_def)
  qed
qed

section \<open>Properties\<close>

text \<open>C22. Every step of the client follows the documented lifecycle: it leaves its state as it is or takes
  an edge of the diagram, so nothing follows the stopped state, and a session always ends in a backoff
  or a stop, never in a direct redial.\<close>

theorem client_refines_lifecycle:
  "wc_state (client_step reader ev c) = wc_state c \<or> lifecycle (wc_state c) (wc_state (client_step reader ev c))"
proof (cases ev)
  case (Inbound_Frame frame)
  have "wc_state (serve_inbound reader frame c) \<in> {wc_state c, Backoff}"
    by (cases "(reader, frame, c)" rule: serve_inbound.cases)
      (auto simp: dispatch_def start_job_def leave_session_def split: option.splits)
  then show ?thesis by (auto simp: Inbound_Frame serving_loop_def lifecycle_simps)
next
  case (Outbound_Frame fs)
  then show ?thesis
    by (cases fs) (auto simp: serving_loop_def serve_outbound_def leave_session_def Let_def lifecycle_simps split: list.splits)
qed (auto simp: observe_cancel_def leave_session_def dialled_def slept_def permit_freed_def start_job_def
    finish_job_def Let_def case_prod_beta lifecycle_simps split: option.splits)

text \<open>A worker never runs more analyses than its slots, however its sessions come and go: every permit
  is free or held by one running analysis.  While a session is served, each job read from it is
  running, parked, in the outbound channel or taken from it; so as long as the orchestrator keeps to the
  slots announced, the channel has room for every result and a finished analysis never blocks.\<close>

lemma client_within_slots:
  assumes "client_reachable cfg reader c"
  shows "wc_permits c + length (wc_running c) = wc_slots c \<and> 1 \<le> wc_slots c \<and> wc_slots c \<le> u32_max \<and>
    (wc_state c = Serving \<longrightarrow>
       wc_got c = wc_done c + length (wc_out c) + here c + (if wc_parked c = None then 0 else 1) \<and>
       (wc_got c \<le> wc_done c + wc_slots c \<and> k < length (wc_running c) \<longrightarrow>
          length (wc_running (client_step reader (Finished k oc) c)) + 1 = length (wc_running c) \<and>
          wc_permits (client_step reader (Finished k oc) c) = wc_permits c + 1))"
proof -
  have ok: "client_ok c" using assms by (rule client_reachable_ok)
  have fin: "length (wc_running (client_step reader (Finished k oc) c)) + 1 = length (wc_running c) \<and>
      wc_permits (client_step reader (Finished k oc) c) = wc_permits c + 1"
    if "wc_state c = Serving" and k: "wc_got c \<le> wc_done c + wc_slots c \<and> k < length (wc_running c)"
    using finish_frees [OF _ conjunct2 [OF k]] client_ok_out [OF ok conjunct1 [OF k] that(1)] by simp
  have parts: "wc_permits c + length (wc_running c) = wc_slots c" "1 \<le> wc_slots c" "wc_slots c \<le> u32_max"
    using ok by (simp_all add: client_ok_def)
  have books: "wc_got c = wc_done c + length (wc_out c) + here c + (if wc_parked c = None then 0 else 1)"
    if "wc_state c = Serving"
    using ok that by (simp add: client_ok_def)
  show ?thesis by (intro conjI impI; (rule parts books conjunct1 [OF fin] conjunct2 [OF fin]; assumption?))
qed

definition sample_worker :: worker_config where
  "sample_worker = default_worker_config\<lparr>concurrency := 1, worker_auth_token := ''s3cret''\<rparr>"

definition sample_jobs :: job_reader where
  "sample_jobs t = (if t = ''job'' then Some (sample_request 7) else None)"

definition idle_sample :: worker_client where
  "idle_sample = \<lparr>wc_name = ''eager-gecko-07'', wc_slots = 1, wc_backoff = 3, wc_state = Connecting,
     wc_session = 0, wc_permits = 1, wc_running = [], wc_parked = None, wc_out = [], wc_got = 0,
     wc_done = 0, wc_written = [], wc_cancelled = False\<rparr>"

lemma sample_name: "generate_name 3 200 7 = ''eager-gecko-07''"
  by code_simp

lemma sample_new: "client_new sample_worker 3 200 7 = idle_sample"
  by (simp add: client_new_def idle_sample_def sample_worker_def default_worker_config_def sample_name u32_max_def)

definition sample_client :: worker_client where
  "sample_client = fold (client_step sample_jobs)
     [Dialled False, Slept, Dialled True, Inbound_Frame (Some (Text ''job''))] idle_sample"

lemma sample_client_reachable: "client_reachable sample_worker sample_jobs sample_client"
  unfolding sample_client_def sample_new [symmetric] by (rule client_reachable_run [OF client_reachable.start])

lemma sample_client_facts:
  "wc_state sample_client = Serving" "wc_got sample_client = 1" "wc_done sample_client = 0"
  "wc_slots sample_client = 1" "length (wc_running sample_client) = 1" "wc_parked sample_client = None"
  "wc_name sample_client = ''eager-gecko-07''" "wc_permits sample_client = 0"
  by code_simp+

lemma client_within_slots_witness:
  "wc_permits sample_client + length (wc_running sample_client) = 1 \<and>
   wc_permits (client_step sample_jobs (Finished 0 (Outcome_Ok J_Null)) sample_client) = 1"
  using client_within_slots [OF sample_client_reachable, of 0 "Outcome_Ok J_Null"]
  by (simp add: sample_client_facts)

text \<open>A worker told to shut down stops: at its next turn, or, if it is waiting with a job for a free
  slot, once an analysis has ended.\<close>

lemma cancelled_client_stops:
  assumes "client_reachable cfg reader c" and "wc_cancelled c" and "wc_got c \<le> wc_done c + wc_slots c"
  shows "wc_state (client_step reader Observe
    (if wc_parked c = None then c
     else client_step reader Permit_Freed
       (if wc_permits c = 0 then client_step reader (Finished 0 oc) c else c))) = Stopped"
proof (cases "wc_parked c")
  case None
  then show ?thesis using assms(2) by (simp add: observe_cancel_def leave_session_def)
next
  case (Some job)
  then show ?thesis using parked_released [OF client_reachable_ok [OF assms(1)] assms(2,3) Some] by simp
qed

definition cancelled_client :: worker_client where
  "cancelled_client = client_step sample_jobs Cancel sample_client"

lemma cancelled_client_stops_witness:
  "wc_state (client_step sample_jobs Observe cancelled_client) = Stopped"
proof -
  have r: "client_reachable sample_worker sample_jobs cancelled_client"
    unfolding cancelled_client_def by (rule client_reachable.step [OF sample_client_reachable])
  have f: "wc_cancelled cancelled_client" "wc_got cancelled_client \<le> wc_done cancelled_client + wc_slots cancelled_client"
      "wc_parked cancelled_client = None"
    by (simp_all add: cancelled_client_def sample_client_facts)
  show ?thesis using cancelled_client_stops [OF r f(1,2)] f(3) by simp
qed

text \<open>Shipping a job to a worker gives what running it in process gives: the same analysis when it
  succeeds; when the analysis fails, an error again, with the worker's text inside an inference error.\<close>

lemma remote_agrees_with_local:
  "slot_answer (Filled (outcome_result (run_job to_value engine sgf profile))) =
     Some (case engine sgf profile of
         Inl err \<Rightarrow> Inl (Inference (error_text err))
       | Inr analysis \<Rightarrow>
           (case to_value analysis of
              Inl err \<Rightarrow> Inl (Inference (''serialize analysis: '' @ err))
            | Inr v \<Rightarrow> local_execute to_value engine job_id sgf profile))"
  by (simp add: run_job_def local_execute_def split: sum.splits)

text \<open>A worker configured with the orchestrator's token is admitted, and the session its greeting
  opens grants it the slots it can run at once, up to the orchestrator's limit.\<close>

lemma dial_opens_session:
  assumes "reader hello = Some (dial_hello (client_new cfg b0 b1 b2))"
  shows "cluster_ws (Some (worker_auth_token cfg)) True (dial_authorization cfg) = Upgraded \<and>
    map_option se_slots (run_session_start reader [Ping, Text hello]) = Some (min (max (concurrency cfg) 1) 64)"
proof -
  have "cluster_ws (Some (worker_auth_token cfg)) True (dial_authorization cfg) = Upgraded"
    by (simp add: cluster_ws_def authorized_def dial_authorization_def bearer_matches_eq)
  moreover have "wc_slots (client_new cfg b0 b1 b2) = min (max (concurrency cfg) 1) u32_max"
    by (simp add: client_new_def Let_def min_def)
  then have "clamp_slots (wc_slots (client_new cfg b0 b1 b2)) = min (max (concurrency cfg) 1) 64"
    by (auto simp: clamp_slots_def MAX_SLOTS_def u32_max_def)
  ultimately show ?thesis
    using assms by (simp add: run_session_start_def dial_hello_def session_start_def)
qed

theorem dial_opens_session_witness:
  "cluster_ws (Some ''s3cret'') True (dial_authorization sample_worker) = Upgraded \<and>
   map_option se_slots (run_session_start (\<lambda>t. if t = ''hi'' then Some (dial_hello (client_new sample_worker 3 200 7)) else None)
     [Ping, Text ''hi'']) = Some 1"
  using dial_opens_session [of "\<lambda>t. if t = ''hi'' then Some (dial_hello (client_new sample_worker 3 200 7)) else None"
      "''hi''" sample_worker 3 200 7]
  by (simp add: sample_worker_def default_worker_config_def)

text \<open>While a job waits for a slot, a shutdown is not observed.\<close>

lemma parked_ignores_shutdown:
  "wc_parked c = Some job \<Longrightarrow> client_step reader Observe c = c"
  by (simp add: observe_cancel_def)

end
