(* ===== verification/Cluster.thy ===== *)
theory Cluster
  imports Cluster_Client
begin

text \<open>
  A worker and its orchestrator, joined (\<open>src/src/cluster/server.rs\<close>, \<open>src/src/cluster/client.rs\<close>):
  the sessions of \<^bold>\<open>Cluster_Server\<close> and the client of \<^bold>\<open>Cluster_Client\<close> run at their own pace, and a
  pair of first-in-first-out wires carries what one writes to the other.  Each dial of the worker opens
  a session of its own at the orchestrator; the older ones wind down beside it.  Other workers have
  sessions of their own, which share nothing with these.
\<close>

section \<open>The joint state\<close>

text \<open>A session of the orchestrator, the jobs on their way to the worker and the answers on their way back.\<close>

record link =
  ln_server :: session
  ln_down :: "job_request list"
  ln_up :: "client_msg list"

text \<open>Session \<open>n\<close> of the worker is link \<open>n - 1\<close>.\<close>

record cluster =
  cl_worker :: worker_client
  cl_links :: "link list"

text \<open>What is not under \<open>src\<close>: \<open>serde_json\<close>'s two directions for the two message types, and the results
  the engine may give for a game and a profile.\<close>

record outside =
  ou_to_value :: "game_analysis \<Rightarrow> string + json"
  ou_may :: "string \<Rightarrow> string option \<Rightarrow> game_analysis app_result \<Rightarrow> bool"
  ou_show_job :: "job_request \<Rightarrow> string"
  ou_read_job :: job_reader
  ou_show_msg :: "client_msg \<Rightarrow> string"
  ou_read_msg :: msg_reader

abbreviation in_flow :: "cluster \<Rightarrow> link" where
  "in_flow C \<equiv> last (cl_links C)"

section \<open>Steps\<close>

text \<open>A step of the orchestrator that takes no message: what it writes to the socket goes on the wire.\<close>

fun carries_text :: "session_event \<Rightarrow> bool" where
  "carries_text (Inbound (Some (Text t))) = True"
| "carries_text _ = False"

definition server_moves :: "outside \<Rightarrow> session_event \<Rightarrow> link \<Rightarrow> link" where
  "server_moves ou ev l =
     (let s' = session_step (ou_read_msg ou) ev (ln_server l) in
      l\<lparr>ln_server := s', ln_down := ln_down l @ drop (length (se_sent (ln_server l))) (se_sent s')\<rparr>)"

definition server_reads :: "outside \<Rightarrow> link \<Rightarrow> link" where
  "server_reads ou l =
     (case ln_up l of
        [] \<Rightarrow> l
      | msg # rest \<Rightarrow>
          (if se_phase (ln_server l) = Open
           then l\<lparr>ln_server := session_step (ou_read_msg ou) (Inbound (Some (Text (ou_show_msg ou msg)))) (ln_server l),
                  ln_up := rest\<rparr>
           else l))"

definition on_flow :: "(link \<Rightarrow> link) \<Rightarrow> link list \<Rightarrow> link list" where
  "on_flow f ls = (if ls = [] then [] else butlast ls @ [f (last ls)])"

definition worker_moves :: "outside \<Rightarrow> client_event \<Rightarrow> cluster \<Rightarrow> cluster" where
  "worker_moves ou ev C =
     (let w = cl_worker C; w' = client_step (ou_read_job ou) ev w in
      C\<lparr>cl_worker := w',
        cl_links := on_flow (\<lambda>l. l\<lparr>ln_up := ln_up l @ drop (length (wc_written w)) (wc_written w')\<rparr>) (cl_links C)\<rparr>)"

definition worker_reads :: "outside \<Rightarrow> cluster \<Rightarrow> cluster" where
  "worker_reads ou C =
     (if cl_links C = [] \<or> \<not> serving_loop (cl_worker C) then C
      else case ln_down (in_flow C) of
          [] \<Rightarrow> C
        | job # rest \<Rightarrow>
            C\<lparr>cl_worker := client_step (ou_read_job ou) (Inbound_Frame (Some (Text (ou_show_job ou job)))) (cl_worker C),
              cl_links := on_flow (\<lambda>l. l\<lparr>ln_down := rest\<rparr>) (cl_links C)\<rparr>)"

text \<open>A dial: the greeting the worker sends opens the session it asks for, or the dial has failed.\<close>

definition cluster_dial :: "outside \<Rightarrow> bool \<Rightarrow> cluster \<Rightarrow> cluster" where
  "cluster_dial ou ok C =
     (if wc_state (cl_worker C) \<noteq> Connecting then C
      else case (if ok then run_session_start (ou_read_msg ou) [Text (ou_show_msg ou (dial_hello (cl_worker C)))]
                 else None) of
          None \<Rightarrow> C\<lparr>cl_worker := dialled False (cl_worker C)\<rparr>
        | Some s \<Rightarrow> C\<lparr>cl_worker := dialled True (cl_worker C),
                      cl_links := cl_links C @ [\<lparr>ln_server = s, ln_down = [], ln_up = []\<rparr>]\<rparr>)"

text \<open>The events that are the worker's own: dials, messages and finished analyses are events of the cluster.\<close>

fun own_event :: "client_event \<Rightarrow> bool" where
  "own_event (Inbound_Frame (Some (Text t))) = False"
| "own_event (Dialled ok) = False"
| "own_event (Finished k oc) = False"
| "own_event _ = True"

datatype cluster_event =
    Server nat session_event
  | Server_Reads nat
  | Worker client_event
  | Worker_Reads
  | Dial bool
  | Finishes nat "game_analysis app_result"

definition ran :: "outside \<Rightarrow> job_request \<Rightarrow> game_analysis app_result \<Rightarrow> outcome" where
  "ran ou job r = run_job (ou_to_value ou) (\<lambda>sgf profile. r) (rq_sgf job) (rq_human_profile job)"

fun cluster_step :: "outside \<Rightarrow> cluster_event \<Rightarrow> cluster \<Rightarrow> cluster" where
  "cluster_step ou (Server k ev) C =
     (if k < length (cl_links C) \<and> \<not> carries_text ev
      then C\<lparr>cl_links := (cl_links C)[k := server_moves ou ev (cl_links C ! k)]\<rparr> else C)"
| "cluster_step ou (Server_Reads k) C =
     (if k < length (cl_links C)
      then C\<lparr>cl_links := (cl_links C)[k := server_reads ou (cl_links C ! k)]\<rparr> else C)"
| "cluster_step ou (Worker ev) C = (if own_event ev then worker_moves ou ev C else C)"
| "cluster_step ou Worker_Reads C = worker_reads ou C"
| "cluster_step ou (Dial ok) C = cluster_dial ou ok C"
| "cluster_step ou (Finishes k r) C =
     (if k < length (wc_running (cl_worker C)) then
        (let job = snd (wc_running (cl_worker C) ! k) in
         if ou_may ou (rq_sgf job) (rq_human_profile job) r
         then worker_moves ou (Finished k (ran ou job r)) C else C)
      else C)"

definition cluster_start :: "worker_client \<Rightarrow> cluster" where
  "cluster_start w = \<lparr>cl_worker = w, cl_links = []\<rparr>"

inductive cluster_reachable :: "outside \<Rightarrow> worker_config \<Rightarrow> cluster \<Rightarrow> bool" for ou cfg where
  start: "cluster_reachable ou cfg (cluster_start (client_new cfg b0 b1 b2))"
| step: "cluster_reachable ou cfg C \<Longrightarrow> cluster_reachable ou cfg (cluster_step ou ev C)"

text \<open>The readers give back every message written in this run.\<close>

definition codec_faithful :: "outside \<Rightarrow> cluster \<Rightarrow> bool" where
  "codec_faithful ou C =
     ((\<forall>l \<in> set (cl_links C). \<forall>job \<in> set (se_sent (ln_server l)). ou_read_job ou (ou_show_job ou job) = Some job) \<and>
      (\<forall>msg \<in> insert (dial_hello (cl_worker C)) (set (wc_written (cl_worker C))).
         ou_read_msg ou (ou_show_msg ou msg) = Some msg))"

section \<open>What each side writes\<close>

lemma drop_fold:
  "se_sent (foldl (\<lambda>t j. take_waiter j v t) s js) = se_sent s"
  "se_results (foldl (\<lambda>t j. take_waiter j v t) s js) = se_results s"
  "se_out (foldl (\<lambda>t j. take_waiter j v t) s js) = se_out s"
  "se_slots (foldl (\<lambda>t j. take_waiter j v t) s js) = se_slots s"
  "map ca_request (se_calls (foldl (\<lambda>t j. take_waiter j v t) s js)) = map ca_request (se_calls s)"
proof -
  have one: "map ca_request (se_calls (take_waiter j v t)) = map ca_request (se_calls t)" for j t
    by (rule nth_equalityI) (simp_all add: nth_map)
  show "map ca_request (se_calls (foldl (\<lambda>t j. take_waiter j v t) s js)) = map ca_request (se_calls s)"
    by (induction js arbitrary: s) (simp_all add: one)
qed (induction js arbitrary: s, simp_all)+

lemma take_requests [simp]: "map ca_request (se_calls (take_waiter j v s)) = map ca_request (se_calls s)"
  by (rule nth_equalityI) (simp_all add: nth_map)

lemma upd_requests:
  "ca_request (f (call_of s c)) = ca_request (call_of s c) \<Longrightarrow>
     map ca_request (se_calls (upd_call c f s)) = map ca_request (se_calls s)"
  by (cases "c < length (se_calls s)") (simp_all add: upd_call_def map_update list_update_same_conv list_update_beyond)

text \<open>The writes, the results read and the calls of a session only grow; only a message adds a result.\<close>

lemma inbound_facts:
  "se_sent (io_inbound reader frame s) = se_sent s"
  "map ca_request (se_calls (io_inbound reader frame s)) = map ca_request (se_calls s)"
  "\<not> carries_text (Inbound frame) \<Longrightarrow> se_results (io_inbound reader frame s) = se_results s"
  by (cases "(reader, frame, s)" rule: io_inbound.cases;
      simp add: complete_job_def split: option.splits client_msg.splits)+

lemma outbound_facts:
  "\<exists>new. se_sent (io_outbound fs s) = se_sent s @ new"
  "se_results (io_outbound fs s) = se_results s" "se_calls (io_outbound fs s) = se_calls s"
  by (cases fs; simp add: io_outbound_def split: list.splits)+

lemma analyze_facts:
  "se_sent (analyze_begin req s) = se_sent s" "se_results (analyze_begin req s) = se_results s"
  "se_sent (analyze_send c s) = se_sent s" "se_results (analyze_send c s) = se_results s"
  "se_sent (analyze_undeliverable c s) = se_sent s" "se_results (analyze_undeliverable c s) = se_results s"
  "se_sent (analyze_await c s) = se_sent s" "se_results (analyze_await c s) = se_results s"
  by (simp_all add: analyze_begin_def add_call_def analyze_send_def analyze_undeliverable_def analyze_await_def
      split: option.splits)

lemma analyze_requests:
  "\<exists>more. map ca_request (se_calls (analyze_begin req s)) = map ca_request (se_calls s) @ more"
  "map ca_request (se_calls (analyze_send c s)) = map ca_request (se_calls s)"
  "map ca_request (se_calls (analyze_undeliverable c s)) = map ca_request (se_calls s)"
  "map ca_request (se_calls (analyze_await c s)) = map ca_request (se_calls s)"
  by (auto simp: analyze_begin_def add_call_def analyze_send_def analyze_undeliverable_def analyze_await_def
      upd_requests split: option.splits)

lemma session_sent: "\<exists>new. se_sent (session_step reader ev s) = se_sent s @ new"
  by (cases ev) (auto simp: analyze_facts outbound_facts inbound_facts clear_pending_def close_session_def drop_fold)

lemma session_results: "\<not> carries_text ev \<Longrightarrow> se_results (session_step reader ev s) = se_results s"
  by (cases ev) (auto simp: analyze_facts outbound_facts inbound_facts clear_pending_def close_session_def drop_fold)

lemma session_requests:
  "\<exists>more. map ca_request (se_calls (session_step reader ev s)) = map ca_request (se_calls s) @ more"
  by (cases ev) (auto simp: analyze_requests outbound_facts inbound_facts clear_pending_def close_session_def drop_fold)

lemma client_written: "\<exists>new. wc_written (client_step reader ev w) = wc_written w @ new \<and>
    dial_hello (client_step reader ev w) = dial_hello w \<and> wc_slots (client_step reader ev w) = wc_slots w"
proof (cases ev)
  case (Inbound_Frame frame)
  have "wc_written (serve_inbound reader frame w) = wc_written w \<and> wc_slots (serve_inbound reader frame w) = wc_slots w \<and>
      wc_name (serve_inbound reader frame w) = wc_name w"
    by (cases "(reader, frame, w)" rule: serve_inbound.cases)
      (auto simp: dispatch_def start_job_def leave_session_def split: option.splits)
  then show ?thesis by (simp add: Inbound_Frame dial_hello_def)
next
  case (Outbound_Frame fs)
  then show ?thesis
    by (cases fs) (auto simp: dial_hello_def serve_outbound_def leave_session_def Let_def split: list.splits)
qed (auto simp: dial_hello_def observe_cancel_def leave_session_def dialled_def slept_def permit_freed_def start_job_def
    finish_job_def Let_def case_prod_beta split: option.splits)

section \<open>Where an answer comes from\<close>

text \<open>An outcome is genuine among some jobs when one of them was run and gave it.\<close>

definition genuine :: "outside \<Rightarrow> job_request set \<Rightarrow> uuid \<Rightarrow> outcome \<Rightarrow> bool" where
  "genuine ou jobs j oc =
     (\<exists>job \<in> jobs. rq_job_id job = j \<and> (\<exists>r. ou_may ou (rq_sgf job) (rq_human_profile job) r \<and> oc = ran ou job r))"

fun msg_genuine :: "outside \<Rightarrow> job_request set \<Rightarrow> client_msg \<Rightarrow> bool" where
  "msg_genuine ou jobs (Result j oc) = genuine ou jobs j oc"
| "msg_genuine ou jobs (Hello n name) = True"

lemma genuine_mono: "genuine ou jobs j oc \<Longrightarrow> jobs \<subseteq> jobs' \<Longrightarrow> genuine ou jobs' j oc"
  by (auto simp: genuine_def)

lemma msg_genuine_mono: "msg_genuine ou jobs msg \<Longrightarrow> jobs \<subseteq> jobs' \<Longrightarrow> msg_genuine ou jobs' msg"
  by (cases msg) (auto intro: genuine_mono)

abbreviation given :: "link \<Rightarrow> job_request set" where
  "given l \<equiv> set (se_sent (ln_server l))"

text \<open>The jobs the worker was given in its session \<open>n\<close>.\<close>

definition given_in :: "link list \<Rightarrow> nat \<Rightarrow> job_request set" where
  "given_in ls n = (if 1 \<le> n \<and> n \<le> length ls then given (ls ! (n - 1)) else {})"

definition link_genuine :: "outside \<Rightarrow> link \<Rightarrow> bool" where
  "link_genuine ou l = (session_reachable (ou_read_msg ou) (ln_server l) \<and> set (ln_down l) \<subseteq> given l \<and>
     list_all (msg_genuine ou (given l)) (ln_up l) \<and>
     list_all (\<lambda>(j, oc). genuine ou (given l) j oc) (se_results (ln_server l)))"

definition worker_genuine :: "outside \<Rightarrow> (nat \<Rightarrow> job_request set) \<Rightarrow> worker_client \<Rightarrow> bool" where
  "worker_genuine ou jobs w =
     (list_all (\<lambda>(n, job). job \<in> jobs n) (wc_running w) \<and>
      list_all (\<lambda>job. job \<in> jobs (wc_session w)) (case wc_parked w of None \<Rightarrow> [] | Some job \<Rightarrow> [job]) \<and>
      list_all (msg_genuine ou (jobs (wc_session w))) (wc_out w))"

definition cluster_genuine :: "outside \<Rightarrow> cluster \<Rightarrow> bool" where
  "cluster_genuine ou C =
     (wc_session (cl_worker C) = length (cl_links C) \<and> worker_genuine ou (given_in (cl_links C)) (cl_worker C) \<and>
      list_all (link_genuine ou) (cl_links C))"

lemma worker_genuine_mono:
  assumes "worker_genuine ou jobs w" and "\<And>n. jobs n \<subseteq> jobs' n"
  shows "worker_genuine ou jobs' w"
proof -
  have "msg_genuine ou (jobs n) msg \<Longrightarrow> msg_genuine ou (jobs' n) msg" for n msg
    by (erule msg_genuine_mono) (rule assms(2))
  then show ?thesis
    using assms unfolding worker_genuine_def list_all_iff by (fastforce split: option.splits)
qed

lemma server_moves_genuine:
  assumes "link_genuine ou l" and "\<not> carries_text ev"
  shows "link_genuine ou (server_moves ou ev l) \<and> given l \<subseteq> given (server_moves ou ev l)"
proof -
  obtain new where new: "se_sent (session_step (ou_read_msg ou) ev (ln_server l)) = se_sent (ln_server l) @ new"
    using session_sent by blast
  have "given l \<subseteq> set (se_sent (ln_server l) @ new)" by auto
  then show ?thesis
    using assms new session_results [OF assms(2)]
    by (auto simp: link_genuine_def server_moves_def Let_def list_all_iff
        intro: session_reachable.step msg_genuine_mono genuine_mono)
qed

lemma server_reads_genuine:
  assumes "link_genuine ou l"
    and codec: "\<And>msg. msg \<in> set (ln_up l) \<Longrightarrow> ou_read_msg ou (ou_show_msg ou msg) = Some msg"
  shows "link_genuine ou (server_reads ou l) \<and> given (server_reads ou l) = given l"
proof (cases "ln_up l")
  case Nil
  then show ?thesis using assms(1) by (simp add: server_reads_def)
next
  case (Cons msg rest)
  let ?s = "session_step (ou_read_msg ou) (Inbound (Some (Text (ou_show_msg ou msg)))) (ln_server l)"
  have "session_reachable (ou_read_msg ou) ?s"
    by (rule session_reachable.step) (use assms(1) in \<open>simp add: link_genuine_def\<close>)
  moreover have "se_sent ?s = se_sent (ln_server l)" by (simp add: inbound_facts del: io_inbound.simps)
  moreover have "list_all (\<lambda>(j, oc). genuine ou (given l) j oc) (se_results ?s)"
    using assms(1) codec [of msg] Cons by (cases msg) (auto simp: link_genuine_def complete_job_def)
  ultimately show ?thesis
    using assms(1) Cons by (simp add: server_reads_def link_genuine_def del: session_step.simps io_inbound.simps)
qed


text \<open>The worker's steps, whatever the jobs of its sessions are.\<close>

lemma client_session: "own_event ev \<or> (\<exists>k oc. ev = Finished k oc) \<or> (\<exists>f. ev = Inbound_Frame f) \<Longrightarrow>
    wc_session (client_step reader ev w) = wc_session w"
proof (cases ev)
  case (Inbound_Frame frame)
  then show ?thesis
    by (cases "(reader, frame, w)" rule: serve_inbound.cases)
      (auto simp: dispatch_def start_job_def leave_session_def split: option.splits)
next
  case (Outbound_Frame fs)
  then show ?thesis
    by (cases fs) (auto simp: serve_outbound_def leave_session_def Let_def split: list.splits)
qed (auto simp: observe_cancel_def leave_session_def slept_def permit_freed_def start_job_def
    finish_job_def Let_def case_prod_beta split: option.splits)

lemma worker_outbound_genuine:
  assumes "worker_genuine ou jobs w"
  shows "worker_genuine ou jobs (serve_outbound fs w) \<and>
    list_all (msg_genuine ou (jobs (wc_session w))) (drop (length (wc_written w)) (wc_written (serve_outbound fs w)))"
  using assms
  by (cases "wc_out w"; cases fs)
    (simp_all add: serve_outbound_def leave_session_def worker_genuine_def Let_def split: option.splits)

lemma worker_finish_genuine:
  assumes "worker_genuine ou jobs w" and "k < length (wc_running w)"
    and "ou_may ou (rq_sgf (snd (wc_running w ! k))) (rq_human_profile (snd (wc_running w ! k))) r"
  shows "worker_genuine ou jobs (finish_job k (ran ou (snd (wc_running w ! k)) r) w) \<and>
    wc_written (finish_job k (ran ou (snd (wc_running w ! k)) r) w) = wc_written w"
proof -
  obtain n job where k: "wc_running w ! k = (n, job)" by fastforce
  then have "job \<in> jobs n"
    using assms(1,2) unfolding worker_genuine_def by (fastforce simp: list_all_length)
  then have "genuine ou (jobs n) (rq_job_id job) (ran ou job r)"
    using assms(3) k by (auto simp: genuine_def)
  then show ?thesis
    using assms(1) k by (auto simp: finish_job_def worker_genuine_def list_all_iff Let_def
        dest: in_set_takeD in_set_dropD split: option.splits)
qed

lemma worker_own_genuine:
  assumes "worker_genuine ou jobs w" and "own_event ev"
  shows "worker_genuine ou jobs (client_step (ou_read_job ou) ev w) \<and>
    list_all (msg_genuine ou (jobs (wc_session w)))
      (drop (length (wc_written w)) (wc_written (client_step (ou_read_job ou) ev w)))"
proof (cases ev)
  case (Inbound_Frame frame)
  then show ?thesis
    using assms by (cases ev rule: own_event.cases) (auto simp: leave_session_def worker_genuine_def)
next
  case (Outbound_Frame fs)
  then show ?thesis using assms worker_outbound_genuine [of ou jobs w fs] by auto
qed (use assms in \<open>auto simp: observe_cancel_def leave_session_def slept_def permit_freed_def start_job_def
    worker_genuine_def split: option.splits\<close>)

lemma worker_reads_genuine:
  assumes "worker_genuine ou jobs w" and "job \<in> jobs (wc_session w)" and "reader t = Some job" and "wc_parked w = None"
  shows "worker_genuine ou jobs (serve_inbound reader (Some (Text t)) w)"
  using assms by (auto simp: dispatch_def start_job_def worker_genuine_def)


text \<open>The list of links.\<close>

lemma on_flow_facts [simp]:
  "length (on_flow f ls) = length ls" "on_flow f [] = []" "on_flow f (ls @ [l]) = ls @ [f l]"
  by (auto simp: on_flow_def)

lemma given_in_update:
  assumes "k < length ls" and "given (ls ! k) \<subseteq> given l'"
  shows "given_in ls n \<subseteq> given_in (ls[k := l']) n"
  using assms by (auto simp: given_in_def nth_list_update)

lemma given_in_flow:
  assumes "ln_server (f (last ls)) = ln_server (last ls)"
  shows "given_in (on_flow f ls) n = given_in ls n"
proof (cases ls rule: rev_cases)
  case (snoc init l)
  then show ?thesis using assms by (auto simp: given_in_def nth_append)
qed (simp add: on_flow_def)

lemma given_in_last: "ls \<noteq> [] \<Longrightarrow> given_in ls (length ls) = given (last ls)"
  by (cases ls) (simp_all add: given_in_def last_conv_nth)

lemma given_in_snoc: "given_in ls n \<subseteq> given_in (ls @ [l]) n"
  by (auto simp: given_in_def nth_append)

lemma list_all_update: "list_all P xs \<Longrightarrow> P y \<Longrightarrow> list_all P (xs[k := y])"
  using set_update_subset_insert [of xs k y] by (auto simp: list_all_iff)

section \<open>The joint invariant\<close>

lemma server_side_genuine:
  assumes "cluster_genuine ou C" and "k < length (cl_links C)"
    and "link_genuine ou l'" and "given (cl_links C ! k) \<subseteq> given l'"
  shows "cluster_genuine ou (C\<lparr>cl_links := (cl_links C)[k := l']\<rparr>)"
  using assms worker_genuine_mono [OF _ given_in_update [OF assms(2,4)]]
  by (simp add: cluster_genuine_def list_all_update)

lemma worker_side_genuine:
  assumes "cluster_genuine ou C" and "worker_genuine ou (given_in (cl_links C)) w'"
    and "wc_session w' = wc_session (cl_worker C)"
    and "list_all (msg_genuine ou (given_in (cl_links C) (wc_session (cl_worker C))))
          (drop (length (wc_written (cl_worker C))) (wc_written w'))"
  shows "cluster_genuine ou (C\<lparr>cl_worker := w',
    cl_links := on_flow (\<lambda>l. l\<lparr>ln_up := ln_up l @ drop (length (wc_written (cl_worker C))) (wc_written w')\<rparr>) (cl_links C)\<rparr>)"
proof (cases "cl_links C" rule: rev_cases)
  case Nil
  then show ?thesis using assms by (simp add: cluster_genuine_def)
next
  case (snoc init l)
  let ?f = "\<lambda>l. l\<lparr>ln_up := ln_up l @ drop (length (wc_written (cl_worker C))) (wc_written w')\<rparr>"
  have same: "given_in (on_flow ?f (cl_links C)) = given_in (cl_links C)"
    by (rule ext) (simp add: given_in_flow)
  have "given_in (cl_links C) (wc_session (cl_worker C)) = given l"
    using assms(1) given_in_last [of "cl_links C"] by (simp add: cluster_genuine_def snoc)
  then have "link_genuine ou (?f l)"
    using assms(1,4) by (simp add: cluster_genuine_def snoc link_genuine_def)
  then show ?thesis using assms(1-3) same by (simp add: cluster_genuine_def snoc)
qed

lemma worker_moves_genuine:
  assumes "cluster_genuine ou C" and "own_event ev"
  shows "cluster_genuine ou (worker_moves ou ev C)"
proof -
  let ?w = "client_step (ou_read_job ou) ev (cl_worker C)"
  have "worker_genuine ou (given_in (cl_links C)) (cl_worker C)" using assms(1) by (simp add: cluster_genuine_def)
  note own = worker_own_genuine [OF this assms(2)]
  have "wc_session ?w = wc_session (cl_worker C)" using assms(2) by (intro client_session) simp
  then show ?thesis
    unfolding worker_moves_def Let_def using own by (intro worker_side_genuine [OF assms(1)]) simp_all
qed

lemma finishes_genuine:
  assumes "cluster_genuine ou C"
  shows "cluster_genuine ou (cluster_step ou (Finishes k r) C)"
proof (cases "k < length (wc_running (cl_worker C)) \<and>
    ou_may ou (rq_sgf (snd (wc_running (cl_worker C) ! k))) (rq_human_profile (snd (wc_running (cl_worker C) ! k))) r")
  case True
  let ?oc = "ran ou (snd (wc_running (cl_worker C) ! k)) r"
  have "worker_genuine ou (given_in (cl_links C)) (cl_worker C)" using assms by (simp add: cluster_genuine_def)
  note fin = worker_finish_genuine [OF this conjunct1 [OF True] conjunct2 [OF True]]
  have "wc_session (finish_job k ?oc (cl_worker C)) = wc_session (cl_worker C)"
    using client_session [of "Finished k ?oc" "ou_read_job ou" "cl_worker C"] by simp
  then have "cluster_genuine ou (worker_moves ou (Finished k ?oc) C)"
    unfolding worker_moves_def Let_def client_step.simps using fin by (intro worker_side_genuine [OF assms]) simp_all
  then show ?thesis using True by (simp add: Let_def)
next
  case False
  then show ?thesis using assms by (auto simp: Let_def)
qed

lemma reads_genuine:
  assumes g: "cluster_genuine ou C" and codec: "codec_faithful ou C"
  shows "cluster_genuine ou (worker_reads ou C)"
proof (cases "cl_links C" rule: rev_cases)
  case Nil
  then show ?thesis using g by (simp add: worker_reads_def)
next
  case (snoc init l)
  show ?thesis
  proof (cases "serving_loop (cl_worker C) \<and> ln_down l \<noteq> []")
    case True
    then obtain job rest where down: "ln_down l = job # rest" by (cases "ln_down l") auto
    let ?w = "serve_inbound (ou_read_job ou) (Some (Text (ou_show_job ou job))) (cl_worker C)"
    let ?ls = "init @ [l\<lparr>ln_down := rest\<rparr>]"
    have l: "link_genuine ou l" using g by (simp add: cluster_genuine_def snoc)
    then have job: "job \<in> given l" by (simp add: link_genuine_def down)
    have "ou_read_job ou (ou_show_job ou job) = Some job" using codec job by (simp add: codec_faithful_def snoc)
    moreover have "given_in (cl_links C) (wc_session (cl_worker C)) = given l"
      using g given_in_last [of "cl_links C"] by (simp add: cluster_genuine_def snoc)
    ultimately have "worker_genuine ou (given_in (cl_links C)) ?w"
      using g True job worker_reads_genuine [of ou "given_in (cl_links C)" "cl_worker C" job "ou_read_job ou"]
      by (simp add: cluster_genuine_def serving_loop_def)
    moreover have "given_in ?ls = given_in (cl_links C)"
      using given_in_flow [of "\<lambda>l. l\<lparr>ln_down := rest\<rparr>" "cl_links C"] by (simp add: snoc fun_eq_iff)
    moreover have "link_genuine ou (l\<lparr>ln_down := rest\<rparr>)" using l by (simp add: link_genuine_def down)
    moreover have "wc_session ?w = wc_session (cl_worker C)"
      using client_session [of "Inbound_Frame (Some (Text (ou_show_job ou job)))" "ou_read_job ou" "cl_worker C"] True
      by simp
    moreover have "worker_reads ou C = C\<lparr>cl_worker := ?w, cl_links := ?ls\<rparr>"
      using True by (simp add: worker_reads_def snoc down del: serve_inbound.simps)
    ultimately show ?thesis using g by (simp add: cluster_genuine_def snoc del: serve_inbound.simps)
  next
    case False
    then have "worker_reads ou C = C"
      unfolding worker_reads_def by (cases "ln_down l") (simp_all add: snoc)
    then show ?thesis using g by simp
  qed
qed


lemma dial_genuine:
  assumes "cluster_genuine ou C" and ok: "client_ok (cl_worker C)"
  shows "cluster_genuine ou (cluster_dial ou ok C)"
proof -
  have w: "worker_genuine ou jobs w \<Longrightarrow> worker_genuine ou jobs (dialled False w)" for jobs w
    by (simp add: dialled_def worker_genuine_def)
  have dial: "cluster_genuine ou (C\<lparr>cl_worker := dialled True (cl_worker C),
      cl_links := cl_links C @ [\<lparr>ln_server = session_start n, ln_down = [], ln_up = []\<rparr>]\<rparr>)"
    if "wc_state (cl_worker C) = Connecting" for n
  proof -
    let ?l = "\<lparr>ln_server = session_start n, ln_down = [], ln_up = []\<rparr>"
    have "worker_genuine ou (given_in (cl_links C @ [?l])) (cl_worker C)"
      using assms by (auto simp: cluster_genuine_def intro: worker_genuine_mono [OF _ given_in_snoc])
    then have "worker_genuine ou (given_in (cl_links C @ [?l])) (dialled True (cl_worker C))"
      using that ok by (simp add: dialled_def worker_genuine_def client_ok_def)
    moreover have "link_genuine ou ?l"
      by (simp add: link_genuine_def session_start_def session_reachable.start [unfolded session_start_def])
    ultimately show ?thesis using assms that by (simp add: cluster_genuine_def dialled_def)
  qed
  have "cluster_genuine ou (C\<lparr>cl_worker := dialled False (cl_worker C)\<rparr>)"
    using assms(1) w by (simp add: cluster_genuine_def dialled_def)
  then show ?thesis
    using assms(1) dial by (auto simp: cluster_dial_def run_session_start_def split: option.splits)
qed


text \<open>Nothing that was written is forgotten, so a faithful end means a faithful way to it.\<close>

definition grows :: "cluster \<Rightarrow> cluster \<Rightarrow> bool" where
  "grows C C' = (length (cl_links C) \<le> length (cl_links C') \<and>
     (\<forall>k < length (cl_links C). given (cl_links C ! k) \<subseteq> given (cl_links C' ! k) \<and>
        (\<exists>more. map ca_request (se_calls (ln_server (cl_links C' ! k))) =
           map ca_request (se_calls (ln_server (cl_links C ! k))) @ more)) \<and>
     dial_hello (cl_worker C') = dial_hello (cl_worker C) \<and> wc_slots (cl_worker C') = wc_slots (cl_worker C) \<and>
     set (wc_written (cl_worker C)) \<subseteq> set (wc_written (cl_worker C')))"

lemma grows_flow:
  assumes "\<And>l. ln_server (f l) = ln_server l" and "k < length ls"
  shows "ln_server (on_flow f ls ! k) = ln_server (ls ! k)"
  using assms by (cases ls rule: rev_cases) (auto simp: nth_append)

lemma grows_worker:
  assumes "\<And>l. ln_server (f l) = ln_server l"
  shows "grows C (C\<lparr>cl_worker := client_step reader ev (cl_worker C), cl_links := on_flow f (cl_links C)\<rparr>)"
  using client_written [of reader ev "cl_worker C"] grows_flow [OF assms] by (auto simp: grows_def)

lemma grows_server:
  assumes "ln_server l' = session_step reader ev (ln_server (cl_links C ! k))"
  shows "grows C (C\<lparr>cl_links := (cl_links C)[k := l']\<rparr>)"
proof -
  obtain new where "se_sent (ln_server l') = se_sent (ln_server (cl_links C ! k)) @ new"
    using session_sent assms by metis
  moreover obtain more where "map ca_request (se_calls (ln_server l')) =
      map ca_request (se_calls (ln_server (cl_links C ! k))) @ more"
    using session_requests assms by metis
  ultimately show ?thesis by (cases "k < length (cl_links C)") (auto simp: grows_def nth_list_update list_update_beyond)
qed

lemma grows_refl: "grows C C"
  by (simp add: grows_def)

lemma cluster_grows: "grows C (cluster_step ou ev C)"
proof (cases ev)
  case (Server k ev)
  then show ?thesis using grows_server [of "server_moves ou ev (cl_links C ! k)"]
    by (auto simp: grows_refl server_moves_def Let_def)
next
  case (Server_Reads k)
  let ?l = "cl_links C ! k"
  have "server_reads ou ?l = ?l \<or> (\<exists>t. ln_server (server_reads ou ?l) = session_step (ou_read_msg ou) (Inbound (Some (Text t))) (ln_server ?l))"
    by (auto simp: server_reads_def split: list.splits)
  then have "grows C (C\<lparr>cl_links := (cl_links C)[k := server_reads ou ?l]\<rparr>)"
    using grows_server [of "server_reads ou ?l" _ _ C k] by (elim disjE exE) (simp_all add: grows_refl del: session_step.simps)
  then show ?thesis by (simp add: Server_Reads grows_refl)
next
  case (Worker ev)
  then show ?thesis by (auto simp: worker_moves_def Let_def grows_refl intro!: grows_worker)
next
  case Worker_Reads
  then show ?thesis
    by (auto simp: worker_reads_def grows_refl simp del: client_step.simps intro!: grows_worker split: list.splits)
next
  case (Dial ok)
  have more: "grows C (C\<lparr>cl_worker := dialled d (cl_worker C), cl_links := cl_links C @ more\<rparr>)" for d more
    by (auto simp: grows_def dialled_def dial_hello_def nth_append)
  have "grows C (C\<lparr>cl_worker := dialled d (cl_worker C)\<rparr>)" for d
    using more [where more = "[]"] by simp
  with more show ?thesis
    by (auto simp: Dial cluster_dial_def grows_refl split: option.splits)
next
  case (Finishes k r)
  then show ?thesis
    by (auto simp: worker_moves_def Let_def grows_refl simp del: client_step.simps intro!: grows_worker)
qed

lemma faithful_back:
  assumes "grows C C'" and "codec_faithful ou C'"
  shows "codec_faithful ou C"
  using assms unfolding grows_def codec_faithful_def
  by (auto simp: in_set_conv_nth [of _ "cl_links C"] subset_iff) (metis nth_mem order_less_le_trans)

lemma cluster_client: "cluster_reachable ou cfg C \<Longrightarrow> client_reachable cfg (ou_read_job ou) (cl_worker C)"
proof (induction rule: cluster_reachable.induct)
  case (start b0 b1 b2)
  show ?case by (simp add: cluster_start_def client_reachable.start)
next
  case (step C ev)
  note st = client_reachable.step [OF step.IH]
  have "client_reachable cfg (ou_read_job ou) (dialled d (cl_worker C))" for d using st [of "Dialled d"] by simp
  then show ?case
    using st step.IH
    by (cases ev) (auto simp: worker_moves_def worker_reads_def cluster_dial_def Let_def simp del: client_step.simps
        split: option.splits list.splits)
qed

text \<open>Everything on an upward wire is something the worker wrote.\<close>

definition up_written :: "cluster \<Rightarrow> bool" where
  "up_written C = list_all (\<lambda>l. set (ln_up l) \<subseteq> set (wc_written (cl_worker C))) (cl_links C)"

lemma worker_moves_up: "up_written C \<Longrightarrow> up_written (worker_moves ou ev C)"
proof -
  assume up: "up_written C"
  obtain new where "wc_written (client_step (ou_read_job ou) ev (cl_worker C)) = wc_written (cl_worker C) @ new"
    using client_written by blast
  then show ?thesis
    using up by (cases "cl_links C" rule: rev_cases)
      (fastforce simp: up_written_def worker_moves_def Let_def list_all_iff)+
qed

lemma cluster_up: "cluster_reachable ou cfg C \<Longrightarrow> up_written C"
proof (induction rule: cluster_reachable.induct)
  case (start b0 b1 b2)
  show ?case by (simp add: cluster_start_def up_written_def)
next
  case (step C ev)
  note up = step.IH
  show ?case
  proof (cases ev)
    case (Server k ev')
    have "ln_up (server_moves ou ev' (cl_links C ! k)) = ln_up (cl_links C ! k)"
      by (simp add: server_moves_def Let_def)
    then show ?thesis
      using up by (auto simp: Server up_written_def list_all_length nth_list_update subset_iff split: if_splits)
  next
    case (Server_Reads k)
    have "set (ln_up (server_reads ou (cl_links C ! k))) \<subseteq> set (ln_up (cl_links C ! k))"
      by (auto simp: server_reads_def split: list.splits)
    then show ?thesis
      using up by (auto simp: Server_Reads up_written_def list_all_length nth_list_update subset_iff split: if_splits)
  next
    case (Worker ev')
    then show ?thesis using up worker_moves_up by simp
  next
    case Worker_Reads
    show ?thesis
    proof (cases "cl_links C" rule: rev_cases)
      case (snoc init l)
      let ?f = "Inbound_Frame (Some (Text (ou_show_job ou (hd (ln_down l)))))"
      obtain new where "wc_written (client_step (ou_read_job ou) ?f (cl_worker C)) = wc_written (cl_worker C) @ new"
        using client_written by blast
      then show ?thesis
        using up by (cases "ln_down l")
          (auto simp: Worker_Reads worker_reads_def snoc up_written_def list_all_iff simp del: client_step.simps)
    qed (use up in \<open>simp add: Worker_Reads worker_reads_def\<close>)
  next
    case (Dial d)
    then show ?thesis using up by (auto simp: cluster_dial_def up_written_def dialled_def split: option.splits)
  next
    case (Finishes k r)
    then show ?thesis using up worker_moves_up by (auto simp: Let_def)
  qed
qed

lemma cluster_reachable_genuine:
  assumes "cluster_reachable ou cfg C" and "codec_faithful ou C"
  shows "cluster_genuine ou C"
  using assms
proof (induction rule: cluster_reachable.induct)
  case (start b0 b1 b2)
  show ?case by (simp add: cluster_start_def cluster_genuine_def worker_genuine_def client_new_def Let_def)
next
  case (step C ev)
  have codec: "codec_faithful ou C" by (rule faithful_back [OF cluster_grows step.prems])
  note g = step.IH [OF codec]
  have ok: "client_ok (cl_worker C)" by (rule client_reachable_ok [OF cluster_client [OF step.hyps]])
  have l: "k < length (cl_links C) \<Longrightarrow> link_genuine ou (cl_links C ! k)" for k
    using g by (simp add: cluster_genuine_def list_all_length)
  have reads: "k < length (cl_links C) \<Longrightarrow> msg \<in> set (ln_up (cl_links C ! k)) \<Longrightarrow>
      ou_read_msg ou (ou_show_msg ou msg) = Some msg" for k msg
    using cluster_up [OF step.hyps] codec by (auto simp: up_written_def codec_faithful_def list_all_length subset_iff)
  show ?case
  proof (cases ev)
    case (Server k ev')
    then show ?thesis
      using g l server_moves_genuine [of ou "cl_links C ! k" ev'] by (auto intro!: server_side_genuine)
  next
    case (Server_Reads k)
    then show ?thesis
      using g l server_reads_genuine [of ou "cl_links C ! k"] reads by (auto intro!: server_side_genuine)
  next
    case (Worker ev')
    then show ?thesis using g worker_moves_genuine by simp
  next
    case Worker_Reads
    then show ?thesis using reads_genuine [OF g codec] by simp
  next
    case (Dial d)
    then show ?thesis using dial_genuine [OF g ok] by simp
  next
    case (Finishes k r)
    then show ?thesis using finishes_genuine [OF g] by blast
  qed
qed


lemma given_calls:
  assumes "session_reachable reader s"
  shows "set (se_sent s) \<subseteq> ca_request ` set (se_calls s)"
proof -
  have "mset (se_sent s) \<subseteq># image_mset ca_request (mset (filter ca_queued (se_calls s)))"
    using dispatch.reachable [OF assms] unfolding dispatch_ok_def
    by (metis add.assoc mset_subset_eq_add_left)
  then have "set_mset (mset (se_sent s)) \<subseteq> set_mset (image_mset ca_request (mset (filter ca_queued (se_calls s))))"
    by (rule set_mset_mono)
  then show ?thesis by auto
qed

lemma genuine_call:
  assumes "genuine ou (ca_request ` set xs) (rq_job_id q) oc"
    and "\<And>x. x \<in> set xs \<Longrightarrow> rq_job_id (ca_request x) = rq_job_id q \<Longrightarrow>
      rq_sgf (ca_request x) = rq_sgf q \<and> rq_human_profile (ca_request x) = rq_human_profile q"
  shows "\<exists>r. ou_may ou (rq_sgf q) (rq_human_profile q) r \<and> oc = ran ou q r"
  using assms unfolding genuine_def ran_def by fastforce

lemma ran_eq:
  "ran ou q r = Outcome_Ok v \<longleftrightarrow> (\<exists>a. r = Inr a \<and> ou_to_value ou a = Inr v)"
  "ran ou q r = Outcome_Err m \<longleftrightarrow>
     (\<exists>err. r = Inl err \<and> m = error_text err) \<or>
     (\<exists>a e. r = Inr a \<and> ou_to_value ou a = Inl e \<and> m = ''serialize analysis: '' @ e)"
  by (auto simp: ran_def run_job_def split: sum.splits)

text \<open>What a returned call rests on.\<close>

lemma call_facts:
  assumes "cluster_reachable ou cfg C" and "codec_faithful ou C" and "k < length (cl_links C)"
    and "s = ln_server (cl_links C ! k)" and "x \<in> set (se_calls s)" and "ca_phase x = Returned res"
    and "\<And>y. y \<in> set (se_calls s) \<Longrightarrow> job_of y = job_of x \<Longrightarrow>
      rq_sgf (ca_request y) = rq_sgf (ca_request x) \<and>
      rq_human_profile (ca_request y) = rq_human_profile (ca_request x)"
  shows "case res of
      Inr v \<Rightarrow> \<exists>a. ou_may ou (rq_sgf (ca_request x)) (rq_human_profile (ca_request x)) (Inr a) \<and>
        ou_to_value ou a = Inr v
    | Inl (Inference m) \<Rightarrow> \<exists>r. ou_may ou (rq_sgf (ca_request x)) (rq_human_profile (ca_request x)) r \<and>
        (case r of Inl err \<Rightarrow> m = error_text err
         | Inr a \<Rightarrow> \<exists>e. ou_to_value ou a = Inl e \<and> m = ''serialize analysis: '' @ e)
    | Inl (Queue m) \<Rightarrow> m \<in> {''worker socket closed before dispatch'', ''worker disconnected before result''}
    | _ \<Rightarrow> False"
proof -
  have link: "link_genuine ou (cl_links C ! k)"
    using cluster_reachable_genuine [OF assms(1,2)] assms(3) by (simp add: cluster_genuine_def list_all_length)
  then have r: "session_reachable (ou_read_msg ou) s" by (simp add: link_genuine_def assms(4))
  have answer: "\<exists>r. ou_may ou (rq_sgf (ca_request x)) (rq_human_profile (ca_request x)) r \<and> oc = ran ou (ca_request x) r"
    if "(job_of x, oc) \<in> set (se_results s)" for oc
  proof (rule genuine_call [of ou "se_calls s"])
    show "genuine ou (ca_request ` set (se_calls s)) (job_of x) oc"
      using link that given_calls [OF r] by (auto simp: link_genuine_def assms(4) list_all_iff intro: genuine_mono)
  qed (rule assms(7))
  obtain c where c: "c < length (se_calls s)" "x = call_of s c"
    using assms(5) by (auto simp: in_set_conv_nth)
  have "case res of Inr v \<Rightarrow> (job_of x, Outcome_Ok v) \<in> set (se_results s)
    | Inl (Inference m) \<Rightarrow> (job_of x, Outcome_Err m) \<in> set (se_results s)
    | Inl (Queue m) \<Rightarrow> m = ''worker socket closed before dispatch'' \<or> m = ''worker disconnected before result''
    | _ \<Rightarrow> False"
    using reply_sources [OF r c(1), of res] assms(6) unfolding c(2) by blast
  then show ?thesis
    using answer [of "Outcome_Ok _"] answer [of "Outcome_Err _"]
    by (fastforce simp: ran_eq eq_commute [of "Outcome_Ok _"] eq_commute [of "Outcome_Err _"] split: sum.splits app_error.splits)
qed

text \<open>C3. From the caller's game to its answer, over the wire and through any number of reconnections: the
  value a remote call returns is the encoding of an analysis the worker's engine gave for that very
  game and profile; an inference error carries the engine's own error, or the one of its encoding; and
  whatever else went wrong is reported as a lost connection.  The calls that share a job's id are for
  the same game, as a job's deliveries are.\<close>

theorem cluster_results_genuine:
  assumes "cluster_reachable ou cfg C" and "codec_faithful ou C" and "k < length (cl_links C)"
    and "s = ln_server (cl_links C ! k)" and "x \<in> set (se_calls s)" and "ca_phase x = Returned res"
    and "\<And>y. y \<in> set (se_calls s) \<Longrightarrow> job_of y = job_of x \<Longrightarrow>
      rq_sgf (ca_request y) = rq_sgf (ca_request x) \<and>
      rq_human_profile (ca_request y) = rq_human_profile (ca_request x)"
  shows "case res of
      Inr v \<Rightarrow> \<exists>a. ou_may ou (rq_sgf (ca_request x)) (rq_human_profile (ca_request x)) (Inr a) \<and>
        ou_to_value ou a = Inr v
    | Inl (Inference m) \<Rightarrow> \<exists>r. ou_may ou (rq_sgf (ca_request x)) (rq_human_profile (ca_request x)) r \<and>
        (case r of Inl err \<Rightarrow> m = error_text err
         | Inr a \<Rightarrow> \<exists>e. ou_to_value ou a = Inl e \<and> m = ''serialize analysis: '' @ e)
    | Inl (Queue m) \<Rightarrow> m \<in> {''worker socket closed before dispatch'', ''worker disconnected before result''}
    | _ \<Rightarrow> False"
  by (rule call_facts [OF assms])

section \<open>A run\<close>

text \<open>A worker of one slot analyses one game, and its orchestrator has sent it the next; the engine's
  only answer for the game is an error, and its frames are the letters below.\<close>

definition sample_outside :: outside where
  "sample_outside = \<lparr>ou_to_value = (\<lambda>a. Inr J_Null),
     ou_may = (\<lambda>sgf profile r. sgf = ''(;SZ[9])'' \<and> profile = None \<and> r = Inl (Sgf ''bad'')),
     ou_show_job = (\<lambda>job. if rq_job_id job = 7 then ''a'' else ''b''),
     ou_read_job = (\<lambda>t. if t = ''a'' then Some (sample_request 7) else if t = ''b'' then Some (sample_request 8) else None),
     ou_show_msg = (\<lambda>msg. case msg of Hello n name \<Rightarrow> ''h'' | Result j oc \<Rightarrow> ''r''),
     ou_read_msg = (\<lambda>t. if t = ''h'' then Some (Hello 1 ''eager-gecko-07'')
       else if t = ''r'' then Some (Result 7 (Outcome_Err (error_text (Sgf ''bad'')))) else None)\<rparr>"

definition sample_cluster :: cluster where
  "sample_cluster = fold (cluster_step sample_outside)
     [Dial False, Worker Slept, Dial True, Server 0 (Begin (sample_request 7)), Server 0 (Send 0),
      Server 0 (Outbound Frame_Sent), Worker_Reads, Finishes 0 (Inl (Sgf ''bad'')),
      Worker (Outbound_Frame Frame_Sent), Server_Reads 0, Server 0 (Await 0),
      Server 0 (Begin (sample_request 8)), Server 0 (Send 1), Server 0 (Outbound Frame_Sent), Worker_Reads]
     (cluster_start idle_sample)"

lemma cluster_run: "cluster_reachable ou cfg C \<Longrightarrow> cluster_reachable ou cfg (fold (cluster_step ou) evs C)"
  by (induction evs arbitrary: C) (auto intro: cluster_reachable.step)

lemma sample_cluster_reachable: "cluster_reachable sample_outside sample_worker sample_cluster"
  unfolding sample_cluster_def sample_new [symmetric] by (rule cluster_run [OF cluster_reachable.start])

lemma sample_cluster_codec: "codec_faithful sample_outside sample_cluster"
  by code_simp

lemma sample_cluster_facts:
  "length (cl_links sample_cluster) = 1" "cl_links sample_cluster \<noteq> []" "wc_state (cl_worker sample_cluster) = Serving"
  "se_calls (ln_server (cl_links sample_cluster ! 0)) =
     [\<lparr>ca_request = sample_request 7, ca_slot = Filled (Inl (error_text (Sgf ''bad''))),
       ca_phase = Returned (Inl (Inference (error_text (Sgf ''bad'')))), ca_queued = True\<rparr>,
      \<lparr>ca_request = sample_request 8, ca_slot = Waiting, ca_phase = Awaiting, ca_queued = True\<rparr>]"
  "distinct (map job_of (se_calls (ln_server (in_flow sample_cluster))))"
  "length (wc_running (cl_worker sample_cluster)) = 1" "wc_permits (cl_worker sample_cluster) = 0"
  by code_simp+

theorem cluster_results_genuine_witness:
  "\<exists>r. ou_may sample_outside ''(;SZ[9])'' None r \<and>
     (case r of Inl err \<Rightarrow> ''invalid SGF: bad'' = error_text err
      | Inr a \<Rightarrow> \<exists>e. ou_to_value sample_outside a = Inl e \<and> ''invalid SGF: bad'' = ''serialize analysis: '' @ e)"
proof -
  let ?s = "ln_server (cl_links sample_cluster ! 0)"
  let ?x = "se_calls ?s ! 0"
  have x: "ca_phase ?x = Returned (Inl (Inference (error_text (Sgf ''bad''))))" "?x \<in> set (se_calls ?s)"
    "0 < length (cl_links sample_cluster)" "rq_sgf (ca_request ?x) = ''(;SZ[9])''" "rq_human_profile (ca_request ?x) = None"
    by (simp_all add: sample_cluster_facts(1,4) sample_request_def)
  have same: "rq_sgf (ca_request y) = rq_sgf (ca_request ?x) \<and> rq_human_profile (ca_request y) = rq_human_profile (ca_request ?x)"
    if "y \<in> set (se_calls ?s)" for y
    using that by (auto simp: sample_cluster_facts(4) sample_request_def)
  show ?thesis
    using cluster_results_genuine [OF sample_cluster_reachable sample_cluster_codec x(3) refl x(2,1) same] by (simp add: x(4,5))
qed

end
