(* ===== verification/Cluster_Flow.thy ===== *)
theory Cluster_Flow
  imports Cluster
begin

text \<open>
  Flow control between a worker and its orchestrator (\<open>src/src/cluster/server.rs\<close>,
  \<open>src/src/cluster/client.rs\<close>): the jobs on the wires and at the worker are calls of the session that
  still wait, so the slots the session grants bound them, and the worker's own channel never fills.
  The invariant is kept by each step of \<^bold>\<open>Cluster\<close>, the server's and the worker's.
\<close>

section \<open>What is under way\<close>

text \<open>The calls of a session that are queued and still wait for their answer.\<close>

definition due :: "session \<Rightarrow> uuid multiset" where
  "due s = image_mset job_of (mset (filter (\<lambda>x. ca_queued x \<and> waits x) (se_calls s)))"

text \<open>While the session is served, a call not yet sent waits with an open reply channel.\<close>

definition unsent_waits :: "call \<Rightarrow> bool" where
  "unsent_waits x = ((ca_phase x = Sending \<longrightarrow> ca_slot x = Waiting) \<and> ca_phase x \<noteq> Undeliverable)"

text \<open>\<open>D\<close> are the jobs that are on a wire or at the worker: each is due, so there are no more of them
  than slots; once the session ends there are only fewer.\<close>

definition flow_ok :: "session \<Rightarrow> uuid multiset \<Rightarrow> bool" where
  "flow_ok s D = (size D \<le> se_slots s \<and>
     (se_phase s = Open \<longrightarrow>
        D + image_mset rq_job_id (mset (se_out s)) \<subseteq># due s \<and> list_all unsent_waits (se_calls s)))"

lemma due_bound:
  assumes "session_reachable reader s"
  shows "size (due s) \<le> se_slots s"
proof -
  have "length (filter (\<lambda>x. ca_queued x \<and> waits x) (se_calls s)) \<le> length (filter call_open (se_calls s))"
    by (auto simp: waits_def length_filter_conv_card intro!: card_mono)
  moreover have "size (due s) = length (filter (\<lambda>x. ca_queued x \<and> waits x) (se_calls s))"
    unfolding due_def by (simp del: mset_filter)
  ultimately show ?thesis using dispatch.reachable [OF assms] by (simp add: dispatch_ok_def)
qed

lemma flow_mono: "flow_ok s D \<Longrightarrow> D' \<subseteq># D \<Longrightarrow> flow_ok s D'"
  unfolding flow_ok_def using size_mset_mono [of D' D]
  by (auto intro: subset_mset.trans [OF subset_mset.add_right_mono])

lemma flow_left:
  assumes "flow_ok s D" and "se_slots s' = se_slots s" and "se_phase s' \<noteq> Open"
  shows "flow_ok s' D"
  using assms by (simp add: flow_ok_def)

text \<open>The server's steps keep the flow: what it writes is added to the jobs under way.\<close>

lemma job_ids: "map job_of xs = map rq_job_id (map ca_request xs)"
  by simp

lemma due_update:
  assumes "c < length (se_calls s)" and "ca_request y = ca_request (call_of s c)"
    and "(ca_queued y \<and> waits y) = (ca_queued (call_of s c) \<and> waits (call_of s c))"
  shows "image_mset job_of (mset (filter (\<lambda>x. ca_queued x \<and> waits x) ((se_calls s)[c := y]))) = due s"
  using arg_cong [OF mset_filter_update [OF assms(1), of "\<lambda>x. ca_queued x \<and> waits x" y], of "image_mset job_of"] assms(2,3)
  by (auto simp: due_def split: if_splits)

lemma fresh_not_pending:
  assumes "waiters_ok s" and "j \<notin> job_of ` set (se_calls s)"
  shows "take_waiter j v s = s"
proof -
  have "map_of (se_pending s) j = None"
    using assms pending_call [of s j] by (cases "map_of (se_pending s) j") (auto simp: image_iff)
  then show ?thesis by (simp add: take_waiter_def)
qed

lemma flow_begin:
  assumes "flow_ok s D" and "waiters_ok s" and "distinct (map job_of (se_calls (analyze_begin req s)))"
  shows "flow_ok (analyze_begin req s) D"
proof (cases "length (filter call_open (se_calls s)) < se_slots s")
  case True
  have m: "map job_of (se_calls (take_waiter j v s)) = map job_of (se_calls s)" for j v
    using take_requests by (simp only: job_ids)
  have "rq_job_id req \<notin> job_of ` set (se_calls s)"
    using assms(3) True arg_cong [OF m [of "rq_job_id req" Sender_Dropped], of set]
    by (auto simp: analyze_begin_def add_call_def m)
  then have "analyze_begin req s = add_call req s"
    using True fresh_not_pending [OF assms(2)] by (simp add: analyze_begin_def)
  then show ?thesis
    using assms(1) by (simp add: flow_ok_def add_call_def due_def unsent_waits_def)
qed (use assms(1) in \<open>simp add: analyze_begin_def\<close>)

lemma flow_send:
  assumes "flow_ok s D" and "dispatch_ok s"
  shows "flow_ok (analyze_send c s) D"
proof (cases "c < length (se_calls s) \<and> ca_phase (call_of s c) = Sending \<and> se_phase s = Open \<and> length (se_out s) < se_slots s")
  case True
  let ?x = "call_of s c"
  let ?y = "?x\<lparr>ca_phase := Awaiting, ca_queued := True\<rparr>"
  have u: "list_all unsent_waits (se_calls s)" using assms(1) True by (simp add: flow_ok_def)
  then have "ca_slot ?x = Waiting" using True by (auto simp: list_all_length unsent_waits_def)
  moreover have "\<not> ca_queued ?x" using assms(2) True by (auto simp: dispatch_ok_def list_all_length)
  ultimately have "image_mset job_of (mset (filter (\<lambda>x. ca_queued x \<and> waits x) ((se_calls s)[c := ?y]))) = due s + {# job_of ?x #}"
    using mset_filter_update [of c "se_calls s" "\<lambda>x. ca_queued x \<and> waits x" ?y] True
    by (simp add: due_def waits_def call_open_def)
  then show ?thesis
    using assms(1) True list_all_update [OF u, of ?y c]
    by (simp add: analyze_send_def flow_ok_def upd_call_def due_def unsent_waits_def)
next
  case False
  then have "analyze_send c s = s \<or> se_phase (analyze_send c s) \<noteq> Open" by (auto simp: analyze_send_def)
  moreover have "se_slots (analyze_send c s) = se_slots s" by (simp add: analyze_send_def)
  ultimately show ?thesis using assms(1) by (metis flow_left)
qed

lemma flow_undeliverable: "flow_ok s D \<Longrightarrow> flow_ok (analyze_undeliverable c s) D"
  by (cases "se_phase s = Open")
    (auto simp: analyze_undeliverable_def flow_ok_def unsent_waits_def list_all_length)

lemma flow_await:
  assumes "flow_ok s D"
  shows "flow_ok (analyze_await c s) D"
proof (cases "c < length (se_calls s) \<and> ca_phase (call_of s c) = Awaiting \<and> slot_answer (ca_slot (call_of s c)) \<noteq> None")
  case True
  then obtain r where r: "slot_answer (ca_slot (call_of s c)) = Some r" by auto
  let ?y = "(call_of s c)\<lparr>ca_phase := Returned r\<rparr>"
  have "ca_slot (call_of s c) \<noteq> Waiting" using r by auto
  then show ?thesis
    using assms True r due_update [of c s ?y] list_all_update [of unsent_waits "se_calls s" ?y c]
    by (simp add: analyze_await_def flow_ok_def upd_call_def due_def waits_def unsent_waits_def)
next
  case False
  then have "analyze_await c s = s" by (auto simp: analyze_await_def)
  then show ?thesis using assms by simp
qed

lemma flow_outbound:
  assumes "flow_ok s D" and "se_phase s = Open" and "size (due s) \<le> se_slots s"
    and "se_sent (io_outbound fs s) = se_sent s @ new"
  shows "flow_ok (io_outbound fs s) (D + image_mset rq_job_id (mset new))"
proof (cases "se_out s")
  case Nil
  then show ?thesis using assms by (simp add: io_outbound_def)
next
  case (Cons req rest)
  have "D + {# rq_job_id req #} \<subseteq># due s"
    using assms(1,2) Cons by (auto simp: flow_ok_def intro: subset_mset.trans [rotated])
  then have "size (D + {# rq_job_id req #}) \<le> se_slots s" using assms(3) size_mset_mono le_trans by blast
  moreover have "D + image_mset rq_job_id (mset rest) \<subseteq># due s"
    using assms(1,2) Cons by (auto simp: flow_ok_def intro: subset_mset.trans [rotated])
  ultimately show ?thesis
    using assms Cons by (cases fs) (auto simp: io_outbound_def flow_ok_def due_def)
qed


lemma waiting_calls:
  assumes "waiters_ok s" and "distinct (map job_of (se_calls s))" and "j \<in># due s"
  shows "\<exists>c < length (se_calls s). map_of (se_pending s) j = Some c \<and> ca_queued (call_of s c) \<and>
    waits (call_of s c) \<and> job_of (call_of s c) = j"
proof -
  obtain x where "x \<in> set (se_calls s)" "ca_queued x" "waits x" "job_of x = j"
    using assms(3) by (auto simp: due_def)
  then obtain c where c: "c < length (se_calls s)" "ca_queued (call_of s c)" "waits (call_of s c)" "job_of (call_of s c) = j"
    by (auto simp: in_set_conv_nth)
  then have "(j, c) \<in> set (se_pending s)" using assms(1) by (auto simp: waiters_ok_def)
  then have "map_of (se_pending s) j = Some c" using assms(1) by (simp add: waiters_ok_def)
  then show ?thesis using c by blast
qed

lemma flow_answer:
  assumes flow: "flow_ok s (D + {#j#})" and "se_phase s = Open" and "waiters_ok s" and "dispatch_ok s"
    and "distinct (map job_of (se_calls s))"
  shows "flow_ok (complete_job j oc (s\<lparr>se_results := rs\<rparr>)) D"
proof -
  have sub: "D + image_mset rq_job_id (mset (se_out s)) + {#j#} \<subseteq># due s"
    using flow assms(2) by (simp add: flow_ok_def ac_simps)
  then have "j \<in># due s" by (rule mset_subset_eqD) simp
  then obtain c where c: "c < length (se_calls s)" "map_of (se_pending s) j = Some c" "ca_queued (call_of s c)"
      "waits (call_of s c)" "job_of (call_of s c) = j"
    using waiting_calls [OF assms(3,5)] by blast
  let ?y = "(call_of s c)\<lparr>ca_slot := Filled (outcome_result oc)\<rparr>"
  have calls: "se_calls (complete_job j oc (s\<lparr>se_results := rs\<rparr>)) = (se_calls s)[c := ?y]"
    by (simp add: complete_job_def take_waiter_def c(2) upd_call_def)
  have "due s = image_mset job_of (mset (filter (\<lambda>x. ca_queued x \<and> waits x) ((se_calls s)[c := ?y]))) + {#j#}"
    using arg_cong [OF mset_filter_update [OF c(1), of "\<lambda>x. ca_queued x \<and> waits x" ?y], of "image_mset job_of"] c(3-5)
    by (simp add: due_def del: mset_filter)
  then have "D + image_mset rq_job_id (mset (se_out s)) \<subseteq># due (complete_job j oc (s\<lparr>se_results := rs\<rparr>))"
    using sub by (simp add: due_def calls)
  moreover have "ca_phase (call_of s c) \<noteq> Sending"
    using assms(4) c(1,3) by (auto simp: dispatch_ok_def list_all_length)
  then have "list_all unsent_waits ((se_calls s)[c := ?y])"
    using flow assms(2) c(1) by (intro list_all_update) (auto simp: flow_ok_def unsent_waits_def list_all_length)
  ultimately show ?thesis
    using flow by (simp add: flow_ok_def calls) (simp add: complete_job_def)
qed

lemma flow_server:
  assumes flow: "flow_ok s D" and reach: "session_reachable reader s" and "\<not> carries_text ev"
    and distinct: "distinct (map job_of (se_calls (session_step reader ev s)))"
  shows "flow_ok (session_step reader ev s)
    (D + image_mset rq_job_id (mset (drop (length (se_sent s)) (se_sent (session_step reader ev s)))))"
proof (cases ev)
  case (Begin req)
  then show ?thesis
    using flow_begin [OF flow] dispatch.reachable [OF reach] distinct by (simp add: analyze_facts)
next
  case (Send c)
  then show ?thesis using flow_send [OF flow] dispatch.reachable [OF reach] by (simp add: analyze_facts)
next
  case (Undeliver c)
  then show ?thesis using flow_undeliverable [OF flow] by (simp add: analyze_facts)
next
  case (Await c)
  then show ?thesis using flow_await [OF flow] by (simp add: analyze_facts)
next
  case (Outbound fs)
  obtain new where "se_sent (io_outbound fs s) = se_sent s @ new" using outbound_facts(1) by blast
  then show ?thesis
    using flow_outbound [OF flow _ due_bound [OF reach], of fs new] flow by (simp add: Outbound)
next
  case (Inbound frame)
  then have "io_inbound reader frame s = s \<or> io_inbound reader frame s = s\<lparr>se_phase := Leaving\<rparr>"
    using assms(3) by (cases "(reader, frame, s)" rule: io_inbound.cases) auto
  then show ?thesis using flow flow_left [OF flow, of "s\<lparr>se_phase := Leaving\<rparr>"] by (auto simp: Inbound)
next
  case Cancelled
  then show ?thesis using flow flow_left [OF flow, of "s\<lparr>se_phase := Leaving\<rparr>"] by simp
next
  case Clear
  then show ?thesis
    using flow flow_left [OF flow, of "clear_pending s"] by (simp add: clear_pending_def drop_fold)
next
  case Close
  then show ?thesis
    using flow flow_left [OF flow, of "close_session s"] by (simp add: close_session_def)
qed

text \<open>The jobs of the current session the worker has and has not answered.\<close>

fun result_id :: "client_msg \<Rightarrow> uuid" where
  "result_id (Result j oc) = j"
| "result_id (Hello n name) = 0"

definition held :: "worker_client \<Rightarrow> uuid multiset" where
  "held w = image_mset (\<lambda>(n, job). rq_job_id job) (mset (filter (\<lambda>(n, job). n = wc_session w) (wc_running w))) +
     (case wc_parked w of None \<Rightarrow> {#} | Some job \<Rightarrow> {# rq_job_id job #}) + image_mset result_id (mset (wc_out w))"

lemma held_start:
  "wc_parked w = Some job \<Longrightarrow> held (start_job job w) = held w"
  by (simp add: held_def start_job_def)

lemma held_leave: "held (leave_session st w) \<subseteq># held w"
  by (simp add: held_def leave_session_def)

lemma held_outbound:
  "held (serve_outbound fs w) +
     image_mset result_id (mset (drop (length (wc_written w)) (wc_written (serve_outbound fs w)))) \<subseteq># held w"
  by (cases "wc_out w"; cases fs) (simp_all add: serve_outbound_def held_def leave_session_def Let_def)

lemma held_finish: "held (finish_job k (ran ou (snd (wc_running w ! k)) r) w) \<subseteq># held w"
proof (cases "k < length (wc_running w)")
  case True
  obtain n job where k: "wc_running w ! k = (n, job)" by fastforce
  define rest where "rest = take k (wc_running w) @ drop (Suc k) (wc_running w)"
  have "mset (wc_running w) = mset rest + {# (n, job) #}"
    using arg_cong [OF id_take_nth_drop [OF True], of mset] by (simp add: k rest_def)
  then have run: "mset (filter (\<lambda>(n, job). n = wc_session w) (wc_running w)) =
      mset (filter (\<lambda>(n, job). n = wc_session w) rest) + (if n = wc_session w then {# (n, job) #} else {#})"
    by simp
  have "finish_job k oc w = w \<or>
      wc_running (finish_job k oc w) = rest \<and> wc_parked (finish_job k oc w) = wc_parked w \<and>
      wc_session (finish_job k oc w) = wc_session w \<and>
      wc_out (finish_job k oc w) = wc_out w @ (if n = wc_session w \<and> wc_state w = Serving then [Result (rq_job_id job) oc] else [])" for oc
    using True by (auto simp: finish_job_def k rest_def Let_def)
  from this [of "ran ou (snd (wc_running w ! k)) r"] show ?thesis
    by (elim disjE) (auto simp: held_def run simp del: mset_filter)
qed (simp add: finish_job_def)

lemma held_own:
  assumes "own_event ev"
  shows "held (client_step reader ev w) +
    image_mset result_id (mset (drop (length (wc_written w)) (wc_written (client_step reader ev w)))) \<subseteq># held w"
proof (cases ev)
  case (Inbound_Frame frame)
  then show ?thesis
    using assms held_leave [of _ w] by (cases ev rule: own_event.cases) (auto simp: leave_session_def)
next
  case (Outbound_Frame fs)
  then show ?thesis using held_outbound [of fs w] by simp
next
  case Observe
  then show ?thesis using held_leave [of Stopped w] by (auto simp: observe_cancel_def leave_session_def)
next
  case Permit_Freed
  then show ?thesis
    using held_start [of w] by (auto simp: permit_freed_def start_job_def split: option.splits)
qed (use assms in \<open>auto simp: slept_def held_def\<close>)

lemma held_reads:
  assumes "serving_loop w" and "reader t = Some job"
  shows "held (serve_inbound reader (Some (Text t)) w) = held w + {# rq_job_id job #}"
  using assms by (simp add: serving_loop_def dispatch_def start_job_def held_def)

lemma held_size:
  assumes "client_ok w" and "wc_state w = Serving"
  shows "wc_got w = wc_done w + size (held w)"
proof -
  have "size (held w) = here w + (if wc_parked w = None then 0 else 1) + length (wc_out w)"
    unfolding held_def here_def by (auto simp del: mset_filter split: option.splits)
  then show ?thesis using assms by (simp add: client_ok_def)
qed


definition under_way :: "link \<Rightarrow> worker_client \<Rightarrow> uuid multiset" where
  "under_way l w = image_mset rq_job_id (mset (ln_down l)) + held w + image_mset result_id (mset (ln_up l))"

definition link_flow :: "link \<Rightarrow> worker_client \<Rightarrow> bool" where
  "link_flow l w = (se_slots (ln_server l) \<le> wc_slots w \<and>
     (distinct (map job_of (se_calls (ln_server l))) \<longrightarrow> flow_ok (ln_server l) (under_way l w)))"

definition cluster_flow :: "cluster \<Rightarrow> bool" where
  "cluster_flow C = (cl_links C = [] \<or> link_flow (in_flow C) (cl_worker C))"

lemma link_flow_mono:
  assumes "link_flow l w" and "ln_server l' = ln_server l" and "wc_slots w' = wc_slots w"
    and "under_way l' w' \<subseteq># under_way l w"
  shows "link_flow l' w'"
  using assms flow_mono [of "ln_server l" "under_way l w" "under_way l' w'"] by (simp add: link_flow_def)

lemma session_slots: "se_slots (session_step reader ev s) = se_slots s"
proof (cases ev)
  case (Outbound fs)
  then show ?thesis by (cases fs) (simp_all add: io_outbound_def split: list.splits)
next
  case (Inbound frame)
  then show ?thesis
    by (cases "(reader, frame, s)" rule: io_inbound.cases)
      (simp_all add: complete_job_def split: option.splits client_msg.splits)
qed (simp_all add: analyze_begin_def add_call_def analyze_send_def analyze_undeliverable_def analyze_await_def
    clear_pending_def close_session_def drop_fold split: option.splits)

lemma distinct_before:
  assumes "distinct (map job_of (se_calls (session_step reader ev s)))"
  shows "distinct (map job_of (se_calls s))"
proof -
  obtain more where "map ca_request (se_calls (session_step reader ev s)) = map ca_request (se_calls s) @ more"
    using session_requests by blast
  then show ?thesis using assms by (simp only: job_ids) simp
qed

lemma server_moves_flow:
  assumes "link_flow l w" and "session_reachable (ou_read_msg ou) (ln_server l)" and "\<not> carries_text ev"
  shows "link_flow (server_moves ou ev l) w"
proof -
  let ?s = "session_step (ou_read_msg ou) ev (ln_server l)"
  have "flow_ok ?s (under_way l w + image_mset rq_job_id (mset (drop (length (se_sent (ln_server l))) (se_sent ?s))))"
    if "distinct (map job_of (se_calls ?s))"
    using assms distinct_before [OF that] flow_server [OF _ assms(2,3) that] by (simp add: link_flow_def)
  then show ?thesis
    using assms(1) by (simp add: link_flow_def server_moves_def Let_def session_slots under_way_def ac_simps)
qed

lemma server_reads_flow:
  assumes flow: "link_flow l w" and reach: "session_reachable (ou_read_msg ou) (ln_server l)"
    and codec: "\<And>msg. msg \<in> set (ln_up l) \<Longrightarrow> ou_read_msg ou (ou_show_msg ou msg) = Some msg"
  shows "link_flow (server_reads ou l) w"
proof (cases "ln_up l = [] \<or> se_phase (ln_server l) \<noteq> Open")
  case True
  then have "server_reads ou l = l" by (auto simp: server_reads_def split: list.splits)
  then show ?thesis using flow by simp
next
  case False
  then obtain msg rest where up: "ln_up l = msg # rest" by (cases "ln_up l") auto
  let ?s = "session_step (ou_read_msg ou) (Inbound (Some (Text (ou_show_msg ou msg)))) (ln_server l)"
  have reads: "server_reads ou l = l\<lparr>ln_server := ?s, ln_up := rest\<rparr>"
    using False by (simp add: server_reads_def up)
  have "flow_ok ?s (under_way (l\<lparr>ln_server := ?s, ln_up := rest\<rparr>) w)" if d: "distinct (map job_of (se_calls ?s))"
  proof -
    have d': "distinct (map job_of (se_calls (ln_server l)))" by (rule distinct_before [OF d])
    then have "flow_ok (ln_server l) (under_way (l\<lparr>ln_up := rest\<rparr>) w + {# result_id msg #})"
      using flow by (simp add: link_flow_def under_way_def up)
    moreover have "under_way (l\<lparr>ln_server := ?s, ln_up := rest\<rparr>) w = under_way (l\<lparr>ln_up := rest\<rparr>) w"
      by (simp add: under_way_def)
    ultimately show ?thesis
      using flow_answer [OF _ _ _ _ d'] dispatch.reachable [OF reach] codec [of msg] False up
        flow_mono [of "ln_server l" "under_way (l\<lparr>ln_up := rest\<rparr>) w + {# result_id msg #}" "under_way (l\<lparr>ln_up := rest\<rparr>) w"]
      by (cases msg) simp_all
  qed
  then show ?thesis using flow by (simp add: reads link_flow_def session_slots del: session_step.simps)
qed

lemma worker_moves_flow:
  assumes "cluster_flow C"
    and "held (client_step (ou_read_job ou) ev (cl_worker C)) + image_mset result_id
      (mset (drop (length (wc_written (cl_worker C))) (wc_written (client_step (ou_read_job ou) ev (cl_worker C)))))
      \<subseteq># held (cl_worker C)"
  shows "cluster_flow (worker_moves ou ev C)"
proof (cases "cl_links C" rule: rev_cases)
  case Nil
  then show ?thesis by (simp add: cluster_flow_def worker_moves_def Let_def)
next
  case (snoc init l)
  let ?w = "client_step (ou_read_job ou) ev (cl_worker C)"
  have "wc_slots ?w = wc_slots (cl_worker C)" using client_written by blast
  moreover have "under_way (l\<lparr>ln_up := ln_up l @ drop (length (wc_written (cl_worker C))) (wc_written ?w)\<rparr>) ?w
      \<subseteq># under_way l (cl_worker C)"
    using subset_mset.add_left_mono [OF assms(2),
        of "image_mset rq_job_id (mset (ln_down l)) + image_mset result_id (mset (ln_up l))"]
    by (simp add: under_way_def ac_simps)
  ultimately show ?thesis
    using assms(1) link_flow_mono [of l "cl_worker C"] by (simp add: cluster_flow_def worker_moves_def Let_def snoc)
qed

lemma reads_flow:
  assumes flow: "cluster_flow C"
    and codec: "\<And>job. cl_links C \<noteq> [] \<Longrightarrow> job \<in> set (ln_down (in_flow C)) \<Longrightarrow> ou_read_job ou (ou_show_job ou job) = Some job"
  shows "cluster_flow (worker_reads ou C)"
proof (cases "cl_links C \<noteq> [] \<and> serving_loop (cl_worker C) \<and> ln_down (in_flow C) \<noteq> []")
  case True
  then obtain init l job rest where l: "cl_links C = init @ [l]" "ln_down l = job # rest"
    by (cases "cl_links C" rule: rev_cases; cases "ln_down (in_flow C)") auto
  let ?f = "Inbound_Frame (Some (Text (ou_show_job ou job)))"
  let ?w = "client_step (ou_read_job ou) ?f (cl_worker C)"
  have "wc_slots ?w = wc_slots (cl_worker C)" using client_written by blast
  moreover have "held ?w = held (cl_worker C) + {# rq_job_id job #}"
    using True codec [of job] l held_reads [of "cl_worker C" "ou_read_job ou"] by (simp del: serve_inbound.simps)
  then have "under_way (l\<lparr>ln_down := rest\<rparr>) ?w = under_way l (cl_worker C)"
    by (simp add: under_way_def l del: client_step.simps)
  moreover have "worker_reads ou C = C\<lparr>cl_worker := ?w, cl_links := init @ [l\<lparr>ln_down := rest\<rparr>]\<rparr>"
    using True by (simp add: worker_reads_def l del: client_step.simps)
  ultimately show ?thesis
    using flow link_flow_mono [of l "cl_worker C" "l\<lparr>ln_down := rest\<rparr>" ?w]
    by (simp add: cluster_flow_def l del: client_step.simps)
next
  case False
  then have "worker_reads ou C = C" unfolding worker_reads_def by (cases "ln_down (in_flow C)") auto
  then show ?thesis using flow by simp
qed

lemma dial_flow:
  assumes flow: "cluster_flow C" and ok: "client_ok (cl_worker C)"
    and hello: "ou_read_msg ou (ou_show_msg ou (dial_hello (cl_worker C))) = Some (dial_hello (cl_worker C))"
  shows "cluster_flow (cluster_dial ou d C)"
proof (cases "wc_state (cl_worker C) = Connecting")
  case True
  let ?w = "cl_worker C"
  let ?l = "\<lparr>ln_server = session_start (wc_slots ?w), ln_down = [], ln_up = []\<rparr>"
  have new: "run_session_start (ou_read_msg ou) [Text (ou_show_msg ou (dial_hello ?w))] = Some (session_start (wc_slots ?w))"
    using hello by (simp add: run_session_start_def dial_hello_def)
  have "held (dialled True ?w) = {#}"
    using ok True by (fastforce simp: client_ok_def dialled_def held_def list_all_iff filter_empty_conv filter_mset_eq_conv)
  then have up: "link_flow ?l (dialled True ?w)"
    using ok True by (auto simp: link_flow_def flow_ok_def under_way_def due_def session_start_def clamp_slots_def
        client_ok_def dialled_def)
  have "held (dialled False ?w) = held ?w" by (simp add: dialled_def held_def)
  then have down: "cluster_flow (C\<lparr>cl_worker := dialled False ?w\<rparr>)"
    using flow by (simp add: cluster_flow_def link_flow_def under_way_def dialled_def)
  show ?thesis
    using True up down by (cases d) (simp_all add: cluster_dial_def new cluster_flow_def)
qed (use flow in \<open>simp add: cluster_dial_def\<close>)

lemma cluster_reachable_flow:
  assumes "cluster_reachable ou cfg C" and "codec_faithful ou C"
  shows "cluster_flow C"
  using assms
proof (induction rule: cluster_reachable.induct)
  case (start b0 b1 b2)
  show ?case by (simp add: cluster_start_def cluster_flow_def)
next
  case (step C ev)
  have codec: "codec_faithful ou C" by (rule faithful_back [OF cluster_grows step.prems])
  note flow = step.IH [OF codec]
  have g: "cluster_genuine ou C" by (rule cluster_reachable_genuine [OF step.hyps codec])
  have ok: "client_ok (cl_worker C)" by (rule client_reachable_ok [OF cluster_client [OF step.hyps]])
  have l: "link_genuine ou (in_flow C)" if "cl_links C \<noteq> []"
    using g that by (simp add: cluster_genuine_def list_all_iff)
  have up: "ou_read_msg ou (ou_show_msg ou msg) = Some msg" if "cl_links C \<noteq> []" "msg \<in> set (ln_up (in_flow C))" for msg
  proof -
    have "msg \<in> set (wc_written (cl_worker C))"
      using cluster_up [OF step.hyps] last_in_set [OF that(1)] that(2) by (auto simp: up_written_def list_all_iff)
    then show ?thesis using codec by (simp add: codec_faithful_def)
  qed
  have here: "cl_links C ! k = in_flow C \<and> cl_links C \<noteq> []" if "Suc k = length (cl_links C)" for k
    using that last_conv_nth [of "cl_links C"] by (cases "cl_links C = []") (simp_all flip: that)
  have last: "last ((cl_links C)[k := l']) = (if Suc k = length (cl_links C) then l' else in_flow C)"
    if "k < length (cl_links C)" for k l'
    using that by (cases "cl_links C = []") (auto simp: last_list_update)
  show ?case
  proof (cases ev)
    case (Server k ev')
    then show ?thesis
      using flow l server_moves_flow [of "in_flow C" "cl_worker C" ou ev']
      by (auto simp: cluster_flow_def last link_genuine_def here)
  next
    case (Server_Reads k)
    then show ?thesis
      using flow l up server_reads_flow [of "in_flow C" "cl_worker C" ou]
      by (auto simp: cluster_flow_def last link_genuine_def here)
  next
    case (Worker ev')
    then show ?thesis using flow worker_moves_flow held_own by simp
  next
    case Worker_Reads
    have "ou_read_job ou (ou_show_job ou job) = Some job" if "cl_links C \<noteq> []" "job \<in> set (ln_down (in_flow C))" for job
      using l codec last_in_set [OF that(1)] that unfolding link_genuine_def codec_faithful_def by blast
    then show ?thesis using reads_flow [OF flow] by (simp add: Worker_Reads)
  next
    case (Dial d)
    then show ?thesis using dial_flow [OF flow ok] codec by (simp add: codec_faithful_def)
  next
    case (Finishes k r)
    have "wc_written (client_step (ou_read_job ou) (Finished k oc) (cl_worker C)) = wc_written (cl_worker C)" for oc
      by (simp add: finish_job_def Let_def case_prod_beta)
    then show ?thesis
      using flow worker_moves_flow [OF flow, of ou "Finished k (ran ou (snd (wc_running (cl_worker C) ! k)) r)"]
        held_finish [of k ou "cl_worker C" r]
      by (simp add: Finishes Let_def)
  qed
qed




end
