(* ===== verification/Http.thy ===== *)
theory Http
  imports Auth Human Sgf_Parser Job_Store Registry
begin

text \<open>
  The HTTP surface (\<open>src/src/http/mod.rs\<close>, \<open>dto.rs\<close>, \<open>handlers.rs\<close>): the request and response types,
  one definition per handler over the job store, and the dashboard's page.  Axum, serde and the
  clock are outside: a handler takes its decoded request and the time.  \<open>faults n\<close> is the failure of
  a handler's n-th database call, if it fails before doing anything.  A handler that panics is None.
\<close>

section \<open>State and payloads\<close>

definition api_client_token :: "string \<Rightarrow> string option" where
  "api_client_token token = (if token = [] then None else Some token)"

record submit_response =
  sr_job_id :: uuid
  sr_status :: job_status

record status_response =
  sp_id :: uuid
  sp_status :: job_status
  sp_result :: "json option"
  sp_error :: "string option"

record analysis_summary =
  as_id :: uuid
  as_status :: job_status
  as_error :: "string option"
  as_created_at :: int
  as_updated_at :: int

definition summary_of :: "job_summary \<Rightarrow> analysis_summary" where
  "summary_of s = \<lparr>as_id = js_id s, as_status = js_status s, as_error = js_error s,
                   as_created_at = js_created_at s, as_updated_at = js_updated_at s\<rparr>"

record worker_summary =
  ws_id :: nat
  ws_name :: string
  ws_peer :: "string option"
  ws_slots :: nat
  ws_connected_at :: int

definition worker_summary_of :: "worker_info \<Rightarrow> worker_summary" where
  "worker_summary_of w = \<lparr>ws_id = wi_id w, ws_name = wi_name w, ws_peer = wi_peer w, ws_slots = wi_slots w,
                          ws_connected_at = wi_connected_at w\<rparr>"

datatype batch_game = Bare_Sgf string | With_Options string "string option"

fun into_parts :: "batch_game \<Rightarrow> string \<times> string option" where
  "into_parts (Bare_Sgf sgf) = (sgf, None)"
| "into_parts (With_Options sgf human_profile) = (sgf, human_profile)"

record batch_item =
  bi_job_id :: "uuid option"
  bi_error :: "string option"

record changes_query =
  cq_since :: int
  cq_limit :: "int option"

record change =
  ch_seq :: int
  ch_id :: uuid
  ch_status :: job_status
  ch_error :: "string option"
  ch_updated_at :: int

record changes_response =
  cr_changes :: "change list"
  cr_cursor :: int
  cr_latest :: int
  cr_more :: bool

definition db_call :: "(nat \<Rightarrow> app_error option) \<Rightarrow> nat \<Rightarrow> 'a \<Rightarrow> 'a app_result" where
  "db_call faults n x = (case faults n of Some e \<Rightarrow> Inl e | None \<Rightarrow> Inr x)"

section \<open>Submitting\<close>

definition ACCEPTED :: nat where "ACCEPTED = 202"

definition http_submit ::
  "sgf_reader \<Rightarrow> (nat \<Rightarrow> uuid) \<Rightarrow> (job_message \<Rightarrow> string option) \<Rightarrow> int \<Rightarrow> string option \<Rightarrow> string \<Rightarrow> store
     \<Rightarrow> ((nat \<times> submit_response) app_result \<times> store) option" where
  "http_submit go_parse mint send now human_profile body s =
     (case sgf_validate go_parse body of
        Inl e \<Rightarrow> Some (Inl e, s)
      | Inr _ \<Rightarrow>
          (case human_parse human_profile of
             None \<Rightarrow> None
           | Some (Inl e) \<Rightarrow> Some (Inl e, s)
           | Some (Inr profile) \<Rightarrow>
               (let (r, s') = db_submit mint send now \<lparr>nj_sgf = body, nj_human_profile = profile\<rparr> s
                in Some (res_map (\<lambda>i. (ACCEPTED, \<lparr>sr_job_id = i, sr_status = Queued\<rparr>)) r, s'))))"

definition MAX_BATCH :: nat where "MAX_BATCH = 100"

definition BATCH_BODY_LIMIT :: nat where "BATCH_BODY_LIMIT = 16 * 1024 * 1024"

text \<open>The loop over the games: why each was refused, if it was, and the jobs of the others.\<close>

definition judge :: "sgf_reader \<Rightarrow> batch_game \<Rightarrow> new_job app_result option" where
  "judge go_parse game =
     (let (sgf, human_profile) = into_parts game in
      case sgf_validate go_parse sgf of
        Inl e \<Rightarrow> Some (Inl e)
      | Inr _ \<Rightarrow> map_option (res_map (\<lambda>p. \<lparr>nj_sgf = sgf, nj_human_profile = p\<rparr>)) (human_parse human_profile))"

fun triage :: "sgf_reader \<Rightarrow> batch_game list \<Rightarrow> (string option list \<times> new_job list) option" where
  "triage go_parse [] = Some ([], [])"
| "triage go_parse (game # games) =
     Option.bind (judge go_parse game) (\<lambda>r.
       map_option (\<lambda>(refused, accepted).
         (case r of
            Inr job \<Rightarrow> (None # refused, job # accepted)
          | Inl err \<Rightarrow> (Some (error_text err) # refused, accepted)))
         (triage go_parse games))"

fun batch_results :: "string option list \<Rightarrow> uuid list \<Rightarrow> batch_item list" where
  "batch_results [] ids = []"
| "batch_results (Some err # refused) ids = \<lparr>bi_job_id = None, bi_error = Some err\<rparr> # batch_results refused ids"
| "batch_results (None # refused) [] = \<lparr>bi_job_id = None, bi_error = None\<rparr> # batch_results refused []"
| "batch_results (None # refused) (i # ids) = \<lparr>bi_job_id = Some i, bi_error = None\<rparr> # batch_results refused ids"

definition batch_too_large :: "nat \<Rightarrow> app_error" where
  "batch_too_large n = BadRequest (''at most '' @ show_nat MAX_BATCH @ '' SGFs per batch, got '' @ show_nat n)"

definition submit_batch ::
  "sgf_reader \<Rightarrow> (nat \<Rightarrow> uuid) \<Rightarrow> (job_message \<Rightarrow> string option) \<Rightarrow> int \<Rightarrow> string option \<Rightarrow> string option
     \<Rightarrow> batch_game list \<Rightarrow> store \<Rightarrow> ((nat \<times> batch_item list) app_result \<times> store) option" where
  "submit_batch go_parse mint send now client_token authorization sgfs s =
     (if (case client_token of None \<Rightarrow> False | Some token \<Rightarrow> \<not> bearer_matches authorization token)
      then Some (Inl Unauthorized, s)
      else if MAX_BATCH < length sgfs then Some (Inl (batch_too_large (length sgfs)), s)
      else
        (case triage go_parse sgfs of
           None \<Rightarrow> None
         | Some (refused, accepted) \<Rightarrow>
             (let (r, s') = submit_many mint send now accepted s
              in Some (res_map (\<lambda>ids. (ACCEPTED, batch_results refused ids)) r, s'))))"

section \<open>Reading\<close>

definition SETTLE_SECS :: nat where "SETTLE_SECS = 5"

definition changes_limit :: "changes_query \<Rightarrow> int" where
  "changes_limit query = min (max (opt_else 500 (cq_limit query)) 1) 1000"

definition change_of :: "nat \<times> job_summary \<Rightarrow> change" where
  "change_of = (\<lambda>(seq, row). \<lparr>ch_seq = int seq, ch_id = js_id row, ch_status = js_status row,
                             ch_error = js_error row, ch_updated_at = js_updated_at row\<rparr>)"

text \<open>Change numbers start at 1, so a negative cursor reads what 0 reads.\<close>

definition changes :: "(nat \<Rightarrow> app_error option) \<Rightarrow> int \<Rightarrow> changes_query \<Rightarrow> store \<Rightarrow> changes_response app_result" where
  "changes faults now query s =
     (let limit = changes_limit query in
      res_bind (db_call faults 0 (settled_changes now (nat (cq_since query)) (nat limit) SETTLE_SECS s))
        (\<lambda>(rows, held_back). res_map
          (\<lambda>latest. \<lparr>cr_changes = map change_of rows,
                     cr_cursor = (if rows = [] then cq_since query else int (fst (last rows))),
                     cr_latest = int latest,
                     cr_more = held_back \<or> limit \<le> int (length rows)\<rparr>)
          (db_call faults 1 (latest_change_seq s))))"

text \<open>Time in milliseconds.  The job is read at time t, which takes \<open>latency t\<close>.\<close>

definition WAIT_POLL :: nat where "WAIT_POLL = 1000"
definition MAX_WAIT :: nat where "MAX_WAIT = 300000"

definition is_terminal :: "job_status \<Rightarrow> bool" where
  "is_terminal status = (case status of Done \<Rightarrow> True | Failed \<Rightarrow> True | _ \<Rightarrow> False)"

function wait_for_job ::
  "(nat \<Rightarrow> job_view option app_result) \<Rightarrow> (nat \<Rightarrow> nat) \<Rightarrow> nat \<Rightarrow> nat \<Rightarrow> job_view app_result \<times> nat" where
  "wait_for_job read latency deadline t =
     (let now = t + latency t in
      case read t of
        Inl e \<Rightarrow> (Inl e, now)
      | Inr None \<Rightarrow> (Inl NotFound, now)
      | Inr (Some job) \<Rightarrow>
          (if is_terminal (jv_status job) \<or> deadline \<le> now then (Inr job, now)
           else wait_for_job read latency deadline (now + min WAIT_POLL (deadline - now))))"
  by pat_completeness auto
termination
  by (relation "measure (\<lambda>(read, latency, deadline, t). deadline - t)") (auto simp: WAIT_POLL_def)

declare wait_for_job.simps [simp del]

definition status_of :: "job_view \<Rightarrow> status_response" where
  "status_of job = \<lparr>sp_id = jv_id job, sp_status = jv_status job, sp_result = jv_result job, sp_error = jv_error job\<rparr>"

definition status ::
  "(nat \<Rightarrow> job_view option app_result) \<Rightarrow> (nat \<Rightarrow> nat) \<Rightarrow> nat option \<Rightarrow> status_response app_result \<times> nat" where
  "status read latency wait =
     (case wait of
        Some secs \<Rightarrow>
          (if 0 < secs then
             (let (r, end) = wait_for_job read latency (min (secs * 1000) MAX_WAIT) 0 in (res_map status_of r, end))
           else (res_bind (read 0) (\<lambda>job. case job of None \<Rightarrow> Inl NotFound | Some j \<Rightarrow> Inr (status_of j)), latency 0))
      | None \<Rightarrow> (res_bind (read 0) (\<lambda>job. case job of None \<Rightarrow> Inl NotFound | Some j \<Rightarrow> Inr (status_of j)), latency 0))"

definition list_analyses :: "(nat \<Rightarrow> app_error option) \<Rightarrow> store \<Rightarrow> analysis_summary list app_result" where
  "list_analyses faults s = res_map (map summary_of) (db_call faults 0 (list_jobs s))"

definition workers :: "registry_owner option \<Rightarrow> worker_summary list" where
  "workers registry = (case registry of None \<Rightarrow> [] | Some own \<Rightarrow> map worker_summary_of (owner_snapshot own))"

section \<open>The live stream\<close>

datatype sse_event = Analysis_Event analysis_summary | Error_Event string

text \<open>The snapshot and the cursor are two reads, so each has a store of its own.\<close>

definition stream_snapshot :: "job_summary list app_result \<Rightarrow> sse_event list" where
  "stream_snapshot rows =
     (case rows of
        Inr rs \<Rightarrow> map (\<lambda>row. Analysis_Event (summary_of row)) rs
      | Inl err \<Rightarrow> [Error_Event (error_text err)])"

definition stream_cursor :: "nat app_result \<Rightarrow> nat" where
  "stream_cursor latest = (case latest of Inr n \<Rightarrow> n | Inl _ \<Rightarrow> 0)"

definition stream_poll :: "nat \<Rightarrow> (nat \<times> job_summary) list app_result \<Rightarrow> nat \<times> sse_event list" where
  "stream_poll cursor rows =
     (case rows of
        Inr rs \<Rightarrow> (foldl (\<lambda>c (seq, _). max c seq) cursor rs, map (\<lambda>(_, row). Analysis_Event (summary_of row)) rs)
      | Inl err \<Rightarrow> (cursor, [Error_Event (error_text err)]))"

fun stream_tail :: "nat \<Rightarrow> (store \<times> app_error option) list \<Rightarrow> nat \<times> sse_event list" where
  "stream_tail cursor [] = (cursor, [])"
| "stream_tail cursor ((s, fault) # polls) =
     (let (cursor', events) = stream_poll cursor (case fault of Some e \<Rightarrow> Inl e | None \<Rightarrow> Inr (changes_since cursor s));
          (cursor'', rest) = stream_tail cursor' polls
      in (cursor'', events @ rest))"

section \<open>Batches\<close>

definition refusal :: "new_job app_result \<Rightarrow> string option" where
  "refusal r = (case r of Inl e \<Rightarrow> Some (error_text e) | Inr _ \<Rightarrow> None)"

definition accepted_job :: "new_job app_result \<Rightarrow> new_job option" where
  "accepted_job r = (case r of Inl _ \<Rightarrow> None | Inr job \<Rightarrow> Some job)"

lemma verdict_simps [simp]:
  "refusal (Inl e) = Some (error_text e)" "refusal (Inr job) = None"
  "accepted_job (Inl e) = None" "accepted_job (Inr job) = Some job"
  by (simp_all add: refusal_def accepted_job_def)

lemma triage_those:
  "triage go_parse games =
     map_option (\<lambda>rs. (map refusal rs, List.map_filter accepted_job rs)) (those (map (judge go_parse) games))"
proof (induction games)
  case Nil
  then show ?case by (simp add: List.map_filter_simps)
next
  case (Cons game games)
  then show ?case
    by (cases "judge go_parse game"; cases "those (map (judge go_parse) games)")
      (auto simp: List.map_filter_simps split: sum.splits)
qed

text \<open>The ids are dealt out in order to the games that were accepted.\<close>

definition answers :: "(new_job \<times> uuid) set \<Rightarrow> new_job app_result \<Rightarrow> batch_item \<Rightarrow> bool" where
  "answers given r item = (case r of
       Inl e \<Rightarrow> item = \<lparr>bi_job_id = None, bi_error = Some (error_text e)\<rparr>
     | Inr job \<Rightarrow> \<exists>i. item = \<lparr>bi_job_id = Some i, bi_error = None\<rparr> \<and> (job, i) \<in> given)"

lemma answers_mono: "given \<subseteq> given' \<Longrightarrow> answers given r item \<Longrightarrow> answers given' r item"
  by (auto simp: answers_def split: sum.splits)

lemma batch_results_books:
  "length ids = length (List.map_filter accepted_job rs) \<Longrightarrow>
     List.map_filter bi_job_id (batch_results (map refusal rs) ids) = ids \<and>
     list_all2 (answers (set (zip (List.map_filter accepted_job rs) ids))) rs (batch_results (map refusal rs) ids)"
proof (induction rs arbitrary: ids)
  case Nil
  then show ?case by (simp add: List.map_filter_simps)
next
  case (Cons r rs)
  show ?case
  proof (cases r)
    case (Inl e)
    then show ?thesis using Cons by (simp add: List.map_filter_simps answers_def)
  next
    case (Inr job)
    then obtain i ids' where ids: "ids = i # ids'"
      using Cons.prems by (cases ids) (auto simp: List.map_filter_simps)
    then have l: "length ids' = length (List.map_filter accepted_job rs)"
      using Cons.prems Inr by (simp add: List.map_filter_simps)
    have "list_all2 (answers (set (zip (List.map_filter accepted_job (r # rs)) ids))) rs (batch_results (map refusal rs) ids')"
      by (rule list_all2_mono [OF conjunct2 [OF Cons.IH [OF l]]])
        (auto simp: Inr ids List.map_filter_simps intro: answers_mono [rotated])
    then show ?thesis
      using Cons.IH [OF l] Inr ids by (simp add: List.map_filter_simps answers_def [of _ "Inr job"])
  qed
qed

section \<open>Pages of the change feed\<close>

lemma filter_after:
  fixes f :: "'a \<Rightarrow> nat"
  assumes "sorted_wrt (<) (map f xs)" and "0 < k" and "k \<le> length xs"
  shows "filter (\<lambda>x. f (xs ! (k - 1)) < f x) xs = drop k xs"
proof -
  have nth: "i < j \<Longrightarrow> j < length xs \<Longrightarrow> f (xs ! i) < f (xs ! j)" for i j
    using assms(1) by (simp add: sorted_wrt_iff_nth_less)
  have "filter (\<lambda>x. f (xs ! (k - 1)) < f x) (take k xs) = []"
  proof (rule filter_False, rule ballI)
    fix x assume "x \<in> set (take k xs)"
    then obtain i where i: "i < k" "x = xs ! i" "i < length xs" by (auto simp: in_set_conv_nth)
    show "\<not> f (xs ! (k - 1)) < f x"
    proof (cases "i = k - 1")
      case True
      then show ?thesis using i by simp
    next
      case False
      then have "i < k - 1" using i(1) by simp
      moreover have "k - 1 < length xs" using assms(2,3) by linarith
      ultimately show ?thesis using nth [of i "k - 1"] i by simp
    qed
  qed
  moreover have "filter (\<lambda>x. f (xs ! (k - 1)) < f x) (drop k xs) = drop k xs"
  proof (rule filter_True, rule ballI)
    fix x assume "x \<in> set (drop k xs)"
    then obtain i where i: "i < length xs - k" "x = xs ! (k + i)" by (auto simp: in_set_conv_nth)
    then show "f (xs ! (k - 1)) < f x" using nth [of "k - 1" "k + i"] assms(2) by simp
  qed
  ultimately show ?thesis by (metis append_Nil append_take_drop_id filter_append)
qed

lemma rows_since_strict: "store_inv s \<Longrightarrow> sorted_wrt (<) (map jr_change_seq (rows_since c s))"
  by (simp add: strict_sorted_iff rows_since_def store_inv_def distinct_map_filter
      distinct_map inj_on_def)

lemma rows_since_next:
  assumes "store_inv s" and "0 < k" and "k \<le> length (rows_since c s)"
  shows "rows_since (jr_change_seq (rows_since c s ! (k - 1))) s = drop k (rows_since c s)"
proof -
  let ?xs = "rows_since c s"
  let ?n = "jr_change_seq (?xs ! (k - 1))"
  have "?xs ! (k - 1) \<in> set ?xs" using assms(2,3) by simp
  then have "c < ?n" by (simp add: rows_since_def)
  then have "rows_since ?n s = filter (\<lambda>r. ?n < jr_change_seq r) ?xs"
    by (auto simp: rows_since_def filter_sort intro!: arg_cong [where f = "sort_key jr_change_seq"] filter_cong)
  then show ?thesis using filter_after [OF rows_since_strict [OF assms(1)] assms(2,3)] by simp
qed

lemma settled_prefix_length:
  fixes s :: store
  defines "k \<equiv> \<lambda>now c limit settle. length (fst (settled_changes now c limit settle s))"
  shows "k now c limit settle \<le> limit \<and> k now c limit settle \<le> length (rows_since c s) \<and>
    fst (settled_changes now c limit settle s) = take (k now c limit settle) (changes_since c s) \<and>
    (\<not> snd (settled_changes now c limit settle s) \<and> k now c limit settle < limit \<longrightarrow>
       k now c limit settle = length (rows_since c s))"
proof -
  let ?rows = "take limit (rows_since c s)"
  let ?w = "takeWhile (settled now settle) ?rows"
  have k: "k now c limit settle = length ?w" by (simp add: k_def settled_changes_def Let_def)
  have le: "length ?w \<le> length ?rows" by (rule length_takeWhile_le)
  then have "min (length ?w) limit = length ?w" by simp
  then have w: "?w = take (length ?w) (rows_since c s)"
    using takeWhile_prefix [of "settled now settle" ?rows] by (simp only: take_take)
  have "fst (settled_changes now c limit settle s) = take (length ?w) (changes_since c s)"
    using arg_cong [OF w, of "map (\<lambda>r. (jr_change_seq r, as_summary r))"]
    by (simp add: settled_changes_def Let_def changes_since_def take_map)
  moreover have "snd (settled_changes now c limit settle s) = (length ?w < length ?rows)"
    by (simp add: settled_changes_def Let_def)
  ultimately show ?thesis using k le by auto
qed

section \<open>The stream's reader\<close>

text \<open>What a client knows after some events: the last summary of each job.\<close>

fun client_view :: "sse_event list \<Rightarrow> (uuid \<rightharpoonup> analysis_summary) \<Rightarrow> (uuid \<rightharpoonup> analysis_summary)" where
  "client_view [] v = v"
| "client_view (Analysis_Event a # events) v = client_view events (v(as_id a \<mapsto> a))"
| "client_view (Error_Event e # events) v = client_view events v"

text \<open>A history: before each poll some writes happen; a poll may fail.\<close>

fun polls_of :: "(nat \<Rightarrow> uuid) \<Rightarrow> store \<Rightarrow> ((int \<times> store_op) list \<times> app_error option) list \<Rightarrow> (store \<times> app_error option) list" where
  "polls_of mint s [] = []"
| "polls_of mint s ((ops, fault) # hs) = (run_ops mint ops s, fault) # polls_of mint (run_ops mint ops s) hs"

definition last_store :: "(nat \<Rightarrow> uuid) \<Rightarrow> store \<Rightarrow> ((int \<times> store_op) list \<times> app_error option) list \<Rightarrow> store" where
  "last_store mint s hs = run_ops mint (concat (map fst hs)) s"

abbreviation row_summary :: "job_row \<Rightarrow> analysis_summary" where
  "row_summary r \<equiv> summary_of (as_summary r)"

definition knows :: "(uuid \<rightharpoonup> analysis_summary) \<Rightarrow> nat \<Rightarrow> store \<Rightarrow> bool" where
  "knows v c s = (store_inv s \<and> c \<le> st_seq s \<and> dom v \<subseteq> jr_id ` set (st_rows s) \<and>
     (\<forall>r \<in> set (st_rows s). jr_change_seq r \<le> c \<longrightarrow> v (jr_id r) = Some (row_summary r)))"

lemma client_view_append: "client_view (xs @ ys) v = client_view ys (client_view xs v)"
proof (induction xs arbitrary: v)
  case (Cons x xs)
  then show ?case by (cases x) (simp_all add: fun_upd_def)
qed simp

lemma client_view_rows:
  "client_view (map (\<lambda>r. Analysis_Event (row_summary r)) rs) v =
     v ++ map_of (rev (map (\<lambda>r. (jr_id r, row_summary r)) rs))"
  by (induction rs arbitrary: v) (auto simp: summary_of_def as_summary_def map_add_def fun_eq_iff split: option.splits)

lemma view_of_rows:
  assumes "store_inv s" and "set rs \<subseteq> set (st_rows s)" and "r \<in> set (st_rows s)"
  shows "client_view (map (\<lambda>r. Analysis_Event (row_summary r)) rs) v (jr_id r) =
    (if r \<in> set rs then Some (row_summary r) else v (jr_id r))"
proof -
  let ?m = "map_of (rev (map (\<lambda>r. (jr_id r, row_summary r)) rs))"
  have same: "r' = r" if "r' \<in> set (st_rows s)" "jr_id r' = jr_id r" for r'
    using assms(1,3) that by (auto simp: store_inv_def distinct_map inj_on_def)
  have "?m (jr_id r) = (if r \<in> set rs then Some (row_summary r) else None)"
  proof (cases "?m (jr_id r)")
    case None
    then have "jr_id r \<notin> jr_id ` set rs" by (auto simp: map_of_eq_None_iff rev_map image_image)
    then have "r \<notin> set rs" by blast
    then show ?thesis using None by simp
  next
    case (Some a)
    then obtain r' where "r' \<in> set rs" "jr_id r' = jr_id r" "a = row_summary r'"
      by (auto dest!: map_of_SomeD)
    then show ?thesis using same assms(2) Some by auto
  qed
  then show ?thesis unfolding client_view_rows by (simp add: map_add_def)
qed

lemma dom_view_rows:
  "dom (client_view (map (\<lambda>r. Analysis_Event (row_summary r)) rs) v) = dom v \<union> jr_id ` set rs"
  unfolding client_view_rows by (auto simp: dom_map_of_conv_image_fst rev_map image_image)

lemma knows_snapshot:
  assumes "store_inv s"
  shows "knows (client_view (stream_snapshot (Inr (list_jobs s))) Map.empty) (latest_change_seq s) s"
proof -
  let ?rs = "sort_key (\<lambda>r. - jr_created_at r) (st_rows s)"
  have ev: "stream_snapshot (Inr (list_jobs s)) = map (\<lambda>r. Analysis_Event (row_summary r)) ?rs"
    by (simp add: stream_snapshot_def list_jobs_def comp_def)
  have "latest_change_seq s \<le> st_seq s"
  proof -
    have "foldr max xs 0 \<le> n" if "\<forall>x \<in> set xs. x \<le> n" for xs and n :: nat
      using that by (induction xs) auto
    then show ?thesis using assms by (auto simp: latest_change_seq_def store_inv_def)
  qed
  then show ?thesis
    using assms view_of_rows [OF assms, of ?rs]
    by (auto simp: knows_def ev dom_view_rows)
qed

lemma knows_writes:
  assumes "knows v c s"
  shows "knows v c (run_ops mint ops s)"
proof -
  have inv: "store_inv s" and c: "c \<le> st_seq s" using assms by (simp_all add: knows_def)
  have "r \<in> set (st_rows s)" if "r \<in> set (st_rows (run_ops mint ops s))" "jr_change_seq r \<le> c" for r
    using history.stamps [OF that(1)] that(2) c by auto
  moreover have "dom v \<subseteq> jr_id ` set (st_rows (run_ops mint ops s))"
    by (rule subset_trans [OF _ history.keeps_rows]) (use assms in \<open>simp add: knows_def\<close>)
  moreover have "c \<le> st_seq (run_ops mint ops s)"
    using c history.seq_grows [of s mint ops] by linarith
  ultimately show ?thesis
    using assms history.keeps_inv [OF inv, of mint ops] by (simp add: knows_def)
qed

lemma foldl_max_seq:
  "foldl (\<lambda>c (seq, _). max c seq) c (map (\<lambda>r. (jr_change_seq r, g r)) rs) \<le> n \<longleftrightarrow>
     c \<le> n \<and> (\<forall>r \<in> set rs. jr_change_seq r \<le> n)"
  by (induction rs arbitrary: c) auto

lemma knows_poll:
  assumes "knows v c s"
  shows "knows (client_view (snd (stream_poll c (Inr (changes_since c s)))) v) (fst (stream_poll c (Inr (changes_since c s)))) s \<and>
    (\<forall>r \<in> set (st_rows s). client_view (snd (stream_poll c (Inr (changes_since c s)))) v (jr_id r) = Some (row_summary r))"
proof -
  have inv: "store_inv s" using assms by (simp add: knows_def)
  let ?rs = "rows_since c s"
  have ev: "snd (stream_poll c (Inr (changes_since c s))) = map (\<lambda>r. Analysis_Event (row_summary r)) ?rs"
    by (simp add: stream_poll_def changes_since_def comp_def)
  have sub: "set ?rs \<subseteq> set (st_rows s)" by (auto simp: rows_since_def)
  have all: "client_view (map (\<lambda>r. Analysis_Event (row_summary r)) ?rs) v (jr_id r) = Some (row_summary r)"
    if "r \<in> set (st_rows s)" for r
    using view_of_rows [OF inv sub that] assms that by (auto simp: knows_def rows_since_def)
  have "fst (stream_poll c (Inr (changes_since c s))) \<le> st_seq s"
    using assms inv sub by (auto simp: stream_poll_def changes_since_def foldl_max_seq knows_def store_inv_def)
  then show ?thesis
    using assms all sub by (auto simp: knows_def ev dom_view_rows)
qed

lemma stream_tail_append:
  "stream_tail c (ps @ qs) =
     (let (c', es) = stream_tail c ps; (c'', es') = stream_tail c' qs in (c'', es @ es'))"
  by (induction c ps rule: stream_tail.induct) (auto simp: Let_def split: prod.splits)

lemma last_store_Cons: "last_store mint s ((ops, fault) # hs) = last_store mint (run_ops mint ops s) hs"
  by (simp add: last_store_def run_ops_append)

lemma knows_tail:
  "knows v c s \<Longrightarrow>
     knows (client_view (snd (stream_tail c (polls_of mint s hs))) v) (fst (stream_tail c (polls_of mint s hs))) (last_store mint s hs)"
proof (induction hs arbitrary: v c s)
  case Nil
  then show ?case by (simp add: last_store_def run_ops_def)
next
  case (Cons h hs)
  obtain ops fault where h: "h = (ops, fault)" by fastforce
  have k: "knows v c (run_ops mint ops s)" using Cons.prems by (rule knows_writes)
  show ?case
  proof (cases fault)
    case (Some e)
    then show ?thesis
      using Cons.IH [OF k] by (simp add: h last_store_Cons stream_poll_def case_prod_beta Let_def)
  next
    case None
    show ?thesis
      using Cons.IH [OF conjunct1 [OF knows_poll [OF k]]]
      by (simp add: h None last_store_Cons case_prod_beta Let_def client_view_append)
  qed
qed

lemma polls_of_append: "polls_of mint s (hs @ hs') = polls_of mint s hs @ polls_of mint (last_store mint s hs) hs'"
  by (induction mint s hs rule: polls_of.induct) (simp_all add: last_store_def run_ops_append, simp add: run_ops_def)

section \<open>Properties\<close>

text \<open>A submission is refused, with a client error and nothing written, exactly when the game does not
  validate or its profile is unknown; otherwise either exactly one queued row and its message are
  there, under the id answered, or the database failed and neither is.\<close>

lemma submit_exact:
  "case http_submit go_parse mint send now profile body s of
     None \<Rightarrow> human_parse profile = None
   | Some (Inr (code, resp), s') \<Rightarrow>
       code = 202 \<and> sr_status resp = Queued \<and> is_ok (sgf_validate go_parse body) \<and>
       (\<exists>r p. human_parse profile = Some (Inr p) \<and> st_rows s' = st_rows s @ [r] \<and>
          jr_id r = sr_job_id resp \<and> jr_status r = Queued \<and> sr_job_id resp \<notin> jr_id ` set (st_rows s) \<and>
          st_sent s' = st_sent s @ [\<lparr>jm_job_id = sr_job_id resp, jm_sgf = body, jm_human_profile = p\<rparr>])
   | Some (Inl e, s') \<Rightarrow>
       st_rows s' = st_rows s \<and> st_sent s' = st_sent s \<and>
       (sgf_validate go_parse body = Inl e \<or> human_parse profile = Some (Inl e) \<or>
        is_ok (sgf_validate go_parse body))"
proof (cases "sgf_validate go_parse body")
  case (Inl e)
  then show ?thesis by (simp add: http_submit_def)
next
  case (Inr u)
  show ?thesis
  proof (cases "human_parse profile")
    case None
    then show ?thesis using Inr by (simp add: http_submit_def)
  next
    case (Some v)
    show ?thesis
    proof (cases v)
      case (Inl e)
      then show ?thesis using Inr Some by (simp add: http_submit_def)
    next
      case prof: (Inr p)
      obtain r s1 where one: "submit_one mint send now \<lparr>nj_sgf = body, nj_human_profile = p\<rparr> s = (r, s1)"
        by fastforce
      show ?thesis
      proof (cases r)
        case (Inl e)
        then show ?thesis
          using Inr Some prof one by (simp add: http_submit_def db_submit_def transaction_def)
      next
        case ok: (Inr i)
        obtain row where "i \<notin> jr_id ` set (st_rows s)" "st_rows s1 = st_rows s @ [row]" "jr_id row = i" "jr_status row = Queued"
            "st_sent s1 = st_sent s @ [into_message \<lparr>nj_sgf = body, nj_human_profile = p\<rparr> i]"
          using submit_one_Inr [OF one [unfolded ok]] by blast
        then show ?thesis
          using Inr Some prof one ok
          by (simp add: http_submit_def db_submit_def transaction_def ACCEPTED_def into_message_def)
      qed
    qed
  qed
qed

lemma batch_exact:
  "case submit_batch go_parse mint send now token authorization sgfs s of
     None \<Rightarrow> triage go_parse sgfs = None
   | Some (Inl e, s') \<Rightarrow> st_rows s' = st_rows s \<and> st_sent s' = st_sent s
   | Some (Inr (code, items), s') \<Rightarrow>
       code = 202 \<and> length sgfs \<le> 100 \<and>
       (case token of None \<Rightarrow> True | Some t \<Rightarrow> bearer_matches authorization t) \<and>
       (\<exists>verdicts jobs rows. map (judge go_parse) sgfs = map Some verdicts \<and>
          jobs = List.map_filter accepted_job verdicts \<and>
          st_rows s' = st_rows s @ rows \<and> distinct (map jr_id rows) \<and>
          list_all (\<lambda>r. jr_status r = Queued) rows \<and>
          List.map_filter bi_job_id items = map jr_id rows \<and>
          st_sent s' = st_sent s @ map2 into_message jobs (map jr_id rows) \<and>
          list_all2 (answers (set (zip jobs (map jr_id rows)))) verdicts items)"
proof (cases "(case token of None \<Rightarrow> False | Some t \<Rightarrow> \<not> bearer_matches authorization t) \<or> MAX_BATCH < length sgfs")
  case True
  then show ?thesis by (auto simp: submit_batch_def split: option.splits)
next
  case False
  show ?thesis
  proof (cases "those (map (judge go_parse) sgfs)")
    case None
    then show ?thesis using False by (simp add: submit_batch_def triage_those)
  next
    case (Some rs)
    let ?jobs = "List.map_filter accepted_job rs"
    obtain r s1 where many: "submit_many mint send now ?jobs s = (r, s1)" by fastforce
    have v: "map (judge go_parse) sgfs = map Some rs" using Some by (simp add: those_Some)
    have t: "triage go_parse sgfs = Some (map refusal rs, ?jobs)" by (simp add: triage_those Some)
    have res: "submit_batch go_parse mint send now token authorization sgfs s =
        Some (res_map (\<lambda>ids. (ACCEPTED, batch_results (map refusal rs) ids)) r, s1)"
      using False by (simp add: submit_batch_def t many)
    obtain b s2 where b: "submit_all mint send now ?jobs s = (b, s2)" by fastforce
    show ?thesis
    proof (cases r)
      case (Inl e)
      then show ?thesis
        using many b by (cases b) (auto simp: res submit_many_def transaction_def split: if_splits)
    next
      case (Inr ids)
      have all: "submit_all mint send now ?jobs s = (Inr ids, s1)"
        using many Inr by (auto simp: submit_many_def transaction_def split: if_splits sum.splits prod.splits)
      obtain rows where rows: "st_rows s1 = st_rows s @ rows" "map jr_id rows = ids" "length ids = length ?jobs"
          "distinct ids" "st_sent s1 = st_sent s @ map2 into_message ?jobs ids"
          "list_all (\<lambda>r. jr_status r = Queued) rows"
        using submit_all_Inr [OF all] unfolding list_all_iff by blast
      have tok: "case token of None \<Rightarrow> True | Some t \<Rightarrow> bearer_matches authorization t"
        using False by (simp split: option.splits)
      show ?thesis
        using False rows batch_results_books [OF rows(3)] v tok
        by (auto simp: res Inr ACCEPTED_def MAX_BATCH_def intro!: exI [of _ rs] exI [of _ rows])
    qed
  qed
qed

text \<open>C14. A batch is answered at every index: a refused game with its own error, an accepted one with the
  id of a new row whose message carries that game, ids in input order and all distinct.  Without the
  token, with more than 100 games, or on a database error, nothing is written.\<close>

theorem batch_indexed:
  "case submit_batch go_parse mint send now token authorization sgfs s of
     None \<Rightarrow> triage go_parse sgfs = None
   | Some (Inl e, s') \<Rightarrow> st_rows s' = st_rows s \<and> st_sent s' = st_sent s
   | Some (Inr (code, items), s') \<Rightarrow>
       code = 202 \<and> length sgfs \<le> 100 \<and>
       (case token of None \<Rightarrow> True | Some t \<Rightarrow> bearer_matches authorization t) \<and>
       (\<exists>verdicts jobs rows. map (judge go_parse) sgfs = map Some verdicts \<and>
          jobs = List.map_filter accepted_job verdicts \<and>
          st_rows s' = st_rows s @ rows \<and> distinct (map jr_id rows) \<and>
          list_all (\<lambda>r. jr_status r = Queued) rows \<and>
          List.map_filter bi_job_id items = map jr_id rows \<and>
          st_sent s' = st_sent s @ map2 into_message jobs (map jr_id rows) \<and>
          list_all2 (answers (set (zip jobs (map jr_id rows)))) verdicts items)"
  by (rule batch_exact)


definition sample_query :: changes_query where
  "sample_query = \<lparr>cq_since = 0, cq_limit = Some 1\<rparr>"


lemma wait_answer:
  "t \<le> max t0 deadline \<Longrightarrow> t0 \<le> t \<Longrightarrow>
   \<exists>t'. t0 \<le> t' \<and> t' \<le> max t0 deadline \<and> snd (wait_for_job read latency deadline t) = t' + latency t' \<and>
     (case read t' of
        Inl e \<Rightarrow> fst (wait_for_job read latency deadline t) = Inl e
      | Inr None \<Rightarrow> fst (wait_for_job read latency deadline t) = Inl NotFound
      | Inr (Some job) \<Rightarrow> fst (wait_for_job read latency deadline t) = Inr job \<and>
          (is_terminal (jv_status job) \<or> deadline \<le> t' + latency t'))"
proof (induction read latency deadline t rule: wait_for_job.induct)
  case (1 read latency deadline t)
  let ?now = "t + latency t"
  show ?case
  proof (cases "\<exists>job. read t = Inr (Some job) \<and> \<not> (is_terminal (jv_status job) \<or> deadline \<le> ?now)")
    case False
    then show ?thesis
      using "1.prems" by (intro exI [of _ t]) (auto simp: wait_for_job.simps [of read latency deadline t] Let_def split: sum.splits option.splits)
  next
    case True
    then obtain job where job: "read t = Inr (Some job)" "\<not> (is_terminal (jv_status job) \<or> deadline \<le> ?now)"
      by blast
    let ?next = "?now + min WAIT_POLL (deadline - ?now)"
    have step: "wait_for_job read latency deadline t = wait_for_job read latency deadline ?next"
      using job by (simp add: wait_for_job.simps [of read latency deadline t] Let_def)
    have "?next \<le> max t0 deadline" "t0 \<le> ?next" using job(2) "1.prems" by auto
    then show ?thesis using "1.IH" [OF refl job(1) refl job(2)] unfolding step by blast
  qed
qed




text \<open>A write between the snapshot and the cursor's read is never sent: here the job has started, and
  after a poll the client still has it queued.\<close>

lemma stream_gap_loses_change:
  "(let s0 = run_ops id (take 1 sample_ops) empty_store; s1 = run_ops id [(2, Op_Running 1)] s0;
        known = client_view (stream_snapshot (Inr (list_jobs s0)) @
          snd (stream_tail (stream_cursor (Inr (latest_change_seq s1))) [(s1, None)])) Map.empty
    in map_option as_status (known 1) = Some Queued \<and> map_option jr_status (row_of 1 s1) = Some Running)"
  by code_simp

end
