(* ===== verification/Dashboard.thy ===== *)
theory Dashboard
  imports Http
begin

text \<open>
  The dashboard page of \<open>GET /\<close> (\<open>src/src/http/handlers.rs\<close>: \<open>index\<close>, \<open>render_index\<close>,
  \<open>html_escape\<close>, \<open>ago\<close>).  A worker's name is whatever the process that connected announced, so it is
  the one text of the page an outsider chooses.  Times are microseconds; how a job id prints is a
  parameter.
\<close>

section \<open>The page\<close>

definition QUEUE_PREVIEW :: nat where "QUEUE_PREVIEW = 20"
definition RUNNING_CAP :: nat where "RUNNING_CAP = 100"

definition INDEX_HEAD :: string where
  \<open>INDEX_HEAD =
     ''<!doctype html><html lang="en"><head><meta charset="utf-8">'' @
     ''<meta name="viewport" content="width=device-width,initial-scale=1">'' @
     ''<meta http-equiv="refresh" content="5">'' @
     ''<title>katago-ws</title><style>'' @
     '':root{color-scheme:light dark}'' @
     ''body{font:15px/1.6 system-ui,sans-serif;max-width:52rem;margin:3rem auto;padding:0 1.25rem}'' @
     ''h1{margin:0 0 .25rem;font-size:1.6rem}small{font-weight:400;color:#888}'' @
     ''.sub{color:#888;margin:0 0 1.5rem}'' @
     ''h2{font-size:1.05rem;margin:1.8rem 0 .5rem;'' @
     ''border-bottom:1px solid rgba(127,127,127,.25);padding-bottom:.3rem}'' @
     ''.count{font-weight:400;color:#888;font-size:.85rem}'' @
     ''table{width:100%;border-collapse:collapse;font-size:.86rem}'' @
     ''th{text-align:left;color:#888;font-weight:600;padding:.3rem .6rem .3rem 0}'' @
     ''td{padding:.28rem .6rem .28rem 0;border-top:1px solid rgba(127,127,127,.14)}'' @
     ''.mono{font-family:ui-monospace,SFMono-Regular,Menlo,monospace}'' @
     ''.muted{color:#888}'' @
     ''.dot{display:inline-block;width:.5rem;height:.5rem;border-radius:50%;'' @
     ''margin-right:.45rem;vertical-align:middle}'' @
     ''.run{background:#0a7}.q{background:#d49a3a}'' @
     ''.links{margin:2rem 0 1rem;font-size:.9rem}'' @
     ''.links a{margin-right:.9rem;text-decoration:none}'' @
     ''pre{background:rgba(127,127,127,.12);padding:.8rem 1rem;border-radius:.5rem;'' @
     ''overflow-x:auto;font-size:.85rem}'' @
     ''</style></head><body>''\<close>

definition INDEX_FOOT :: string where
  \<open>INDEX_FOOT =
     ''<section class="links">'' @
     ''<a href="/docs">/docs</a><a href="/openapi.json">/openapi.json</a>'' @
     ''<a href="/analyses">/analyses</a><a href="/analyses/stream">/analyses/stream</a>'' @
     ''<a href="/healthz">/healthz</a></section>'' @
     ''<p class="muted">Submit a game (raw SGF in the request body):</p>'' @
     ''<pre>curl -X POST --data-binary @game.sgf https://&lt;host&gt;/analyse</pre>'' @
     ''</body></html>''\<close>

definition escape_char :: "char \<Rightarrow> string" where
  "escape_char ch =
     (if ch = CHR ''&'' then ''&amp;''
      else if ch = CHR ''<'' then ''&lt;''
      else if ch = CHR ''>'' then ''&gt;''
      else if ch = CHR 0x22 then ''&quot;''
      else if ch = CHR 0x27 then ''&#39;''
      else [ch])"

definition html_escape :: "string \<Rightarrow> string" where
  "html_escape text = concat (map escape_char text)"

definition ago :: "int \<Rightarrow> int \<Rightarrow> string" where
  "ago now since =
     (let secs = nat (max ((now - since) div 1000000) 0) in
      if secs < 60 then show_nat secs @ ''s''
      else if secs < 3600 then show_nat (secs div 60) @ ''m '' @ show_nat (secs mod 60) @ ''s''
      else if secs < 86400 then show_nat (secs div 3600) @ ''h '' @ show_nat (secs mod 3600 div 60) @ ''m''
      else show_nat (secs div 86400) @ ''d '' @ show_nat (secs mod 86400 div 3600) @ ''h'')"

definition worker_row :: "int \<Rightarrow> worker_info \<Rightarrow> string" where
  \<open>worker_row now w =
     ''<tr><td class="mono">'' @ html_escape (wi_name w) @ ''</td><td class="mono muted">#'' @ show_nat (wi_id w) @
     ''</td><td>'' @ show_nat (wi_slots w) @ ''</td><td class="muted">'' @ ago now (wi_connected_at w) @ ''</td></tr>''\<close>

text \<open>The em dash of the standalone message is three bytes.\<close>

definition workers_section :: "int \<Rightarrow> worker_info list option \<Rightarrow> string" where
  \<open>workers_section now registered =
     (case registered of
        None \<Rightarrow> ''<h2>Workers</h2><p class="muted">Standalone mode '' @ [CHR 0xE2, CHR 0x80, CHR 0x94] @
                '' analyses run in-process (no remote workers).</p>''
      | Some list \<Rightarrow>
          ''<h2>Workers <span class="count">'' @ show_nat (length list) @ ''</span></h2>'' @
          (if list = [] then ''<p class="muted">No workers connected.</p>''
           else ''<table><tr><th>Worker</th><th>Session</th><th>Slots</th><th>Uptime</th></tr>'' @
                concat (map (worker_row now) list) @ ''</table>''))\<close>

definition running_row :: "(uuid \<Rightarrow> string) \<Rightarrow> int \<Rightarrow> job_summary \<Rightarrow> string" where
  \<open>running_row show_id now job =
     ''<tr><td class="mono"><span class="dot run"></span>'' @ show_id (js_id job) @
     ''</td><td class="muted">'' @ ago now (js_updated_at job) @ ''</td></tr>''\<close>

definition running_section :: "(uuid \<Rightarrow> string) \<Rightarrow> int \<Rightarrow> job_summary list \<Rightarrow> string" where
  \<open>running_section show_id now running =
     ''<h2>Running <span class="count">'' @ show_nat (length running) @ ''</span></h2>'' @
     (if running = [] then ''<p class="muted">Nothing running.</p>''
      else ''<table><tr><th>Job</th><th>Running for</th></tr>'' @
           concat (map (running_row show_id now) running) @ ''</table>'')\<close>

definition queue_row :: "(uuid \<Rightarrow> string) \<Rightarrow> int \<Rightarrow> nat \<times> job_summary \<Rightarrow> string" where
  \<open>queue_row show_id now = (\<lambda>(idx, job).
     ''<tr><td class="muted">'' @ show_nat (idx + 1) @ ''</td><td class="mono"><span class="dot q"></span>'' @
     show_id (js_id job) @ ''</td><td class="muted">'' @ ago now (js_created_at job) @ ''</td></tr>'')\<close>

definition queue_section :: "(uuid \<Rightarrow> string) \<Rightarrow> int \<Rightarrow> nat \<Rightarrow> job_summary list \<Rightarrow> string" where
  \<open>queue_section show_id now queued_total queued =
     ''<h2>Queue <span class="count">'' @
     (if QUEUE_PREVIEW < queued_total
      then ''top '' @ show_nat (length queued) @ '' of '' @ show_nat queued_total
      else show_nat queued_total) @ ''</span></h2>'' @
     (if queued = [] then ''<p class="muted">Queue is empty.</p>''
      else ''<table><tr><th>#</th><th>Job</th><th>Waiting</th></tr>'' @
           concat (map (queue_row show_id now) (zip [0..<length queued] queued)) @ ''</table>'')\<close>

definition render_index ::
  "string \<Rightarrow> (uuid \<Rightarrow> string) \<Rightarrow> int \<Rightarrow> worker_info list option \<Rightarrow> job_summary list \<Rightarrow> nat \<Rightarrow> job_summary list \<Rightarrow> string" where
  \<open>render_index version show_id now registered running queued_total queued =
     INDEX_HEAD @ ''<h1>katago-ws <small>v'' @ version @
     ''</small></h1><p class="sub">KataGo-backed SGF analysis service.</p>'' @
     workers_section now registered @ running_section show_id now running @
     queue_section show_id now queued_total queued @ INDEX_FOOT\<close>

text \<open>The three reads of the page are separate, so each has a store of its own.\<close>

definition index ::
  "string \<Rightarrow> (uuid \<Rightarrow> string) \<Rightarrow> int \<Rightarrow> registry_owner option \<Rightarrow> (nat \<Rightarrow> app_error option) \<Rightarrow> (nat \<Rightarrow> store)
     \<Rightarrow> string app_result" where
  "index version show_id now registry faults db =
     res_bind (db_call faults 0 (jobs_in_state Running RUNNING_CAP (db 0))) (\<lambda>running.
     res_bind (db_call faults 1 (count_in_state Queued (db 1))) (\<lambda>queued_total.
     res_map (\<lambda>queued. render_index version show_id now (map_option owner_snapshot registry) running queued_total queued)
       (db_call faults 2 (jobs_in_state Queued QUEUE_PREVIEW (db 2)))))"

section \<open>Escaping\<close>

definition markup_char :: "char \<Rightarrow> bool" where
  "markup_char c = (c = CHR ''<'' \<or> c = CHR ''>'' \<or> c = CHR 0x22 \<or> c = CHR 0x27)"

text \<open>Reading the entities back.\<close>

fun html_unescape :: "string \<Rightarrow> string" where
  "html_unescape [] = []"
| "html_unescape (c # cs) =
     (if c = CHR ''&'' then
        (case find_map (\<lambda>(entity, ch). map_option (\<lambda>rest. (ch, rest)) (strip_prefix entity cs))
            [(''amp;'', CHR ''&''), (''lt;'', CHR ''<''), (''gt;'', CHR ''>''), (''quot;'', CHR 0x22), (''#39;'', CHR 0x27)] of
           Some (ch, rest) \<Rightarrow> (if length rest < length (c # cs) then ch # html_unescape rest else [])
         | None \<Rightarrow> c # html_unescape cs)
      else c # html_unescape cs)"

lemma html_escape_Nil [simp]: "html_escape [] = []"
  by (simp add: html_escape_def)

lemma html_escape_Cons: "html_escape (c # cs) = escape_char c @ html_escape cs"
  by (simp add: html_escape_def)

lemma unescape_char: "html_unescape (escape_char c @ rest) = c # html_unescape rest"
  by (auto simp: escape_char_def)

lemma unescape_escape: "html_unescape (html_escape s) = s"
  by (induction s) (simp_all add: html_escape_Cons unescape_char)

lemma escape_no_markup: "filter markup_char (html_escape s) = []"
proof -
  have "filter markup_char (escape_char c) = []" for c
    by (auto simp: escape_char_def markup_char_def)
  then show ?thesis by (induction s) (simp_all add: html_escape_Cons)
qed

lemma renamed_worker:
  "wi_id (w\<lparr>wi_name := n\<rparr>) = wi_id w" "wi_slots (w\<lparr>wi_name := n\<rparr>) = wi_slots w"
  "wi_connected_at (w\<lparr>wi_name := n\<rparr>) = wi_connected_at w"
  by simp_all

lemma worker_row_markup:
  "filter markup_char (worker_row now (w\<lparr>wi_name := n\<rparr>)) = filter markup_char (worker_row now w)"
  by (simp only: worker_row_def filter_append escape_no_markup renamed_worker)

lemma worker_rows_markup:
  "filter markup_char (concat (map (worker_row now) (map (\<lambda>w. w\<lparr>wi_name := rename w\<rparr>) ws))) =
   filter markup_char (concat (map (worker_row now) ws))"
  by (induction ws) (simp_all add: worker_row_markup)

section \<open>Properties\<close>


end
