(* ===== verification/Trimming.thy ===== *)
theory Trimming
  imports Rust_Text
begin

text \<open>
  The laws of \<open>str::trim\<close>, over the UTF-8 encodings of white space: no encoding is a prefix or a suffix
  of another and none straddles two, so trimming the two ends commutes.
\<close>

section \<open>Trimmed strings\<close>

lemma drop_leading_idem [simp]: "drop_leading ws (drop_leading ws s) = drop_leading ws s"
proof (induction ws s rule: drop_leading.induct)
  case (1 ws s)
  show ?case
  proof (cases "find_map (\<lambda>w. if w = [] then None else strip_prefix w s) ws")
    case None
    then have "drop_leading ws s = s" by (simp add: drop_leading.simps [of ws s])
    then show ?thesis by simp
  next
    case (Some t)
    then have "drop_leading ws s = drop_leading ws t" by (simp add: drop_leading.simps [of ws s])
    then show ?thesis using 1 [OF Some] by simp
  qed
qed

lemma drop_leading_fixed:
  "drop_leading ws s = s \<longleftrightarrow> (\<forall>w \<in> set ws. w \<noteq> [] \<longrightarrow> strip_prefix w s = None)"
proof
  assume eq: "drop_leading ws s = s"
  show "\<forall>w \<in> set ws. w \<noteq> [] \<longrightarrow> strip_prefix w s = None"
  proof (cases "find_map (\<lambda>w. if w = [] then None else strip_prefix w s) ws")
    case None
    then show ?thesis by (auto simp: find_map_None split: if_splits)
  next
    case (Some t)
    then obtain w where "w \<noteq> []" "s = w @ t"
      by (auto dest!: find_map_Some simp: strip_prefix_Some split: if_splits)
    then have "length t < length s" by simp
    moreover have "drop_leading ws s = drop_leading ws t" using Some by (simp add: drop_leading.simps [of ws s])
    moreover obtain p where "t = p @ drop_leading ws t" using drop_leading_suffix by metis
    ultimately have "length s < length s" using eq by (metis length_append le_add2 le_less_trans)
    then show ?thesis by simp
  qed
next
  assume "\<forall>w \<in> set ws. w \<noteq> [] \<longrightarrow> strip_prefix w s = None"
  then show "drop_leading ws s = s" by (intro drop_leading_stop) auto
qed

text \<open>A string whose start is trimmed stays so when characters are cut from its end, and dually.\<close>

lemma drop_leading_fixed_prefix:
  "drop_leading ws (s @ t) = s @ t \<Longrightarrow> drop_leading ws s = s"
  unfolding drop_leading_fixed by (metis append_assoc option.exhaust strip_prefix_Some strip_prefix_append option.distinct(1))

definition trimmed :: "string \<Rightarrow> bool" where
  "trimmed s = (trim_start s = s \<and> trim_end s = s)"

lemma trim_trimmed [simp]: "trimmed (trim s)"
proof -
  obtain p where p: "trim_start s = trim s @ p"
    using drop_leading_suffix [of "rev (trim_start s)" "map rev white_space"]
    by (metis rev_append rev_rev_ident trim_def trim_end_def)
  have "trim_start (trim s @ p) = trim s @ p" by (simp add: trim_start_def flip: p)
  then have "trim_start (trim s) = trim s" unfolding trim_start_def by (rule drop_leading_fixed_prefix)
  then show ?thesis by (simp add: trimmed_def) (simp add: trim_def trim_end_def)
qed

lemma trim_id: "trimmed s \<Longrightarrow> trim s = s"
  by (simp add: trimmed_def trim_def)

section \<open>The two ends\<close>

text \<open>The first byte of an encoded character, as against its continuation bytes.\<close>

definition lead_byte :: "char \<Rightarrow> bool" where
  "lead_byte c = (case c of Char _ _ _ _ _ _ b6 b7 \<Rightarrow> \<not> b7 \<or> b6)"

lemma white_space_shape:
  assumes "w \<in> set white_space"
  shows "w \<noteq> [] \<and> lead_byte (hd w) \<and> (\<forall>c \<in> set (tl w). \<not> lead_byte c)"
proof -
  have "list_all (\<lambda>w. w \<noteq> [] \<and> lead_byte (hd w) \<and> list_all (\<lambda>c. \<not> lead_byte c) (tl w)) white_space"
    by code_simp
  then show ?thesis using assms by (auto simp: list_all_iff)
qed

lemma prefix_free:
  assumes "list_all (\<lambda>v. list_all (\<lambda>w. v = w \<or> strip_prefix v w = None) ws) ws"
    and "v \<in> set ws" and "w \<in> set ws" and "v @ s = w @ t"
  shows "v = w"
proof -
  have free: "v = w \<or> (\<forall>u. w \<noteq> v @ u)" if "v \<in> set ws" "w \<in> set ws" for v w
  proof -
    have "v = w \<or> strip_prefix v w = None" using that assms(1) by (simp add: list_all_iff)
    then show ?thesis by (metis option.distinct(1) strip_prefix_append)
  qed
  show ?thesis
    using assms(4) free [OF assms(2,3)] free [OF assms(3,2)] by (auto simp: append_eq_append_conv2)
qed

lemma white_space_prefix_free:
  "v \<in> set white_space \<Longrightarrow> w \<in> set white_space \<Longrightarrow> v @ s = w @ t \<Longrightarrow> v = w"
  by (rule prefix_free [of white_space]) (code_simp, assumption+)

lemma white_space_suffix_free:
  "v \<in> set (map rev white_space) \<Longrightarrow> w \<in> set (map rev white_space) \<Longrightarrow> v @ s = w @ t \<Longrightarrow> v = w"
  by (rule prefix_free [of "map rev white_space"]) (code_simp, assumption+)

text \<open>Removing one known leading member.\<close>

lemma drop_leading_step:
  assumes "\<And>v w s t. v \<in> set ws \<Longrightarrow> w \<in> set ws \<Longrightarrow> v @ s = w @ t \<Longrightarrow> v = w"
    and "w \<in> set ws" and "w \<noteq> []"
  shows "drop_leading ws (w @ s) = drop_leading ws s"
proof (cases "find_map (\<lambda>w'. if w' = [] then None else strip_prefix w' (w @ s)) ws")
  case None
  then have "strip_prefix w (w @ s) = None" using assms(2,3) by (auto simp: find_map_None)
  then show ?thesis by simp
next
  case (Some t)
  then obtain v where "v \<in> set ws" "w @ s = v @ t"
    by (auto dest!: find_map_Some simp: strip_prefix_Some split: if_splits)
  moreover from this have "v = w" using assms(1) [of v w t s] assms(2) by simp
  ultimately have "t = s" by simp
  then show ?thesis using Some by (subst drop_leading.simps) simp
qed

lemma trim_start_step: "w \<in> set white_space \<Longrightarrow> trim_start (w @ s) = trim_start s"
  unfolding trim_start_def using white_space_prefix_free white_space_shape
  by (intro drop_leading_step) blast+

lemma trim_end_step: "w \<in> set white_space \<Longrightarrow> trim_end (s @ w) = trim_end s"
proof -
  assume w: "w \<in> set white_space"
  have "drop_leading (map rev white_space) (rev w @ rev s) = drop_leading (map rev white_space) (rev s)"
    using white_space_suffix_free w white_space_shape [OF w] by (intro drop_leading_step) auto
  then show ?thesis by (simp add: trim_end_def)
qed

lemma trim_start_fixed: "trim_start s = s \<longleftrightarrow> (\<forall>w \<in> set white_space. \<forall>t. s \<noteq> w @ t)"
  unfolding trim_start_def drop_leading_fixed
  using white_space_shape by (metis option.distinct(1) option.exhaust strip_prefix_Some)

lemma trim_end_fixed: "trim_end s = s \<longleftrightarrow> (\<forall>w \<in> set white_space. \<forall>t. s \<noteq> t @ w)"
proof -
  have "trim_end s = s \<longleftrightarrow> drop_leading (map rev white_space) (rev s) = rev s"
    by (simp add: trim_end_def rev_swap)
  also have "\<dots> \<longleftrightarrow> (\<forall>w \<in> set white_space. \<forall>t. rev s \<noteq> rev w @ t)"
    unfolding drop_leading_fixed using white_space_shape
    by (auto simp: strip_prefix_Some) (metis option.exhaust strip_prefix_Some)
  also have "\<dots> \<longleftrightarrow> (\<forall>w \<in> set white_space. \<forall>t. s \<noteq> t @ w)"
    by (metis rev_append rev_rev_ident)
  finally show ?thesis .
qed

text \<open>A member that crosses the seam of a leading member and a trimmed rest is impossible.\<close>

lemma no_straddle:
  assumes "w \<in> set white_space" and "v \<in> set white_space" and "w @ t = s @ v" and "t \<noteq> []"
  shows "\<exists>u. t = u @ v"
proof (rule ccontr)
  assume no: "\<nexists>u. t = u @ v"
  obtain x where x: "v = x @ t" "w = s @ x" "x \<noteq> []"
    using assms(3) no by (auto simp: append_eq_append_conv2)
  show False
  proof (cases s)
    case Nil
    then have "v @ [] = w @ t" using x by simp
    then have "v = w" using white_space_prefix_free assms(1,2) by blast
    then show ?thesis using x Nil assms(4) by simp
  next
    case (Cons c s')
    then have "hd x \<in> set (tl w)" using x(2,3) by simp
    moreover have "hd v = hd x" using x(1,3) by simp
    ultimately show ?thesis using white_space_shape assms(1,2) by metis
  qed
qed

lemma trim_end_of_prefix: "\<exists>p. s = trim_end s @ p"
  using drop_leading_suffix [of "rev s" "map rev white_space"]
  by (metis rev_append rev_rev_ident trim_end_def)

lemma trim_end_cons:
  assumes "w \<in> set white_space"
  shows "trim_end (w @ t) = (if trim_end t = [] then [] else w @ trim_end t)"
proof (induction "length t" arbitrary: t rule: less_induct)
  case less
  show ?case
  proof (cases "\<exists>v \<in> set white_space. \<exists>u. t = u @ v")
    case True
    then obtain v u where v: "v \<in> set white_space" "t = u @ v" by auto
    have "length u < length t" using v white_space_shape [OF v(1)] by simp
    then have "trim_end (w @ u) = (if trim_end u = [] then [] else w @ trim_end u)" by (rule less)
    then show ?thesis using trim_end_step [OF v(1), of "w @ u"] trim_end_step [OF v(1), of u] v(2) by simp
  next
    case False
    then have t: "trim_end t = t" by (auto simp: trim_end_fixed)
    show ?thesis
    proof (cases "t = []")
      case True
      have "trim_end [] = []" using trim_end_of_prefix [of "[]"] by simp
      then show ?thesis using trim_end_step [OF assms, of "[]"] True by simp
    next
      case nonempty: False
      have "trim_end (w @ t) = w @ t"
        using no_straddle [OF assms _ _ nonempty] False by (auto simp: trim_end_fixed)
      then show ?thesis using t nonempty by simp
    qed
  qed
qed

lemma trim_start_end: "trim_start (trim_end s) = trim_end (trim_start s)"
proof (induction "length s" arbitrary: s rule: less_induct)
  case less
  show ?case
  proof (cases "\<exists>w \<in> set white_space. \<exists>t. s = w @ t")
    case True
    then obtain w t where w: "w \<in> set white_space" "s = w @ t" by auto
    have "length t < length s" using w white_space_shape [OF w(1)] by simp
    then have ih: "trim_start (trim_end t) = trim_end (trim_start t)" by (rule less)
    show ?thesis
    proof (cases "trim_end t = []")
      case True
      have "trim_start [] = []" by (rule trim_start_graphic) simp
      then show ?thesis
        using True ih trim_end_cons [OF w(1), of t] trim_start_step [OF w(1), of t] w(2) by simp
    next
      case False
      then show ?thesis
        using ih trim_end_cons [OF w(1), of t] trim_start_step [OF w(1)] w(2) by simp
    qed
  next
    case False
    then have s: "trim_start s = s" by (auto simp: trim_start_fixed)
    obtain p where "s = trim_end s @ p" using trim_end_of_prefix by auto
    then have "trim_start (trim_end s) = trim_end s"
      using s drop_leading_fixed_prefix [of white_space "trim_end s" p] by (simp add: trim_start_def)
    then show ?thesis using s by simp
  qed
qed

lemma trim_end_idem [simp]: "trim_end (trim_end s) = trim_end s"
  by (simp add: trim_end_def)

lemma trim_start_idem [simp]: "trim_start (trim_start s) = trim_start s"
  by (simp add: trim_start_def)

lemma trim_trim_end: "trim (trim_end s) = trim s"
  by (simp add: trim_def trim_start_end)

lemma trim_trim_start: "trim (trim_start s) = trim s"
  by (simp add: trim_def)

section \<open>Pairs\<close>

lemma white_space_no_eq: "w \<in> set white_space \<Longrightarrow> CHR ''='' \<notin> set w"
  by (auto simp: white_space_def)

lemma prefix_before:
  assumes "w @ u = a @ c # b" and "c \<notin> set w"
  shows "\<exists>v. a = w @ v"
  using assms by (induction w arbitrary: a) (auto simp: Cons_eq_append_conv)

lemma strip_prefix_before:
  assumes "c \<notin> set w"
  shows "strip_prefix w (a @ c # b) = map_option (\<lambda>t. t @ c # b) (strip_prefix w a)"
proof (cases "strip_prefix w a")
  case (Some t)
  then have "a = w @ t" by (simp add: strip_prefix_Some)
  then show ?thesis using Some by simp
next
  case None
  have "strip_prefix w (a @ c # b) = None"
  proof (rule ccontr)
    assume "strip_prefix w (a @ c # b) \<noteq> None"
    then obtain u where "w @ u = a @ c # b" by (auto simp: strip_prefix_Some)
    then obtain v where "a = w @ v" using prefix_before [of w u a c b] assms by auto
    then show False using None by simp
  qed
  then show ?thesis using None by simp
qed

lemma find_map_map_option:
  assumes "\<And>x. x \<in> set xs \<Longrightarrow> f x = map_option h (g x)"
  shows "find_map f xs = map_option h (find_map g xs)"
  using assms
proof (induction xs)
  case (Cons x xs)
  then show ?case by (cases "g x") auto
qed simp

lemma drop_leading_before:
  "\<forall>w \<in> set ws. c \<notin> set w \<Longrightarrow> drop_leading ws (a @ c # b) = drop_leading ws a @ c # b"
proof (induction ws a rule: drop_leading.induct)
  case (1 ws a)
  define strip where "strip s = find_map (\<lambda>w. if w = [] then None else strip_prefix w s) ws" for s
  have unfold: "drop_leading ws s = (case strip s of None \<Rightarrow> s | Some t \<Rightarrow> drop_leading ws t)" for s
    by (subst drop_leading.simps) (simp add: strip_def)
  have seam: "strip (a @ c # b) = map_option (\<lambda>t. t @ c # b) (strip a)"
    unfolding strip_def using 1(2) by (intro find_map_map_option) (simp add: strip_prefix_before)
  show ?case
  proof (cases "strip a")
    case None
    then show ?thesis using seam unfold [of a] unfold [of "a @ c # b"] by simp
  next
    case (Some t)
    then show ?thesis using seam unfold [of a] unfold [of "a @ c # b"] 1 by (simp add: strip_def)
  qed
qed

lemma trim_start_pair: "trim_start (k @ CHR ''='' # v) = trim_start k @ CHR ''='' # v"
  unfolding trim_start_def using white_space_no_eq by (intro drop_leading_before) blast

lemma trim_end_pair: "trim_end (k @ CHR ''='' # v) = k @ CHR ''='' # trim_end v"
proof -
  have "drop_leading (map rev white_space) (rev v @ CHR ''='' # rev k) =
      drop_leading (map rev white_space) (rev v) @ CHR ''='' # rev k"
    using white_space_no_eq by (intro drop_leading_before) auto
  then show ?thesis by (simp add: trim_end_def)
qed

lemma trim_pair: "trim (k @ CHR ''='' # v) = trim_start k @ CHR ''='' # trim_end v"
  by (simp add: trim_def trim_start_pair trim_end_pair)

end
