(* ===== verification/Overrides.thy ===== *)
theory Overrides
  imports Config Trimming "HOL-Library.AList"
begin

text \<open>
  The ordered \<open>-override-config\<close> settings (\<open>src/src/engine/autotune/overrides.rs\<close>) and how the
  tuner combines the pinned keys, its own keys and the \<open>[engine]\<close> fields
  (\<open>src/src/engine/autotune/mod.rs\<close>): \<open>pins\<close>, \<open>with_tuned\<close>, \<open>launch_cfg\<close>, \<open>tuned_keys\<close>,
  \<open>trial_overrides\<close>.  An \<open>Overrides\<close> value is its list of pairs.
\<close>

section \<open>Model\<close>

definition ANALYSIS_THREADS :: string where "ANALYSIS_THREADS = ''numAnalysisThreads''"
definition SEARCH_THREADS :: string where "SEARCH_THREADS = ''numSearchThreadsPerAnalysisThread''"
definition SERVER_THREADS :: string where "SERVER_THREADS = ''numNNServerThreadsPerModel''"
definition BATCH_SIZE :: string where "BATCH_SIZE = ''nnMaxBatchSize''"

type_synonym overrides = "(string \<times> string) list"

definition ov_get :: "overrides \<Rightarrow> string \<Rightarrow> string option" where
  "ov_get over key = map_option snd (List.find (\<lambda>(have_key, _). have_key = key) over)"

fun ov_set :: "string \<Rightarrow> string \<Rightarrow> overrides \<Rightarrow> overrides" where
  "ov_set key val [] = [(key, val)]"
| "ov_set key val ((k, v) # over) = (if k = key then (k, val) # over else (k, v) # ov_set key val over)"

definition ov_entry :: "string \<Rightarrow> overrides \<Rightarrow> overrides" where
  "ov_entry entry over =
     (case split_once (CHR ''='') entry of
        None \<Rightarrow> over
      | Some (k, v) \<Rightarrow> (if trim k = [] then over else ov_set (trim k) (trim v) over))"

definition ov_parse :: "string \<Rightarrow> overrides" where
  "ov_parse raw = fold ov_entry (split_on (CHR '','') raw) []"

definition ov_fill :: "overrides \<Rightarrow> overrides \<Rightarrow> overrides" where
  "ov_fill over other =
     fold (\<lambda>(k, v) acc. if ov_get acc k = None then acc @ [(k, v)] else acc) other over"

definition ov_retain :: "(string \<Rightarrow> bool) \<Rightarrow> overrides \<Rightarrow> overrides" where
  "ov_retain keep over = filter (\<lambda>(k, _). keep k) over"

definition ov_pair :: "string \<times> string \<Rightarrow> string" where
  "ov_pair e = fst e @ ''='' @ snd e"

definition ov_show :: "overrides \<Rightarrow> string" where
  "ov_show over = join '','' (map ov_pair over)"

text \<open>One point of the search; \<open>None\<close>: the key is pinned.\<close>

record tune_candidate =
  cand_threads :: "nat option"
  cand_servers :: "nat option"
  cand_batch :: "nat option"

definition TUNING_FIELDS :: "(string \<times> string) list" where
  "TUNING_FIELDS =
     [(''analysis_threads'', ANALYSIS_THREADS),
      (''search_threads_per_analysis'', SEARCH_THREADS),
      (''nn_server_threads'', SERVER_THREADS),
      (''nn_max_batch_size'', BATCH_SIZE)]"

definition field_value :: "engine_config \<Rightarrow> string \<Rightarrow> nat" where
  "field_value cfg key =
     (if key = ANALYSIS_THREADS then analysis_threads cfg
      else if key = SEARCH_THREADS then search_threads_per_analysis cfg
      else if key = SERVER_THREADS then nn_server_threads cfg
      else if key = BATCH_SIZE then nn_max_batch_size cfg
      else 0)"

text \<open>Writing through \<open>field_mut\<close>; \<open>None\<close> when the key is no field.\<close>

definition field_mut :: "engine_config \<Rightarrow> string \<Rightarrow> (nat \<Rightarrow> engine_config) option" where
  "field_mut cfg key =
     (if key = ANALYSIS_THREADS then Some (\<lambda>n. cfg\<lparr>analysis_threads := n\<rparr>)
      else if key = SEARCH_THREADS then Some (\<lambda>n. cfg\<lparr>search_threads_per_analysis := n\<rparr>)
      else if key = SERVER_THREADS then Some (\<lambda>n. cfg\<lparr>nn_server_threads := n\<rparr>)
      else if key = BATCH_SIZE then Some (\<lambda>n. cfg\<lparr>nn_max_batch_size := n\<rparr>)
      else None)"

definition pins :: "engine_config \<Rightarrow> string list \<Rightarrow> overrides" where
  "pins cfg explicit =
     fold (\<lambda>(k, v). ov_set k v) (ov_parse (override_config cfg))
       (fold (\<lambda>(field, key) over.
                if field \<in> set explicit \<and> 0 < field_value cfg key
                then ov_set key (show_nat (field_value cfg key)) over else over) TUNING_FIELDS [])"

definition clear_fields :: "overrides \<Rightarrow> string list \<Rightarrow> engine_config \<Rightarrow> engine_config" where
  "clear_fields in_override explicit cfg =
     fold (\<lambda>(field, key) cfg.
             if field \<notin> set explicit \<and> ov_get in_override key \<noteq> None
             then (case field_mut cfg key of None \<Rightarrow> cfg | Some slot \<Rightarrow> slot 0) else cfg)
       TUNING_FIELDS cfg"

definition apply_key :: "string \<times> string \<Rightarrow> engine_config \<times> overrides \<Rightarrow> engine_config \<times> overrides" where
  "apply_key e s =
     (case (field_mut (fst s) (fst e), parse_unsigned u32_max (snd e)) of
        (Some slot, Some num) \<Rightarrow> (slot num, snd s)
      | _ \<Rightarrow> (fst s, ov_set (fst e) (snd e) (snd s)))"

definition with_tuned :: "engine_config \<Rightarrow> string list \<Rightarrow> overrides \<Rightarrow> engine_config" where
  "with_tuned cfg explicit tuned =
     (let in_override = ov_parse (override_config cfg);
          (cfg', extra) = fold apply_key tuned (clear_fields in_override explicit cfg, in_override)
      in cfg'\<lparr>override_config := ov_show extra\<rparr>)"

definition trial_visits :: "engine_config \<Rightarrow> nat" where
  "trial_visits cfg =
     (if autotune_visits cfg = 0 then max_visits cfg else min (autotune_visits cfg) (max_visits cfg))"

definition launch_cfg :: "engine_config \<Rightarrow> overrides \<Rightarrow> engine_config" where
  "launch_cfg cfg over =
     cfg\<lparr>max_visits := trial_visits cfg, analysis_threads := 0, search_threads_per_analysis := 0,
         nn_server_threads := 0, nn_max_batch_size := 0, override_config := ov_show over,
         human_model := []\<rparr>"

definition tuned_keys :: "overrides \<Rightarrow> tune_candidate \<Rightarrow> overrides" where
  "tuned_keys pinned cand =
     (let set_num = (\<lambda>key v over. case v of None \<Rightarrow> over | Some n \<Rightarrow> ov_set key (show_nat n) over);
          keys = (if ov_get pinned SEARCH_THREADS = None then ov_set SEARCH_THREADS ''1'' [] else []);
          keys = set_num ANALYSIS_THREADS (cand_threads cand) keys;
          keys = set_num SERVER_THREADS (cand_servers cand) keys;
          keys = set_num BATCH_SIZE (cand_batch cand) keys
      in ov_retain (\<lambda>key. ov_get pinned key = None) keys)"

definition trial_overrides :: "overrides \<Rightarrow> tune_candidate \<Rightarrow> overrides" where
  "trial_overrides pinned cand = ov_fill pinned (tuned_keys pinned cand)"

section \<open>Overrides as maps\<close>

lemma ov_get_map_of: "ov_get over = map_of over"
proof
  fix key
  show "ov_get over key = map_of over key"
    by (induction over) (auto simp: ov_get_def)
qed

lemma ov_set_update: "ov_set k v over = AList.update k v over"
  by (induction k v over rule: ov_set.induct) auto

lemma map_of_ov_set [simp]: "map_of (ov_set k v over) = (map_of over)(k \<mapsto> v)"
  by (simp add: ov_set_update update_conv')

lemma keys_ov_set: "fst ` set (ov_set k v over) = insert k (fst ` set over)"
  using dom_map_of_conv_image_fst [of "ov_set k v over"] dom_map_of_conv_image_fst [of over]
  by simp

lemma set_ov_set: "set (ov_set k v over) \<subseteq> insert (k, v) (set over)"
  by (induction k v over rule: ov_set.induct) auto

lemma distinct_ov_set: "distinct (map fst over) \<Longrightarrow> distinct (map fst (ov_set k v over))"
  by (simp add: ov_set_update distinct_update)

lemma fold_ov_set: "map_of (fold (\<lambda>(k, v). ov_set k v) kvs over) = map_of over ++ map_of (rev kvs)"
  by (induction kvs arbitrary: over) (auto simp: map_add_def fun_eq_iff split: option.splits)

lemma map_of_ov_fill:
  "distinct (map fst other) \<Longrightarrow> map_of (ov_fill over other) = map_of other ++ map_of over"
proof (induction other arbitrary: over)
  case Nil
  then show ?case by (simp add: ov_fill_def)
next
  case (Cons e other)
  obtain k v where e: "e = (k, v)" by (cases e)
  have k: "map_of other k = None" using Cons.prems by (simp add: e map_of_eq_None_iff)
  show ?case
  proof (cases "map_of over k")
    case None
    have "map_of (ov_fill over (e # other)) = map_of (ov_fill (over @ [(k, v)]) other)"
      using None by (simp add: ov_fill_def e ov_get_map_of)
    also have "\<dots> = map_of other ++ map_of (over @ [(k, v)])"
      using Cons by simp
    also have "\<dots> = map_of (e # other) ++ map_of over"
      using None k by (auto simp: e map_add_def fun_eq_iff split: option.splits)
    finally show ?thesis .
  next
    case (Some w)
    have "map_of (ov_fill over (e # other)) = map_of (ov_fill over other)"
      using Some by (simp add: ov_fill_def e ov_get_map_of)
    also have "\<dots> = map_of (e # other) ++ map_of over"
      using Cons Some by (auto simp: e map_add_def fun_eq_iff split: option.splits)
    finally show ?thesis .
  qed
qed

section \<open>Parsing and printing\<close>

text \<open>What \<open>ov_parse\<close> establishes of every pair, and what makes printing reversible.\<close>

definition entry_ok :: "string \<times> string \<Rightarrow> bool" where
  "entry_ok e = (fst e \<noteq> [] \<and> trimmed (fst e) \<and> trimmed (snd e) \<and> CHR ''='' \<notin> set (fst e) \<and>
     CHR '','' \<notin> set (fst e) \<and> CHR '','' \<notin> set (snd e))"

definition ov_ok :: "overrides \<Rightarrow> bool" where
  "ov_ok over = (distinct (map fst over) \<and> (\<forall>e \<in> set over. entry_ok e))"

lemma ov_ok_Nil [simp]: "ov_ok []"
  by (simp add: ov_ok_def)

lemma ov_ok_set: "ov_ok over \<Longrightarrow> entry_ok (k, v) \<Longrightarrow> ov_ok (ov_set k v over)"
  using set_ov_set [of k v over] by (auto simp: ov_ok_def distinct_ov_set)

lemma ov_ok_entry:
  assumes "ov_ok over" and "CHR '','' \<notin> set entry"
  shows "ov_ok (ov_entry entry over)"
proof (cases "split_once (CHR ''='') entry")
  case None
  then show ?thesis using assms by (simp add: ov_entry_def)
next
  case (Some kv)
  then obtain k v where kv: "kv = (k, v)" "entry = k @ CHR ''='' # v" "CHR ''='' \<notin> set k"
    by (cases kv) (auto simp: split_once_Some)
  have "entry_ok (trim k, trim v)" if "trim k \<noteq> []"
    using that kv assms(2) set_trim [of k] set_trim [of v] by (auto simp: entry_ok_def)
  then show ?thesis using assms Some kv by (auto simp: ov_entry_def ov_ok_set)
qed

lemma ov_ok_parse [simp]: "ov_ok (ov_parse raw)"
proof -
  have "ov_ok (fold ov_entry es over)" if "ov_ok over" "\<forall>e \<in> set es. CHR '','' \<notin> set e" for es over
    using that by (induction es arbitrary: over) (simp_all add: ov_ok_entry)
  then show ?thesis using split_on_no_sep by (auto simp: ov_parse_def)
qed

lemma ov_entry_pair: "entry_ok e \<Longrightarrow> ov_entry (ov_pair e) over = ov_set (fst e) (snd e) over"
  by (cases e) (simp add: ov_entry_def ov_pair_def entry_ok_def trim_id)

lemma fold_ov_entry_pairs:
  "\<forall>e \<in> set es. entry_ok e \<Longrightarrow>
     fold ov_entry (map ov_pair es) over = fold (\<lambda>(k, v). ov_set k v) es over"
  by (induction es arbitrary: over) (simp_all add: ov_entry_pair case_prod_beta)

lemma ov_set_fresh: "k \<notin> fst ` set over \<Longrightarrow> ov_set k v over = over @ [(k, v)]"
  by (induction over) auto

lemma fold_ov_set_fresh:
  "distinct (map fst (over @ es)) \<Longrightarrow> fold (\<lambda>(k, v). ov_set k v) es over = over @ es"
  by (induction es arbitrary: over) (auto simp: ov_set_fresh)

lemma pair_no_comma: "entry_ok e \<Longrightarrow> CHR '','' \<notin> set (ov_pair e)"
  by (simp add: entry_ok_def ov_pair_def)

lemma split_ov_show: "ov_ok over \<Longrightarrow> over \<noteq> [] \<Longrightarrow> split_on (CHR '','') (ov_show over) = map ov_pair over"
  unfolding ov_show_def by (rule split_on_join) (auto simp: ov_ok_def pair_no_comma)

lemma ov_parse_show: "ov_ok over \<Longrightarrow> ov_parse (ov_show over) = over"
proof (cases "over = []")
  case True
  then show ?thesis by (simp add: ov_show_def ov_parse_def ov_entry_def)
next
  case False
  assume ok: "ov_ok over"
  have "fold ov_entry (map ov_pair over) [] = over"
    using ok fold_ov_set_fresh [of "[]" over] by (simp add: ov_ok_def fold_ov_entry_pairs)
  then show ?thesis using split_ov_show [OF ok False] by (simp add: ov_parse_def)
qed

text \<open>Parsing an override string and printing it gives a string that parses to the same
  settings: keys are unique, non-blank and trimmed, and nothing is lost or reordered.\<close>

lemma overrides_parse_show:
  "ov_parse (ov_show (ov_parse raw)) = ov_parse raw \<and> distinct (map fst (ov_parse raw)) \<and>
   list_all (\<lambda>(k, v). k \<noteq> [] \<and> trim k = k \<and> trim v = v) (ov_parse raw)"
proof -
  have ok: "ov_ok (ov_parse raw)" by simp
  then have "list_all (\<lambda>(k, v). k \<noteq> [] \<and> trim k = k \<and> trim v = v) (ov_parse raw)"
    by (auto simp: ov_ok_def entry_ok_def list_all_iff trim_id dest!: bspec)
  with ok show ?thesis by (simp add: ov_parse_show ov_ok_def)
qed

section \<open>What the engine is started with\<close>

text \<open>The settings KataGo reads from its override argument, in the syntax the argument is written in.\<close>

definition engine_reads :: "engine_config \<Rightarrow> overrides" where
  "engine_reads cfg = (case katago_overrides cfg of None \<Rightarrow> [] | Some arg \<Rightarrow> ov_parse arg)"

definition FP16_KEY :: string where "FP16_KEY = ''burnUseFP16''"

definition fp16_pairs :: "engine_config \<Rightarrow> overrides" where
  "fp16_pairs cfg = (if fp16_override cfg = [] then [] else [(FP16_KEY, ''true'')])"

definition numeric_pairs :: "engine_config \<Rightarrow> overrides" where
  "numeric_pairs cfg = map (\<lambda>(k, v). (k, show_nat v)) (numeric_overrides cfg)"

definition tuning_keys :: "string list" where
  "tuning_keys = [ANALYSIS_THREADS, SEARCH_THREADS, SERVER_THREADS, BATCH_SIZE]"

lemmas key_defs = ANALYSIS_THREADS_def SEARCH_THREADS_def SERVER_THREADS_def BATCH_SIZE_def

lemma keys_distinct [simp]:
  "ANALYSIS_THREADS \<noteq> SEARCH_THREADS" "ANALYSIS_THREADS \<noteq> SERVER_THREADS"
  "ANALYSIS_THREADS \<noteq> BATCH_SIZE" "SEARCH_THREADS \<noteq> SERVER_THREADS"
  "SEARCH_THREADS \<noteq> BATCH_SIZE" "SERVER_THREADS \<noteq> BATCH_SIZE"
  "SEARCH_THREADS \<noteq> ANALYSIS_THREADS" "SERVER_THREADS \<noteq> ANALYSIS_THREADS"
  "BATCH_SIZE \<noteq> ANALYSIS_THREADS" "SERVER_THREADS \<noteq> SEARCH_THREADS"
  "BATCH_SIZE \<noteq> SEARCH_THREADS" "BATCH_SIZE \<noteq> SERVER_THREADS"
  by (simp_all add: key_defs)

lemma fp16_key_distinct: "FP16_KEY \<notin> set tuning_keys"
  by (simp add: tuning_keys_def key_defs FP16_KEY_def)

lemma key_ok: "k \<in> set tuning_keys \<Longrightarrow> entry_ok (k, show_nat n)"
proof -
  assume k: "k \<in> set tuning_keys"
  have "trimmed (show_nat n)" using trim_trimmed [of "show_nat n"] by simp
  moreover have "\<forall>c \<in> set k. ascii_graphic c"
    using k by (auto simp: tuning_keys_def key_defs ascii_graphic_def byte_val_def)
  then have "trimmed k" using trim_graphic trim_trimmed by metis
  moreover have "k \<noteq> [] \<and> CHR ''='' \<notin> set k \<and> CHR '','' \<notin> set k"
    using k by (auto simp: tuning_keys_def key_defs)
  ultimately show ?thesis using show_nat_no_comma by (simp add: entry_ok_def)
qed

lemma fp16_key_ok: "entry_ok (FP16_KEY, ''true'')"
proof -
  have "trim FP16_KEY = FP16_KEY" and "trim ''true'' = ''true''"
    by (rule trim_graphic, simp add: FP16_KEY_def ascii_graphic_def byte_val_def)+
  then have "trimmed FP16_KEY" and "trimmed ''true''" using trim_trimmed by metis+
  then show ?thesis by (simp add: entry_ok_def FP16_KEY_def)
qed

lemma numeric_overrides_keys:
  "numeric_overrides cfg = filter (\<lambda>(_, v). 0 < v)
     [(ANALYSIS_THREADS, analysis_threads cfg), (SEARCH_THREADS, search_threads_per_analysis cfg),
      (BATCH_SIZE, nn_max_batch_size cfg), (SERVER_THREADS, nn_server_threads cfg)]"
  by (simp only: numeric_overrides_def key_defs)

lemma numeric_pairs_keys:
  "(k, s) \<in> set (numeric_pairs cfg) \<Longrightarrow> k \<in> set tuning_keys \<and> (\<exists>n. s = show_nat n)"
  by (auto simp: numeric_pairs_def numeric_overrides_keys tuning_keys_def split: if_splits)

lemma numeric_pairs_map:
  "map_of (rev (numeric_pairs cfg)) k =
     (if 0 < field_value cfg k then Some (show_nat (field_value cfg k)) else None)"
  by (simp add: numeric_pairs_def numeric_overrides_keys field_value_def)

lemma ov_entry_trim: "ov_entry (trim p) over = ov_entry p over"
proof (cases "split_once (CHR ''='') p")
  case None
  then have "CHR ''='' \<notin> set (trim p)" using set_trim by (auto simp: split_once_None)
  then show ?thesis using None by (simp add: ov_entry_def split_once_None [symmetric])
next
  case (Some kv)
  then obtain k v where p: "p = k @ CHR ''='' # v" "CHR ''='' \<notin> set k"
    by (cases kv) (auto simp: split_once_Some)
  have "CHR ''='' \<notin> set (trim_start k)"
    using p(2) drop_leading_suffix [of k white_space] unfolding trim_start_def by (metis UnCI set_append)
  moreover have "trim p = trim_start k @ CHR ''='' # trim_end v"
    unfolding p(1) by (rule trim_pair)
  ultimately show ?thesis using p by (simp add: ov_entry_def trim_trim_start trim_trim_end)
qed

lemma ov_entry_Nil: "ov_entry [] over = over"
  by (simp add: ov_entry_def)

lemma fold_extras:
  "fold ov_entry (filter (\<lambda>p. p \<noteq> []) (map trim ps)) over = fold ov_entry ps over"
proof (induction ps arbitrary: over)
  case (Cons p ps)
  have "trim p = [] \<Longrightarrow> ov_entry p over = over" using ov_entry_trim [of p over] ov_entry_Nil by metis
  then show ?case using Cons by (simp add: ov_entry_trim)
qed simp

lemma map_of_ov_entry: "map_of (ov_entry e over) = map_of over ++ map_of (ov_entry e [])"
  by (simp add: ov_entry_def split: option.split prod.split)

lemma map_of_fold_entry: "map_of (fold ov_entry es over) = map_of over ++ map_of (fold ov_entry es [])"
proof (induction es arbitrary: over)
  case (Cons e es)
  have "map_of (fold ov_entry es (ov_entry e over)) = map_of (ov_entry e over) ++ map_of (fold ov_entry es [])"
    by (rule Cons)
  also have "\<dots> = map_of over ++ (map_of (ov_entry e []) ++ map_of (fold ov_entry es []))"
    by (subst map_of_ov_entry) simp
  also have "map_of (ov_entry e []) ++ map_of (fold ov_entry es []) = map_of (fold ov_entry es (ov_entry e []))"
    by (rule Cons [symmetric])
  finally show ?case by simp
qed simp

text \<open>Later pairs win: the raw overrides over \<open>burnUseFP16\<close> over the numeric knobs.\<close>

lemma engine_reads_map:
  "map_of (engine_reads cfg) =
    map_of (rev (numeric_pairs cfg)) ++ map_of (fp16_pairs cfg) ++ map_of (ov_parse (override_config cfg))"
proof -
  define own where "own = numeric_pairs cfg @ fp16_pairs cfg"
  have pairs: "override_pairs cfg = map ov_pair own @ extra_overrides cfg"
    by (auto simp: override_pairs_def own_def numeric_pairs_def fp16_pairs_def fp16_override_def
        ov_pair_def FP16_KEY_def split: if_splits)
  have ok: "\<forall>e \<in> set own. entry_ok e"
    using numeric_pairs_keys key_ok fp16_key_ok
    by (fastforce simp: own_def fp16_pairs_def split: if_splits)
  have reads: "engine_reads cfg = fold ov_entry (override_pairs cfg) []"
  proof (cases "override_pairs cfg = []")
    case True
    then have "katago_overrides cfg = None" using katago_overrides_Some [of cfg] by (cases "katago_overrides cfg") auto
    then show ?thesis using True by (simp add: engine_reads_def)
  next
    case False
    have "split_on (CHR '','') (join '','' (override_pairs cfg)) = override_pairs cfg"
      using False override_pairs_no_comma by (intro split_on_join) auto
    moreover have "katago_overrides cfg = Some (join '','' (override_pairs cfg))"
      using False by (simp add: katago_overrides_Some)
    ultimately show ?thesis by (simp add: engine_reads_def ov_parse_def)
  qed
  have "map_of (engine_reads cfg) =
      map_of (fold ov_entry (map ov_pair own) []) ++ map_of (fold ov_entry (extra_overrides cfg) [])"
    unfolding reads pairs fold_append comp_def by (rule map_of_fold_entry)
  also have "fold ov_entry (extra_overrides cfg) [] = ov_parse (override_config cfg)"
    unfolding extra_overrides_def ov_parse_def by (rule fold_extras)
  also have "map_of (fold ov_entry (map ov_pair own) []) = map_of (rev own)"
    by (simp add: fold_ov_entry_pairs [OF ok] fold_ov_set)
  also have "map_of (rev own) = map_of (rev (numeric_pairs cfg)) ++ map_of (fp16_pairs cfg)"
    by (simp add: own_def fp16_pairs_def)
  finally show ?thesis by simp
qed

lemma launch_reads:
  assumes "ov_ok over"
  shows "map_of over \<subseteq>\<^sub>m map_of (engine_reads (launch_cfg cfg over))"
  using engine_reads_map [of "launch_cfg cfg over"] ov_parse_show [OF assms] by (simp add: launch_cfg_def)

section \<open>Pinned and tuned keys\<close>

lemma field_mut_Some: "(\<exists>slot. field_mut cfg k = Some slot) \<longleftrightarrow> k \<in> set tuning_keys"
  by (simp add: field_mut_def tuning_keys_def)

lemma field_mut_slot:
  "field_mut cfg k = Some slot \<Longrightarrow>
     field_value (slot n) key = (if key = k then n else field_value cfg key) \<and>
     override_config (slot n) = override_config cfg \<and> fp16 (slot n) = fp16 cfg \<and>
     engine_backend (slot n) = engine_backend cfg"
  by (auto simp: field_mut_def field_value_def split: if_splits)

text \<open>Which \<open>[engine]\<close> field stands for a key.\<close>

definition explicit_key :: "string list \<Rightarrow> string \<Rightarrow> bool" where
  "explicit_key explicit key = (\<exists>e \<in> set TUNING_FIELDS. snd e = key \<and> fst e \<in> set explicit)"

lemma explicit_key_simps:
  "explicit_key explicit ANALYSIS_THREADS = (''analysis_threads'' \<in> set explicit)"
  "explicit_key explicit SEARCH_THREADS = (''search_threads_per_analysis'' \<in> set explicit)"
  "explicit_key explicit SERVER_THREADS = (''nn_server_threads'' \<in> set explicit)"
  "explicit_key explicit BATCH_SIZE = (''nn_max_batch_size'' \<in> set explicit)"
  by (simp_all add: explicit_key_def TUNING_FIELDS_def)

lemma pins_map:
  "map_of (pins cfg explicit) k =
     (case map_of (ov_parse (override_config cfg)) k of
        Some v \<Rightarrow> Some v
      | None \<Rightarrow> (if explicit_key explicit k \<and> 0 < field_value cfg k
                 then Some (show_nat (field_value cfg k)) else None))"
proof -
  have "map_of (rev (ov_parse (override_config cfg))) = map_of (ov_parse (override_config cfg))"
    using ov_ok_parse [of "override_config cfg"]
    by (simp add: ov_ok_def map_of_inject_set rev_map [symmetric])
  moreover have "map_of (fold (\<lambda>(field, key) over.
                if field \<in> set explicit \<and> 0 < field_value cfg key
                then ov_set key (show_nat (field_value cfg key)) over else over) TUNING_FIELDS []) k =
    (if explicit_key explicit k \<and> 0 < field_value cfg k then Some (show_nat (field_value cfg k)) else None)"
    by (auto simp: TUNING_FIELDS_def explicit_key_def)
  ultimately show ?thesis
    unfolding pins_def fold_ov_set map_add_def by (simp split: option.splits)
qed

lemma pins_ok: "ov_ok (pins cfg explicit)"
proof -
  have set_all: "ov_ok (fold (\<lambda>(k, v). ov_set k v) es over)"
    if "ov_ok over" "\<forall>e \<in> set es. entry_ok e" for es over
    using that by (induction es arbitrary: over) (auto simp: ov_ok_set)
  have fields: "ov_ok (fold (\<lambda>(field, key) over.
                if field \<in> set explicit \<and> 0 < field_value cfg key
                then ov_set key (show_nat (field_value cfg key)) over else over) fs over)"
    if "ov_ok over" "\<forall>f \<in> set fs. snd f \<in> set tuning_keys" for fs over
    using that by (induction fs arbitrary: over) (auto simp: ov_ok_set key_ok)
  have "\<forall>f \<in> set TUNING_FIELDS. snd f \<in> set tuning_keys"
    by (simp add: TUNING_FIELDS_def tuning_keys_def)
  then show ?thesis
    using ov_ok_parse [of "override_config cfg"] unfolding pins_def
    by (intro set_all fields) (auto simp: ov_ok_def)
qed

lemma field_key: "0 < field_value cfg k \<Longrightarrow> k \<in> set tuning_keys"
  by (auto simp: field_value_def tuning_keys_def split: if_splits)

lemma reads_field:
  assumes "map_of (ov_parse (override_config cfg)) k = None" and "0 < field_value cfg k"
  shows "map_of (engine_reads cfg) k = Some (show_nat (field_value cfg k))"
  using assms field_key [OF assms(2)] fp16_key_distinct unfolding engine_reads_map
  by (auto simp: map_add_def fp16_pairs_def numeric_pairs_map split: option.splits)

text \<open>The configuration as given already carries its pinned keys to the engine.\<close>

lemma pins_reach: "map_of (pins cfg explicit) \<subseteq>\<^sub>m map_of (engine_reads cfg)"
proof -
  have "map_of (engine_reads cfg) k = Some v" if "map_of (pins cfg explicit) k = Some v" for k v
  proof (cases "map_of (ov_parse (override_config cfg)) k")
    case None
    then show ?thesis using that reads_field [OF None] by (simp add: pins_map split: if_splits)
  next
    case (Some w)
    then show ?thesis using that by (simp add: pins_map engine_reads_map map_add_def)
  qed
  then show ?thesis unfolding map_le_def by (metis domD)
qed

text \<open>A value the tuner proposes: positive, and within its 32 bits.\<close>

definition knob_ok :: "nat option \<Rightarrow> bool" where
  "knob_ok v = (case v of None \<Rightarrow> True | Some n \<Rightarrow> 0 < n \<and> n \<le> u32_max)"

definition cand_ok :: "tune_candidate \<Rightarrow> bool" where
  "cand_ok cand = (knob_ok (cand_threads cand) \<and> knob_ok (cand_servers cand) \<and> knob_ok (cand_batch cand))"

definition knob_entry :: "string \<times> string \<Rightarrow> bool" where
  "knob_entry e = (fst e \<in> set tuning_keys \<and> (\<exists>n. snd e = show_nat n \<and> 0 < n \<and> n \<le> u32_max))"

definition knobs :: "overrides \<Rightarrow> bool" where
  "knobs over = (distinct (map fst over) \<and> (\<forall>e \<in> set over. knob_entry e))"

lemma show_nat_one: "show_nat 1 = ''1''"
  by code_simp

lemma tuned_ok: "ov_ok (tuned_keys pinned cand)"
proof -
  have one: "entry_ok (SEARCH_THREADS, ''1'')"
    using key_ok [of SEARCH_THREADS 1] unfolding show_nat_one by (simp add: tuning_keys_def)
  have set_num: "ov_ok (case v of None \<Rightarrow> over | Some n \<Rightarrow> ov_set k (show_nat n) over)"
    if "ov_ok over" "k \<in> set tuning_keys" for over v k
    using that by (auto simp: key_ok intro!: ov_ok_set split: option.splits)
  have retain: "ov_ok (ov_retain keep over)" if "ov_ok over" for keep over
    using that distinct_map_filter [of fst over] by (auto simp: ov_ok_def ov_retain_def)
  show ?thesis
    unfolding tuned_keys_def Let_def
    by (intro retain set_num) (auto simp: tuning_keys_def one ov_ok_def)
qed

lemma knobs_set: "knobs over \<Longrightarrow> knob_entry (k, v) \<Longrightarrow> knobs (ov_set k v over)"
  using set_ov_set [of k v over] by (auto simp: knobs_def distinct_ov_set)

lemma knobs_ok: "knobs over \<Longrightarrow> ov_ok over"
  unfolding knobs_def ov_ok_def knob_entry_def using key_ok by (metis prod.collapse)

lemma knobs_tuned:
  assumes "cand_ok cand"
  shows "knobs (tuned_keys pinned cand)"
proof -
  have one: "knob_entry (SEARCH_THREADS, ''1'')"
    by (auto simp: knob_entry_def tuning_keys_def u32_max_def simp flip: show_nat_one)
  have set_num: "knobs (case v of None \<Rightarrow> over | Some n \<Rightarrow> ov_set k (show_nat n) over)"
    if "knobs over" "knob_ok v" "k \<in> set tuning_keys" for over v k
    using that by (auto simp: knob_ok_def knob_entry_def intro!: knobs_set split: option.splits)
  have retain: "knobs (ov_retain keep over)" if "knobs over" for keep over
    using that distinct_map_filter [of fst over] by (auto simp: knobs_def ov_retain_def)
  have "knobs []" by (simp add: knobs_def)
  then show ?thesis
    using assms unfolding tuned_keys_def Let_def cand_ok_def
    by (intro retain set_num) (auto simp: tuning_keys_def one knobs_def)
qed

lemma tuned_unpinned: "k \<in> fst ` set (tuned_keys pinned cand) \<Longrightarrow> map_of pinned k = None"
  by (auto simp: tuned_keys_def Let_def ov_retain_def ov_get_map_of)

text \<open>Applying the tuned keys writes them all into \<open>[engine]\<close> fields.\<close>

lemma apply_knobs:
  assumes "\<forall>e \<in> set tuned. knob_entry e" and "distinct (map fst tuned)"
  shows "\<exists>c. fold apply_key tuned (cfg, extra) = (c, extra) \<and> fp16 c = fp16 cfg \<and>
           engine_backend c = engine_backend cfg \<and>
           (\<forall>k. case map_of tuned k of None \<Rightarrow> field_value c k = field_value cfg k
                 | Some v \<Rightarrow> v = show_nat (field_value c k) \<and> 0 < field_value c k)"
  using assms
proof (induction tuned arbitrary: cfg)
  case Nil
  then show ?case by simp
next
  case (Cons e tuned)
  obtain k n where e: "e = (k, show_nat n)" "0 < n" "n \<le> u32_max" "k \<in> set tuning_keys"
    using Cons.prems(1) by (cases e) (auto simp: knob_entry_def)
  obtain slot where slot: "field_mut cfg k = Some slot" using e(4) field_mut_Some by metis
  then have step: "apply_key e (cfg, extra) = (slot n, extra)" using e by (simp add: apply_key_def)
  obtain c where c: "fold apply_key tuned (slot n, extra) = (c, extra)" "fp16 c = fp16 (slot n)"
      "engine_backend c = engine_backend (slot n)"
      "\<forall>k. case map_of tuned k of None \<Rightarrow> field_value c k = field_value (slot n) k
                 | Some v \<Rightarrow> v = show_nat (field_value c k) \<and> 0 < field_value c k"
    using Cons.IH [of "slot n"] Cons.prems by auto
  have fresh: "map_of tuned k = None" using Cons.prems(2) e by (simp add: map_of_eq_None_iff)
  have "case map_of (e # tuned) q of None \<Rightarrow> field_value c q = field_value cfg q
          | Some v \<Rightarrow> v = show_nat (field_value c q) \<and> 0 < field_value c q" for q
    using c(4) [rule_format, of q] fresh e(1,2) field_mut_slot [OF slot, of n q]
    by (cases "q = k"; cases "map_of tuned q") auto
  then show ?case using c step field_mut_slot [OF slot, of n] by auto
qed

lemma clear_fields_keeps:
  "fp16 (clear_fields o' explicit cfg) = fp16 cfg \<and>
   engine_backend (clear_fields o' explicit cfg) = engine_backend cfg \<and>
   (map_of o' k = None \<longrightarrow> field_value (clear_fields o' explicit cfg) k = field_value cfg k)"
proof -
  define f where "f = (\<lambda>(field, key) cfg.
             if field \<notin> set explicit \<and> ov_get o' key \<noteq> None
             then (case field_mut cfg key of None \<Rightarrow> cfg | Some slot \<Rightarrow> slot 0) else cfg)"
  have one: "fp16 (f e c) = fp16 c \<and> engine_backend (f e c) = engine_backend c \<and>
    (map_of o' k = None \<longrightarrow> field_value (f e c) k = field_value c k)" for e c
    using field_mut_slot by (auto simp: f_def ov_get_map_of split: option.splits prod.splits)
  have "fp16 (fold f es c) = fp16 c \<and> engine_backend (fold f es c) = engine_backend c \<and>
    (map_of o' k = None \<longrightarrow> field_value (fold f es c) k = field_value c k)" for es c
    by (induction es arbitrary: c) (simp_all add: one)
  then show ?thesis by (simp add: clear_fields_def f_def)
qed

lemma with_tuned_reads:
  assumes "cand_ok cand"
  shows "map_of (tuned_keys (pins cfg explicit) cand) ++ map_of (pins cfg explicit) \<subseteq>\<^sub>m
    map_of (engine_reads (with_tuned cfg explicit (tuned_keys (pins cfg explicit) cand)))"
proof -
  define pinned where "pinned = pins cfg explicit"
  define tuned where "tuned = tuned_keys pinned cand"
  define old where "old = ov_parse (override_config cfg)"
  have knobs: "knobs tuned" unfolding tuned_def by (rule knobs_tuned [OF assms])
  obtain c where c: "fold apply_key tuned (clear_fields old explicit cfg, old) = (c, old)"
      "\<And>k. case map_of tuned k of None \<Rightarrow> field_value c k = field_value (clear_fields old explicit cfg) k
                 | Some v \<Rightarrow> v = show_nat (field_value c k) \<and> 0 < field_value c k"
    using apply_knobs [of tuned "clear_fields old explicit cfg" old] knobs by (auto simp: knobs_def)
  define run where "run = c\<lparr>override_config := ov_show old\<rparr>"
  have run: "with_tuned cfg explicit tuned = run"
    using c(1) by (simp add: with_tuned_def Let_def run_def flip: old_def)
  have field: "field_value run k = field_value c k" for k by (simp add: run_def field_value_def)
  have reads: "map_of (engine_reads run) = map_of (rev (numeric_pairs run)) ++ map_of (fp16_pairs run) ++ map_of old"
    using engine_reads_map [of run] by (simp add: run_def old_def ov_parse_show)
  have knob: "map_of (engine_reads run) k = Some (show_nat (field_value c k))"
    if "map_of old k = None" "k \<in> set tuning_keys" "0 < field_value c k" for k
    using that fp16_key_distinct unfolding reads
    by (auto simp: map_add_def fp16_pairs_def numeric_pairs_map field split: option.splits)
  have "map_of (engine_reads run) k = Some v" if "(map_of tuned ++ map_of pinned) k = Some v" for k v
  proof (cases "map_of old k")
    case (Some w)
    then have "map_of pinned k = Some w" by (simp add: pinned_def pins_map old_def)
    then show ?thesis using that Some reads by (simp add: map_add_def)
  next
    case None
    show ?thesis
    proof (cases "map_of pinned k")
      case None': None
      then have t: "map_of tuned k = Some v" using that by (simp add: map_add_def)
      then have "k \<in> set tuning_keys"
        using knobs by (auto simp: knobs_def knob_entry_def dest!: map_of_SomeD)
      then show ?thesis using knob [OF None] c(2) [of k] t by simp
    next
      case (Some w)
      have "map_of tuned k = None"
        using tuned_unpinned [of k pinned cand] Some by (auto simp: tuned_def map_of_eq_None_iff)
      then have same: "field_value c k = field_value cfg k"
        using c(2) [of k] clear_fields_keeps [of old explicit cfg k] None by simp
      have w: "w = v" using that Some by (simp add: map_add_def)
      have "explicit_key explicit k \<and> 0 < field_value cfg k \<and> v = show_nat (field_value cfg k)"
        using Some None unfolding pinned_def pins_map w by (simp add: old_def split: if_splits)
      moreover from this have "k \<in> set tuning_keys" using field_key by blast
      ultimately show ?thesis using knob [OF None] same by simp
    qed
  qed
  then have "map_of tuned ++ map_of pinned \<subseteq>\<^sub>m map_of (engine_reads run)"
    unfolding map_le_def by (metis domD)
  then show ?thesis unfolding run [symmetric] unfolding tuned_def pinned_def .
qed

lemma trial_map:
  assumes "cand_ok cand"
  shows "map_of (trial_overrides pinned cand) = map_of (tuned_keys pinned cand) ++ map_of pinned"
  unfolding trial_overrides_def using knobs_tuned [OF assms] by (simp add: map_of_ov_fill knobs_def)

lemma fill_ok:
  assumes "ov_ok over" and "ov_ok other"
  shows "ov_ok (ov_fill over other)"
proof -
  have step: "ov_ok (ov_fill over es)" if "ov_ok over" "\<forall>e \<in> set es. entry_ok e" for es over
    using that
  proof (induction es arbitrary: over)
    case (Cons e es)
    define over' where "over' = (if map_of over (fst e) = None then over @ [e] else over)"
    have "ov_ok over'"
      using Cons.prems by (auto simp: ov_ok_def map_of_eq_None_iff over'_def)
    moreover have "ov_fill over (e # es) = ov_fill over' es"
      by (simp add: ov_fill_def ov_get_map_of over'_def split: prod.splits)
    ultimately show ?case using Cons.IH [of over'] Cons.prems(2) by simp
  qed (simp add: ov_fill_def)
  have "\<forall>e \<in> set other. entry_ok e" using assms(2) by (simp add: ov_ok_def)
  then show ?thesis by (rule step [OF assms(1)])
qed

text \<open>C11. Production runs the settings that were measured: every key a trial is launched with (the
  pinned ones, then the candidate's) has the same value in the override argument of that trial and in
  the one of the engine started with the tuned configuration, whatever mix of explicit fields and raw
  overrides pinned them.\<close>

theorem trials_measure_what_runs:
  assumes "cand_ok cand"
  shows "let pinned = pins cfg explicit; over = trial_overrides pinned cand in
     map_of over \<subseteq>\<^sub>m map_of (engine_reads (launch_cfg cfg over)) \<and>
     map_of over \<subseteq>\<^sub>m map_of (engine_reads (with_tuned cfg explicit (tuned_keys pinned cand))) \<and>
     map_of pinned \<subseteq>\<^sub>m map_of over"
proof -
  have "ov_ok (trial_overrides (pins cfg explicit) cand)"
    unfolding trial_overrides_def by (intro fill_ok pins_ok knobs_ok knobs_tuned assms)
  then have "map_of (trial_overrides (pins cfg explicit) cand) \<subseteq>\<^sub>m
    map_of (engine_reads (launch_cfg cfg (trial_overrides (pins cfg explicit) cand)))"
    by (rule launch_reads)
  then show ?thesis using with_tuned_reads [OF assms] by (simp add: Let_def trial_map [OF assms])
qed

definition example_cand :: tune_candidate where
  "example_cand = \<lparr>cand_threads = Some 256, cand_servers = Some 8, cand_batch = Some 64\<rparr>"

lemma trials_measure_what_runs_witness:
  "map_of (engine_reads (with_tuned
      ((default_engine_config None)\<lparr>override_config := '' nnMaxBatchSize = 32''\<rparr>) []
      (tuned_keys (pins ((default_engine_config None)\<lparr>override_config := '' nnMaxBatchSize = 32''\<rparr>) [])
         example_cand))) BATCH_SIZE = Some ''32''"
proof -
  define cfg where "cfg = (default_engine_config None)\<lparr>override_config := '' nnMaxBatchSize = 32''\<rparr>"
  have "cand_ok example_cand" by (simp add: cand_ok_def knob_ok_def example_cand_def u32_max_def)
  then have le: "map_of (pins cfg []) \<subseteq>\<^sub>m map_of (engine_reads (with_tuned cfg [] (tuned_keys (pins cfg []) example_cand)))"
    using trials_measure_what_runs [of example_cand cfg "[]"] unfolding Let_def by (blast intro: map_le_trans)
  have "map_of (ov_parse '' nnMaxBatchSize = 32'') BATCH_SIZE = Some ''32''" by code_simp
  then have "map_of (pins cfg []) BATCH_SIZE = Some ''32''" by (simp add: pins_map cfg_def)
  then show ?thesis using le unfolding cfg_def map_le_def by (metis domI)
qed

end
