(* ===== verification/Autotune_Search.thy ===== *)
theory Autotune_Search
  imports Overrides
begin

text \<open>
  What the two searches share (\<open>src/src/engine/autotune/search.rs\<close>): trial outcomes, the report and
  the meter.  Instants are nanoseconds since some origin.  A trial is a parameter: the \<open>n\<close>-th call
  of \<open>measure\<close>, on a candidate and a pruning floor, yields the outcome \<open>trial n cand floor\<close>.
\<close>

section \<open>Model\<close>

datatype trial_outcome = Measured fl | Pruned fl | Trial_Failed string

record report =
  rep_best :: "(tune_candidate \<times> fl) option"
  rep_history :: "(tune_candidate \<times> trial_outcome) list"

definition show_knob :: "nat option \<Rightarrow> string" where
  "show_knob v = (case v of None \<Rightarrow> ''pinned'' | Some n \<Rightarrow> show_nat n)"

definition show_candidate :: "tune_candidate \<Rightarrow> string" where
  "show_candidate cand =
     ''analysisThreads='' @ show_knob (cand_threads cand) @ '' servers='' @
     show_knob (cand_servers cand) @ '' batch='' @ show_knob (cand_batch cand)"

type_synonym trial_fun = "nat \<Rightarrow> tune_candidate \<Rightarrow> fl option \<Rightarrow> trial_outcome"

record meter =
  meter_start :: "nat \<times> nat"
  meter_last :: "nat \<times> nat"

definition meter_begin :: "nat \<Rightarrow> nat \<Rightarrow> meter" where
  "meter_begin at_ns cnt = \<lparr>meter_start = (at_ns, cnt), meter_last = (at_ns, cnt)\<rparr>"

definition meter_record :: "nat \<Rightarrow> nat \<Rightarrow> meter \<Rightarrow> meter" where
  "meter_record at_ns cnt m = m\<lparr>meter_last := (at_ns, cnt)\<rparr>"

text \<open>Both subtractions saturate.\<close>

definition meter_positions :: "meter \<Rightarrow> nat" where
  "meter_positions m = snd (meter_last m) - snd (meter_start m)"

definition as_secs_f64 :: "nat \<Rightarrow> fl" where
  "as_secs_f64 ns =
     fadd f64 (of_nat_fl f64 (ns div 1000000000))
       (fdiv f64 (of_nat_fl f64 (ns mod 1000000000)) (of_nat_fl f64 1000000000))"

definition meter_rate :: "meter \<Rightarrow> fl" where
  "meter_rate m =
     (let secs = as_secs_f64 (fst (meter_last m) - fst (meter_start m)) in
      if fle secs (Fin 0) then Fin 0 else fdiv f64 (of_nat_fl f64 (meter_positions m)) secs)"

section \<open>Rates\<close>

text \<open>A rate: a double that is neither negative nor a NaN.\<close>

definition rate_ok :: "fl \<Rightarrow> bool" where
  "rate_ok r = (fle (Fin 0) r \<and> fconv f64 r = r)"

fun outcome_ok :: "trial_outcome \<Rightarrow> bool" where
  "outcome_ok (Measured r) = rate_ok r"
| "outcome_ok (Pruned r) = rate_ok r"
| "outcome_ok (Trial_Failed e) = True"

definition trial_ok :: "trial_fun \<Rightarrow> bool" where
  "trial_ok trial = (\<forall>n c f. outcome_ok (trial n c f))"

lemma rate_ok_iff: "rate_ok r \<longleftrightarrow> r = PInf \<or> (\<exists>x. r = Fin x \<and> 0 \<le> x \<and> rnd f64 x = Fin x)"
  by (cases r) (auto simp: rate_ok_def)

lemma rate_ok_zero [simp]: "rate_ok (Fin 0)"
  by (simp add: rate_ok_def rnd_eq not_le)

lemma rate_ok_of_nat: "n \<le> 2 ^ 53 \<Longrightarrow> rate_ok (Fin (of_nat n))"
  using rnd_of_nat [of n f64] by (simp add: rate_ok_def)

text \<open>Rounding a rounded value changes nothing.\<close>

lemma rnd_rat_idem:
  assumes "0 \<le> x" and "1 \<le> prec m" shows "rnd_rat m (rnd_rat m x) = rnd_rat m x"
proof (cases "x = 0")
  case False
  define q where "q = quantum m x"
  define n where "n = round_half_even (x / pow2 q)"
  have pos: "0 < x" using assms(1) False by simp
  have r: "rnd_rat m x = of_int n * pow2 q" by (simp add: rnd_rat_pos [OF pos] n_def q_def)
  have "0 \<le> n" unfolding n_def using pos by (intro round_half_even_nonneg) simp
  have "ilog2 x + 1 \<le> q + int (prec m)" by (simp add: q_def quantum_def)
  then have "pow2 (ilog2 x + 1) \<le> pow2 (q + int (prec m))" by (rule pow2_mono)
  moreover have "x < pow2 (ilog2 x + 1)" using ilog2_bounds [OF pos] by simp
  ultimately have "x \<le> pow2 (q + int (prec m))" by linarith
  then have "x \<le> pow2 (int (prec m)) * pow2 q" by (simp add: pow2_add mult.commute)
  then have "x / pow2 q \<le> pow2 (int (prec m))" by (simp add: pos_divide_le_eq)
  then have "n \<le> round_half_even (pow2 (int (prec m)))" unfolding n_def by (rule round_half_even_mono)
  then have "n \<le> 2 ^ prec m" by (simp only: pow2_nat of_nat_0_le_iff nat_int round_half_even_of_int)
  moreover have "emin m \<le> q" by (simp add: q_def quantum_def)
  ultimately show ?thesis
    using rnd_rat_exact_pos [of n m q] assms(2) \<open>0 \<le> n\<close> unfolding r by (cases "n = 0") auto
qed simp

lemma rate_ok_rnd: "0 \<le> x \<Longrightarrow> rate_ok (rnd f64 x)"
  using rnd_rat_idem [of x f64] rnd_rat_nonneg [of x f64] pow2_pos [of 1024]
  by (auto simp: rate_ok_def rnd_eq)

lemma rate_ok_add: "rate_ok a \<Longrightarrow> rate_ok b \<Longrightarrow> rate_ok (fadd f64 a b)"
  by (auto simp: rate_ok_iff [of a] rate_ok_iff [of b] rate_ok_rnd) (auto simp: rate_ok_iff)

lemma rate_ok_div: "rate_ok a \<Longrightarrow> 0 < d \<Longrightarrow> rate_ok (fdiv f64 a (Fin d))"
  by (auto simp: rate_ok_iff [of a] rate_ok_rnd) (auto simp: rate_ok_iff)

text \<open>Scaling by a factor is monotone and, from one on, increasing.\<close>

lemma rate_scale_mono:
  assumes "rate_ok a" and "rate_ok b" and "fle a b" and "0 < c"
  shows "fle (fmul f64 a (Fin c)) (fmul f64 b (Fin c))"
proof -
  have "fle (rnd f64 (x * c)) (rnd f64 (y * c))" if "x \<le> y" for x y
    using that assms(4) by (intro rnd_mono) (simp_all add: mult_right_mono)
  moreover have "fle (rnd f64 z) PInf" for z by (cases "rnd f64 z") auto
  ultimately show ?thesis
    using assms by (auto simp: rate_ok_iff [of a] rate_ok_iff [of b] finf_def)
qed

lemma rate_scale_up:
  assumes "rate_ok a" and "1 \<le> c"
  shows "fle a (fmul f64 a (Fin c))"
proof -
  have "fle (Fin x) (rnd f64 (x * c))" if "0 \<le> x" "rnd f64 x = Fin x" for x
  proof -
    have "fle (rnd f64 x) (rnd f64 (x * c))"
      using that assms(2) by (intro rnd_mono) (simp_all add: mult_le_cancel_left1)
    then show ?thesis using that by simp
  qed
  then show ?thesis using assms by (auto simp: rate_ok_iff [of a] finf_def)
qed

lemma rate_scale_down:
  assumes "rate_ok a" and "0 < c" and "c \<le> 1"
  shows "fle (fmul f64 a (Fin c)) a"
proof -
  have "fle (rnd f64 (x * c)) (Fin x)" if "0 \<le> x" "rnd f64 x = Fin x" for x
  proof -
    have "fle (rnd f64 (x * c)) (rnd f64 x)"
      using that assms(3) by (intro rnd_mono) (simp_all add: mult_left_le)
    then show ?thesis using that by simp
  qed
  then show ?thesis using assms by (auto simp: rate_ok_iff [of a] finf_def)
qed

text \<open>A meter read within the clock's range reports a rate.\<close>

lemma rnd_pow2_bound:
  assumes "0 \<le> x" and "x \<le> pow2 k" and "0 \<le> k" and "k < 1024"
  shows "\<exists>y. rnd f64 x = Fin y \<and> 0 \<le> y \<and> y \<le> pow2 k"
proof -
  have "rnd_rat f64 (pow2 k) = pow2 k" using rnd_rat_exact_pos [of 1 f64 k] assms(3) by simp
  then have "rnd_rat f64 x \<le> pow2 k" using rnd_rat_mono [of f64 x "pow2 k"] assms(2) by simp
  moreover have "pow2 k < pow2 1024" using assms(4) by (rule pow2_strict_mono)
  moreover have "0 \<le> rnd_rat f64 x" using assms(1) by (rule rnd_rat_nonneg)
  ultimately show ?thesis using pow2_pos [of 1024] by (auto simp: rnd_eq)
qed

lemma as_secs_finite:
  assumes "ns < 2 ^ 64 * 1000000000" shows "\<exists>y. as_secs_f64 ns = Fin y \<and> rate_ok (Fin y)"
proof -
  define s where "s = ns div 1000000000"
  define n where "n = ns mod 1000000000"
  have "s < 2 ^ 64" using assms unfolding s_def by (subst div_less_iff_less_mult) simp_all
  then have "(of_nat s :: rat) \<le> of_nat (2 ^ 64)" by (simp only: of_nat_le_iff less_imp_le)
  then have "(of_nat s :: rat) \<le> pow2 64" by (simp add: pow2_nat)
  then obtain a where a: "rnd f64 (of_nat s) = Fin a" "0 \<le> a" "a \<le> pow2 64"
    using rnd_pow2_bound [of "of_nat s" 64] by auto
  have "n \<le> 2 ^ 53" unfolding n_def using mod_less_divisor [of 1000000000 ns] by simp
  then have nf: "rnd f64 (of_nat n) = Fin (of_nat n)" by (intro rnd_of_nat) simp_all
  have "n < 1000000000" unfolding n_def by (rule mod_less_divisor) simp
  then have "(of_nat n :: rat) < of_nat 1000000000" by (simp only: of_nat_less_iff)
  then have "(of_nat n / 1000000000 :: rat) \<le> pow2 0" by simp
  then obtain b where b: "rnd f64 (of_nat n / 1000000000) = Fin b" "0 \<le> b" "b \<le> pow2 0"
    using rnd_pow2_bound [of "of_nat n / 1000000000" 0] by auto
  have "a + b \<le> pow2 64 + pow2 64" using a(3) b(3) pow2_mono [of 0 64] by simp
  also have "\<dots> = pow2 65" using pow2_add [of 64 1] by simp
  finally obtain c where c: "rnd f64 (a + b) = Fin c" "0 \<le> c"
    using rnd_pow2_bound [of "a + b" 65] a(2) b(2) by auto
  have "of_nat_fl f64 1000000000 = Fin 1000000000"
    using rnd_of_nat [of 1000000000 f64] by (simp add: of_nat_fl_def)
  then have "as_secs_f64 ns = Fin c"
    using a(1) b(1) c(1) nf unfolding as_secs_f64_def s_def [symmetric] n_def [symmetric]
    by (simp add: of_nat_fl_def)
  then show ?thesis using rate_ok_rnd [of "a + b"] a(2) b(2) c(1) by auto
qed

lemma meter_rate_ok:
  assumes "fst (meter_last m) < 2 ^ 64 * 1000000000"
  shows "rate_ok (meter_rate m)"
proof -
  obtain y where y: "as_secs_f64 (fst (meter_last m) - fst (meter_start m)) = Fin y"
    using as_secs_finite [OF less_imp_diff_less [OF assms]] by blast
  show ?thesis
  proof (cases "y \<le> 0")
    case False
    then show ?thesis
      using rate_ok_div [of "rnd f64 (of_nat (meter_positions m))" y] rate_ok_rnd [of "of_nat (meter_positions m)"]
      by (simp add: meter_rate_def y of_nat_fl_def)
  qed (simp add: meter_rate_def y)
qed

end
