(* ===== verification/Autotune_Fast.thy ===== *)
theory Autotune_Fast
  imports Autotune_Search
begin

text \<open>
  The fast search (\<open>src/src/engine/autotune/fast.rs\<close>): the search space derived from the pinned
  keys, the queue depth, the backend and the GPU's lanes, and the walk along the ladder of server
  threads.  The time budget is a parameter: \<open>may n\<close> answers \<open>may_continue()\<close> before the trial with
  number \<open>n\<close> (from 0).
\<close>

section \<open>Model\<close>

definition SERVER_LADDER :: "nat list" where "SERVER_LADDER = [1, 2, 4, 8, 16]"
definition MIN_BATCH :: nat where "MIN_BATCH = 8"
definition HEADROOM_BATCH :: nat where "HEADROOM_BATCH = 64"
definition ROCM_PRIOR :: nat where "ROCM_PRIOR = 8"
definition WGPU_PRIOR :: nat where "WGPU_PRIOR = 4"
definition PRUNE_RATIO :: fl where "PRUNE_RATIO = lit f64 (92 / 100)"
definition TIE :: fl where "TIE = lit f64 (3 / 100)"

definition batch_cap :: "nat \<Rightarrow> nat \<Rightarrow> nat" where
  "batch_cap total_pos srv = max (max (total_pos div srv) (min HEADROOM_BATCH total_pos)) 1"

text \<open>\<open>u32::leading_zeros\<close>.\<close>

fun bit_length :: "nat \<Rightarrow> nat" where
  "bit_length n = (if n = 0 then 0 else Suc (bit_length (n div 2)))"

declare bit_length.simps [simp del]

definition leading_zeros :: "nat \<Rightarrow> nat" where
  "leading_zeros n = 32 - bit_length n"

definition floor_pow2 :: "nat \<Rightarrow> nat" where
  "floor_pow2 num = (if num = 0 then 0 else 2 ^ (31 - leading_zeros num))"

definition in_flight :: "nat option \<Rightarrow> nat \<Rightarrow> nat" where
  "in_flight gpu_lanes depth =
     (let want = (case gpu_lanes of None \<Rightarrow> 256
                   | Some lanes \<Rightarrow> min (max (floor_pow2 (lanes div 16)) 128) 512);
          room = max (floor_pow2 (if depth \<le> u32_max then depth else u32_max)) 64
      in min want room)"

record fast_space =
  fs_total :: nat
  fs_threads :: "nat option"
  fs_ladder :: "(nat option \<times> nat option) list"
  fs_prior :: nat

definition rposition :: "('a \<Rightarrow> bool) \<Rightarrow> 'a list \<Rightarrow> nat option" where
  "rposition p xs = map_option (\<lambda>i. length xs - 1 - i) (position p (rev xs))"

definition pinned_num :: "overrides \<Rightarrow> string \<Rightarrow> nat option option" where
  "pinned_num pinned key = map_option (parse_unsigned u32_max) (ov_get pinned key)"

definition fast_ladder :: "overrides \<Rightarrow> nat \<Rightarrow> (nat option \<times> nat option) list" where
  "fast_ladder pinned total_pos =
     (case (pinned_num pinned SERVER_THREADS, pinned_num pinned BATCH_SIZE) of
        (Some _, Some _) \<Rightarrow> [(None, None)]
      | (Some servers, None) \<Rightarrow>
          [(None, map_option (batch_cap total_pos) (opt_filter (\<lambda>srv. 0 < srv) servers))]
      | (None, Some batch) \<Rightarrow>
          [(map_option (\<lambda>bat. max (total_pos div bat) 1) (opt_filter (\<lambda>bat. 0 < bat) batch), None)]
      | (None, None) \<Rightarrow>
          map (\<lambda>srv. (Some srv, Some (batch_cap total_pos srv)))
            (filter (\<lambda>srv. srv = 1 \<or> MIN_BATCH \<le> total_pos div srv) SERVER_LADDER))"

definition fast_space_new :: "overrides \<Rightarrow> nat \<Rightarrow> engine_backend \<Rightarrow> nat option \<Rightarrow> fast_space" where
  "fast_space_new pinned depth backend gpu_lanes =
     (let total_pos = in_flight gpu_lanes depth;
          ladder = fast_ladder pinned total_pos;
          want = (if backend = Rocm then ROCM_PRIOR else WGPU_PRIOR);
          prior = opt_else 0 (rposition (\<lambda>(srv, _). case srv of None \<Rightarrow> True | Some s \<Rightarrow> s \<le> want) ladder)
      in \<lparr>fs_total = total_pos,
          fs_threads = (if ov_get pinned ANALYSIS_THREADS = None then Some total_pos else None),
          fs_ladder = ladder, fs_prior = prior\<rparr>)"

definition fast_is_fixed :: "fast_space \<Rightarrow> bool" where
  "fast_is_fixed sp = (length (fs_ladder sp) \<le> 1)"

definition fast_candidate :: "fast_space \<Rightarrow> nat \<Rightarrow> tune_candidate option" where
  "fast_candidate sp idx =
     map_option (\<lambda>(servers, batch).
         \<lparr>cand_threads = fs_threads sp, cand_servers = servers, cand_batch = batch\<rparr>)
       (get_at (fs_ladder sp) idx)"

record fast_state =
  ft_measured :: "bool list"
  ft_best :: "(nat \<times> fl) option"
  ft_at :: nat
  ft_step :: int
  ft_flipped :: bool
  ft_trials :: nat
  ft_history :: "(tune_candidate \<times> trial_outcome) list"

definition checked_add_signed :: "nat \<Rightarrow> int \<Rightarrow> nat option" where
  "checked_add_signed n d =
     (if int n + d < 0 \<or> int usize_max < int n + d then None else Some (nat (int n + d)))"

definition tie_up :: fl where "tie_up = fadd f64 (Fin 1) TIE"

definition fast_won :: "nat \<Rightarrow> trial_outcome \<Rightarrow> (nat \<times> fl) option \<Rightarrow> (nat \<times> fl) option \<times> bool" where
  "fast_won idx res best =
     (case (res, best) of
        (Measured rate, None) \<Rightarrow> (Some (idx, rate), True)
      | (Measured rate, Some (_, lead)) \<Rightarrow>
          (if flt (fmul f64 lead tie_up) rate then (Some (idx, rate), True) else (best, False))
      | _ \<Rightarrow> (best, False))"

definition flip :: "fast_state \<Rightarrow> fast_state" where
  "flip st = st\<lparr>ft_flipped := True, ft_step := - ft_step st\<rparr>"

text \<open>\<open>measured.get(idx).copied().unwrap_or(true)\<close>\<close>

definition tried :: "fast_state \<Rightarrow> nat \<Rightarrow> bool" where
  "tried st idx = opt_else True (get_at (ft_measured st) idx)"

definition fast_next :: "fast_space \<Rightarrow> fast_state \<Rightarrow> fast_state \<times> nat option" where
  "fast_next sp st =
     (let next = opt_filter (\<lambda>idx. idx < length (fs_ladder sp) \<and> \<not> tried st idx)
                   (checked_add_signed (ft_at st) (ft_step st));
          (st, next) =
            (if next = None \<and> \<not> ft_flipped st \<and> ft_best st \<noteq> None
             then (flip st, opt_filter (\<lambda>idx. \<not> tried (flip st) idx)
                              (checked_add_signed (ft_at st) (ft_step (flip st))))
             else (st, next))
      in if ft_best st = None \<and> next = None then (st, position Not (ft_measured st))
         else (st, next))"

definition fast_trial ::
    "fast_space \<Rightarrow> trial_fun \<Rightarrow> (nat \<Rightarrow> bool) \<Rightarrow> fast_state \<Rightarrow> nat \<Rightarrow> fast_state \<times> nat option" where
  "fast_trial sp trial may st idx =
     (if 2 \<le> ft_trials st \<and> \<not> may (ft_trials st) then (st, None)
      else (case fast_candidate sp idx of
        None \<Rightarrow> (st, None)
      | Some cand \<Rightarrow>
          (let prune_below = map_option (\<lambda>(_, rate). fmul f64 rate PRUNE_RATIO) (ft_best st);
               res = trial (ft_trials st) cand prune_below;
               (best, won) = fast_won idx res (ft_best st);
               st = st\<lparr>ft_trials := ft_trials st + 1, ft_measured := (ft_measured st)[idx := True],
                       ft_best := best, ft_history := ft_history st @ [(cand, res)]\<rparr>
           in if won then fast_next sp (st\<lparr>ft_at := idx\<rparr>)
              else if best \<noteq> None \<and> \<not> ft_flipped st then fast_next sp (flip st)
              else if best \<noteq> None then (st, None)
              else fast_next sp st)))"

section \<open>The walk ends\<close>

definition untried :: "fast_state \<Rightarrow> nat" where
  "untried st = length (filter Not (ft_measured st))"

definition open_rung :: "fast_state \<Rightarrow> nat \<Rightarrow> bool" where
  "open_rung st idx = (idx < length (ft_measured st) \<and> \<not> ft_measured st ! idx)"

lemma tried_open: "tried st idx = (\<not> open_rung st idx)"
  by (simp add: tried_def open_rung_def get_at_def)

lemma flip_simps [simp]:
  "ft_measured (flip st) = ft_measured st" "ft_best (flip st) = ft_best st" "ft_at (flip st) = ft_at st"
  "ft_history (flip st) = ft_history st" "ft_trials (flip st) = ft_trials st"
  "ft_flipped (flip st)" "open_rung (flip st) = open_rung st"
  by (simp_all add: flip_def open_rung_def fun_eq_iff)

lemma fast_next_open: "fast_next sp st = (st', next) \<Longrightarrow>
    (st' = st \<or> st' = flip st) \<and> (case next of None \<Rightarrow> True | Some i \<Rightarrow> open_rung st i)"
  by (auto simp: fast_next_def Let_def tried_open opt_filter_eq_Some open_rung_def dest!: position_Some
      split: if_splits option.splits)

lemma filter_update_True:
  "i < length xs \<Longrightarrow> \<not> xs ! i \<Longrightarrow> Suc (length (filter Not (xs[i := True]))) = length (filter Not xs)"
proof (induction xs arbitrary: i)
  case (Cons x xs)
  then show ?case by (cases i) auto
qed simp

lemma fast_trial_cases:
  assumes "fast_trial sp trial may st idx = (st', next)"
  obtains "st' = st" "next = None"
  | cand res best won where
      "fast_candidate sp idx = Some cand"
      "ft_measured st' = (ft_measured st)[idx := True]"
      "fast_won idx res (ft_best st) = (best, won)" "ft_best st' = best"
      "res = trial (ft_trials st) cand (map_option (\<lambda>(_, rate). fmul f64 rate PRUNE_RATIO) (ft_best st))"
      "ft_history st' = ft_history st @ [(cand, res)]" "ft_trials st' = ft_trials st + 1"
      "case next of None \<Rightarrow> True | Some i \<Rightarrow> open_rung st' i"
      "ft_trials st < 2 \<or> may (ft_trials st)"
proof (cases "(2 \<le> ft_trials st \<and> \<not> may (ft_trials st)) \<or> fast_candidate sp idx = None")
  case True
  then show ?thesis using assms that(1) by (auto simp: fast_trial_def split: if_splits)
next
  case False
  then obtain cand where cand: "fast_candidate sp idx = Some cand" by auto
  define res where "res = trial (ft_trials st) cand
    (map_option (\<lambda>(_, rate). fmul f64 rate PRUNE_RATIO) (ft_best st))"
  obtain best won where bw: "fast_won idx res (ft_best st) = (best, won)" by fastforce
  define mid where "mid = st\<lparr>ft_trials := ft_trials st + 1, ft_measured := (ft_measured st)[idx := True],
                       ft_best := best, ft_history := ft_history st @ [(cand, res)]\<rparr>"
  have "(if won then fast_next sp (mid\<lparr>ft_at := idx\<rparr>)
              else if best \<noteq> None \<and> \<not> ft_flipped mid then fast_next sp (flip mid)
              else if best \<noteq> None then (mid, None)
              else fast_next sp mid) = (st', next)"
    using assms False cand bw by (auto simp: fast_trial_def Let_def res_def mid_def)
  then have "ft_measured st' = ft_measured mid \<and> ft_best st' = ft_best mid \<and> ft_history st' = ft_history mid \<and>
      ft_trials st' = ft_trials mid \<and> (case next of None \<Rightarrow> True | Some i \<Rightarrow> open_rung st' i)"
    by (auto simp: open_rung_def dest!: fast_next_open split: if_splits option.splits)
  then show ?thesis using cand bw False by (intro that(2)) (auto simp: mid_def res_def)
qed

text \<open>The next rung is always an untried one, so only the first can be measured twice.\<close>

definition walk_measure :: "fast_state \<Rightarrow> nat option \<Rightarrow> nat" where
  "walk_measure st next =
     (case next of None \<Rightarrow> 0 | Some i \<Rightarrow> 2 * untried st + (if open_rung st i then 1 else 2))"

lemma walk_decreases:
  assumes "fast_trial sp trial may st idx = (st', next)"
  shows "walk_measure st' next < walk_measure st (Some idx)"
  using assms
proof (cases rule: fast_trial_cases)
  case 1
  then show ?thesis by (simp add: walk_measure_def)
next
  case 2
  show ?thesis
  proof (cases "open_rung st idx")
    case True
    then have "Suc (untried st') = untried st"
      using 2 filter_update_True [of idx "ft_measured st"] by (simp add: untried_def open_rung_def)
    then show ?thesis using True 2 by (auto simp: walk_measure_def split: option.splits)
  next
    case False
    then have "ft_measured st' = ft_measured st"
      using 2 by (cases "idx < length (ft_measured st)")
        (auto simp: open_rung_def list_update_same_conv list_update_beyond)
    then have "untried st' = untried st" by (simp add: untried_def)
    then show ?thesis using False 2 by (auto simp: walk_measure_def split: option.splits)
  qed
qed

function fast_walk ::
    "fast_space \<Rightarrow> trial_fun \<Rightarrow> (nat \<Rightarrow> bool) \<Rightarrow> fast_state \<Rightarrow> nat option \<Rightarrow> fast_state" where
  "fast_walk sp trial may st None = st"
| "fast_walk sp trial may st (Some idx) =
     (case fast_trial sp trial may st idx of (st', next) \<Rightarrow> fast_walk sp trial may st' next)"
  by pat_completeness auto
termination
  by (relation "measure (\<lambda>(sp, trial, may, st, next). walk_measure st next)")
    (simp_all split: prod.split add: walk_decreases)

definition fast_run :: "fast_space \<Rightarrow> trial_fun \<Rightarrow> (nat \<Rightarrow> bool) \<Rightarrow> report" where
  "fast_run sp trial may =
     (case fast_candidate sp (fs_prior sp) of
        None \<Rightarrow> \<lparr>rep_best = None, rep_history = []\<rparr>
      | Some start \<Rightarrow>
          (if fast_is_fixed sp then \<lparr>rep_best = Some (start, Fin 0), rep_history = []\<rparr>
           else (let st = fast_walk sp trial may
                   \<lparr>ft_measured = replicate (length (fs_ladder sp)) False, ft_best = None,
                    ft_at = fs_prior sp, ft_step = 1, ft_flipped = False, ft_trials = 0,
                    ft_history = []\<rparr> (Some (fs_prior sp))
                 in \<lparr>rep_best = (case ft_best st of None \<Rightarrow> None
                       | Some (idx, rate) \<Rightarrow> map_option (\<lambda>c. (c, rate)) (fast_candidate sp idx)),
                     rep_history = ft_history st\<rparr>)))"

section \<open>What the walk finds\<close>

lemma tie_up_ge_one: "\<exists>c. tie_up = Fin c \<and> 1 \<le> c"
proof -
  have "(case tie_up of Fin c \<Rightarrow> 1 \<le> c | _ \<Rightarrow> False)" by code_simp
  then show ?thesis by (auto split: fl.splits)
qed

lemma beat_mono:
  assumes "rate_ok a" and "rate_ok b" and "fle a b" and "\<not> flt (fmul f64 a tie_up) r"
  shows "\<not> flt (fmul f64 b tie_up) r"
proof -
  obtain c where c: "tie_up = Fin c" "1 \<le> c" using tie_up_ge_one by auto
  then have "fle (fmul f64 a tie_up) (fmul f64 b tie_up)"
    using rate_scale_mono [OF assms(1-3), of c] by simp
  then show ?thesis using assms(4) by (metis fle_not_NaN fle_trans flt_iff)
qed

lemma beat_up: "rate_ok a \<Longrightarrow> flt (fmul f64 a tie_up) r \<Longrightarrow> fle a r"
  using rate_scale_up [of a] tie_up_ge_one by (metis flt_def fle_trans)

lemma not_beats_itself: "rate_ok a \<Longrightarrow> \<not> flt (fmul f64 a tie_up) a"
  using rate_scale_up [of a] tie_up_ge_one by (metis flt_def)

text \<open>The leader was measured, and no trial so far beats it by more than the tie margin.\<close>

definition leads :: "(tune_candidate \<times> trial_outcome) list \<Rightarrow> (tune_candidate \<times> fl) option \<Rightarrow> bool" where
  "leads hist best =
     (case best of
        None \<Rightarrow> (\<forall>c r. (c, Measured r) \<notin> set hist)
      | Some (c, r) \<Rightarrow> rate_ok r \<and> (c, Measured r) \<in> set hist \<and>
          (\<forall>c' r'. (c', Measured r') \<in> set hist \<longrightarrow> \<not> flt (fmul f64 r tie_up) r'))"

text \<open>The first candidate, unless another one beat it by more than the tie margin.\<close>

definition keeps_prior :: "(tune_candidate \<times> trial_outcome) list \<Rightarrow> (tune_candidate \<times> fl) option \<Rightarrow> bool" where
  "keeps_prior hist best =
     (case hist of
        (c0, Measured r0) # _ \<Rightarrow>
          (case best of None \<Rightarrow> False | Some (c, r) \<Rightarrow> (c, r) = (c0, r0) \<or> flt (fmul f64 r0 tie_up) r)
      | _ \<Rightarrow> True)"

definition best_cand :: "fast_space \<Rightarrow> (nat \<times> fl) option \<Rightarrow> (tune_candidate \<times> fl) option" where
  "best_cand sp best = (case best of None \<Rightarrow> None
     | Some (idx, rate) \<Rightarrow> map_option (\<lambda>c. (c, rate)) (fast_candidate sp idx))"

lemma leads_won:
  assumes "leads hist (best_cand sp best)" and "fast_candidate sp idx = Some cand"
    and "outcome_ok res" and "fast_won idx res best = (best', won)"
    and "\<And>i r. best = Some (i, r) \<Longrightarrow> fast_candidate sp i \<noteq> None"
  shows "leads (hist @ [(cand, res)]) (best_cand sp best')"
proof (cases best)
  case None
  then show ?thesis using assms
    by (cases res) (auto simp: leads_def best_cand_def fast_won_def not_beats_itself)
next
  case (Some b)
  obtain i r c where b: "b = (i, r)" "fast_candidate sp i = Some c"
    using assms(5) Some by (cases b) auto
  have old: "rate_ok r" "(c, Measured r) \<in> set hist"
      "\<And>c' r'. (c', Measured r') \<in> set hist \<Longrightarrow> \<not> flt (fmul f64 r tie_up) r'"
    using assms(1) Some b by (auto simp: leads_def best_cand_def)
  show ?thesis
  proof (cases "\<exists>r'. res = Measured r' \<and> flt (fmul f64 r tie_up) r'")
    case True
    then obtain r' where r': "res = Measured r'" "flt (fmul f64 r tie_up) r'" by auto
    then have "best' = Some (idx, r')" "rate_ok r'"
      using assms(3,4) Some b by (auto simp: fast_won_def)
    moreover have "fle r r'" using beat_up old(1) r'(2) by blast
    ultimately show ?thesis
      using old r' assms(2) beat_mono [OF old(1) \<open>rate_ok r'\<close> \<open>fle r r'\<close>]
      by (auto simp: leads_def best_cand_def not_beats_itself)
  next
    case False
    then have "best' = best"
      using assms(4) Some b by (auto simp: fast_won_def split: trial_outcome.splits if_splits)
    then show ?thesis using old False Some b by (auto simp: leads_def best_cand_def)
  qed
qed

lemma flt_up_trans:
  assumes "flt (fmul f64 a tie_up) b" and "rate_ok b" and "flt (fmul f64 b tie_up) r"
  shows "flt (fmul f64 a tie_up) r"
  using beat_up [OF assms(2,3)] assms(1) by (metis fle_trans flt_def)

lemma keeps_prior_won:
  assumes "keeps_prior hist (best_cand sp best)" and "fast_candidate sp idx = Some cand"
    and "leads hist (best_cand sp best)" and "fast_won idx res best = (best', won)"
    and "\<And>i r. best = Some (i, r) \<Longrightarrow> fast_candidate sp i \<noteq> None"
    and "hist = [] \<Longrightarrow> best = None"
  shows "keeps_prior (hist @ [(cand, res)]) (best_cand sp best')"
proof (cases hist)
  case Nil
  then show ?thesis using assms(2,4,6)
    by (cases res) (auto simp: keeps_prior_def best_cand_def fast_won_def)
next
  case (Cons h hist')
  show ?thesis
  proof (cases "\<exists>r0. snd h = Measured r0")
    case False
    then show ?thesis using Cons by (cases h) (auto simp: keeps_prior_def split: trial_outcome.splits)
  next
    case True
    then obtain c0 r0 where h: "h = (c0, Measured r0)" by (cases h) auto
    then obtain i r c where b: "best = Some (i, r)" "fast_candidate sp i = Some c" "rate_ok r"
        "(c, r) = (c0, r0) \<or> flt (fmul f64 r0 tie_up) r"
      using assms(1,3) Cons
      by (auto simp: keeps_prior_def best_cand_def leads_def split: option.splits prod.splits)
    have "best' = best \<or> (\<exists>r'. best' = Some (idx, r') \<and> flt (fmul f64 r tie_up) r')"
      using assms(4) b by (auto simp: fast_won_def split: trial_outcome.splits if_splits)
    then show ?thesis
      using b assms(2) Cons h flt_up_trans [OF _ b(3)]
      by (auto simp: keeps_prior_def best_cand_def)
  qed
qed

definition walk_inv :: "fast_space \<Rightarrow> fast_state \<Rightarrow> nat list \<Rightarrow> bool" where
  "walk_inv sp st idxs =
     (length (ft_measured st) = length (fs_ladder sp) \<and> distinct idxs \<and>
      set idxs = {i. i < length (ft_measured st) \<and> ft_measured st ! i} \<and>
      map (\<lambda>h. Some (fst h)) (ft_history st) = map (fast_candidate sp) idxs \<and>
      (\<forall>i r. ft_best st = Some (i, r) \<longrightarrow> i \<in> set idxs) \<and>
      leads (ft_history st) (best_cand sp (ft_best st)) \<and>
      keeps_prior (ft_history st) (best_cand sp (ft_best st)))"

lemma fast_candidate_in: "i < length (fs_ladder sp) \<longleftrightarrow> fast_candidate sp i \<noteq> None"
  by (simp add: fast_candidate_def get_at_def)

lemma walk_inv_trial:
  assumes "walk_inv sp st idxs" and "open_rung st idx" and "\<And>n c f. outcome_ok (trial n c f)"
    and "fast_trial sp trial may st idx = (st', next)"
  shows "\<exists>idxs'. (idxs' = idxs \<or> idxs' = idxs @ [idx]) \<and> walk_inv sp st' idxs' \<and>
    (case next of None \<Rightarrow> True | Some i \<Rightarrow> open_rung st' i)"
  using assms(4)
proof (cases rule: fast_trial_cases)
  case 1
  then show ?thesis using assms(1) by auto
next
  case (2 cand res best won)
  note inv = assms(1) [unfolded walk_inv_def]
  have defined: "\<And>i r. ft_best st = Some (i, r) \<Longrightarrow> fast_candidate sp i \<noteq> None"
    using inv fast_candidate_in by auto
  have ok: "outcome_ok res" using assms(3) 2(5) by simp
  have idx: "idx < length (ft_measured st)" "\<not> ft_measured st ! idx"
    using assms(2) by (simp_all add: open_rung_def)
  have "ft_history st = [] \<Longrightarrow> ft_best st = None" using inv by (cases "ft_best st") auto
  then have "keeps_prior (ft_history st') (best_cand sp (ft_best st'))"
    using inv defined 2 by (auto intro: keeps_prior_won)
  moreover have "leads (ft_history st') (best_cand sp (ft_best st'))"
    using inv defined 2 ok by (auto intro: leads_won)
  moreover have "best = ft_best st \<or> (\<exists>r. best = Some (idx, r))"
    using 2(3) by (auto simp: fast_won_def split: trial_outcome.splits option.splits if_splits)
  moreover have "set (idxs @ [idx]) = {i. i < length (ft_measured st') \<and> ft_measured st' ! i}"
    using inv 2(2) idx by (auto simp: nth_list_update)
  ultimately have "walk_inv sp st' (idxs @ [idx])"
    using inv 2 idx by (auto simp: walk_inv_def)
  then show ?thesis using 2(8) by blast
qed

lemma fast_walk_inv:
  assumes "walk_inv sp st idxs" and "case next of None \<Rightarrow> True | Some i \<Rightarrow> open_rung st i"
    and "\<And>n c f. outcome_ok (trial n c f)"
  shows "\<exists>more. walk_inv sp (fast_walk sp trial may st next) (idxs @ more)"
  using assms
proof (induction sp trial may st "next" arbitrary: idxs rule: fast_walk.induct)
  case (1 sp trial may st)
  then show ?case by (auto intro: exI [of _ "[]"])
next
  case (2 sp trial may st idx)
  obtain st' next' where step: "fast_trial sp trial may st idx = (st', next')" by fastforce
  obtain idxs' where idxs': "idxs' = idxs \<or> idxs' = idxs @ [idx]" "walk_inv sp st' idxs'"
      "case next' of None \<Rightarrow> True | Some i \<Rightarrow> open_rung st' i"
    using walk_inv_trial [OF 2(2) _ 2(4) step] 2(3) by auto
  obtain more where "walk_inv sp (fast_walk sp trial may st' next') (idxs' @ more)"
    using 2(1) [OF step [symmetric] idxs'(2,3) 2(4)] by auto
  then show ?case using idxs'(1) step by (auto simp: append_assoc)
qed

lemma walk_budget:
  assumes "ft_trials st = length (ft_history st)"
    and "\<forall>n. 2 \<le> n \<and> n < length (ft_history st) \<longrightarrow> may n"
  shows "\<forall>n. 2 \<le> n \<and> n < length (ft_history (fast_walk sp trial may st next)) \<longrightarrow> may n"
  using assms
proof (induction sp trial may st "next" rule: fast_walk.induct)
  case (1 sp trial may st)
  then show ?case by simp
next
  case (2 sp trial may st idx)
  obtain st' next' where step: "fast_trial sp trial may st idx = (st', next')" by fastforce
  from step have "ft_trials st' = length (ft_history st') \<and>
      (\<forall>n. 2 \<le> n \<and> n < length (ft_history st') \<longrightarrow> may n)"
  proof (cases rule: fast_trial_cases)
    case 1
    then show ?thesis using 2 by simp
  next
    case (2 cand res best won)
    then show ?thesis using "2.prems" by (auto simp: less_Suc_eq)
  qed
  then show ?case using 2(1) [OF step [symmetric]] step by simp
qed

lemma fast_trial_first:
  assumes "ft_trials st < 2" and "fast_candidate sp idx = Some cand"
    and "fast_trial sp trial may st idx = (st', next)"
  shows "ft_history st' \<noteq> []"
  using assms
  by (auto simp: fast_trial_def Let_def dest!: fast_next_open split: prod.splits if_splits)

text \<open>C19. The fast search measures the prior first, then never the same rung twice, and a third or later
  trial only when the budget allowed it.  Its winner was measured in full and no trial beats it by more
  than the tie margin; the prior wins unless another split beats it by more than that; without a
  winner no trial was measured in full.\<close>

theorem fast_search_exact:
  assumes "\<And>n c f. outcome_ok (trial n c f)"
    and "\<not> fast_is_fixed sp" and "fs_prior sp < length (fs_ladder sp)"
  shows "\<exists>more. distinct (fs_prior sp # more) \<and>
    map (\<lambda>h. Some (fst h)) (rep_history (fast_run sp trial may)) =
      map (fast_candidate sp) (fs_prior sp # more) \<and>
    (\<forall>n. 2 \<le> n \<and> n < length (rep_history (fast_run sp trial may)) \<longrightarrow> may n) \<and>
    leads (rep_history (fast_run sp trial may)) (rep_best (fast_run sp trial may)) \<and>
    keeps_prior (rep_history (fast_run sp trial may)) (rep_best (fast_run sp trial may))"
proof -
  define st0 where "st0 = \<lparr>ft_measured = replicate (length (fs_ladder sp)) False, ft_best = None,
      ft_at = fs_prior sp, ft_step = 1, ft_flipped = False, ft_trials = 0, ft_history = []\<rparr>"
  define st where "st = fast_walk sp trial may st0 (Some (fs_prior sp))"
  obtain start where start: "fast_candidate sp (fs_prior sp) = Some start"
    using assms(3) fast_candidate_in by blast
  have run: "rep_history (fast_run sp trial may) = ft_history st"
      "rep_best (fast_run sp trial may) = best_cand sp (ft_best st)"
    using start assms(2) by (simp_all add: fast_run_def Let_def st_def st0_def best_cand_def)
  have inv0: "walk_inv sp st0 []"
    by (auto simp: walk_inv_def st0_def leads_def keeps_prior_def best_cand_def)
  have open0: "open_rung st0 (fs_prior sp)" using assms(3) by (simp add: open_rung_def st0_def)
  obtain st1 next1 where step: "fast_trial sp trial may st0 (fs_prior sp) = (st1, next1)" by fastforce
  obtain idxs where idxs: "idxs = [] \<or> idxs = [] @ [fs_prior sp]" "walk_inv sp st1 idxs"
      "case next1 of None \<Rightarrow> True | Some i \<Rightarrow> open_rung st1 i"
    using walk_inv_trial [OF inv0 open0 assms(1) step] by blast
  have "ft_history st1 \<noteq> []" using fast_trial_first [OF _ start step] by (simp add: st0_def)
  then have "idxs = [fs_prior sp]" using idxs by (auto simp: walk_inv_def)
  moreover have "\<exists>more. walk_inv sp (fast_walk sp trial may st1 next1) (idxs @ more)"
    using idxs(2,3) assms(1) by (rule fast_walk_inv)
  ultimately obtain more where "walk_inv sp st (fs_prior sp # more)"
    using step by (auto simp: st_def)
  moreover have "\<forall>n. 2 \<le> n \<and> n < length (ft_history st) \<longrightarrow> may n"
    unfolding st_def by (rule walk_budget) (simp_all add: st0_def)
  ultimately show ?thesis unfolding run walk_inv_def by blast
qed

definition example_space :: fast_space where
  "example_space = fast_space_new [] 2300 Rocm (Some 4608)"

definition example_rate :: "tune_candidate \<Rightarrow> rat" where
  "example_rate c = (if cand_servers c = Some 8 then 13 else 12)"

lemma fast_search_exact_witness:
  "\<exists>more. distinct (3 # more) \<and>
     map (\<lambda>h. Some (fst h)) (rep_history (fast_run example_space
        (\<lambda>n c f. Measured (Fin (example_rate c))) (\<lambda>n. True))) = map (fast_candidate example_space) (3 # more)"
proof -
  have "outcome_ok (Measured (Fin (example_rate c)))" for c
    using rate_ok_of_nat [of 12] rate_ok_of_nat [of 13] by (simp add: example_rate_def)
  moreover have "fs_prior example_space = 3" and "length (fs_ladder example_space) = 5"
    by (simp_all add: example_space_def fast_space_new_def in_flight_def floor_pow2_def leading_zeros_def
        bit_length.simps u32_max_def Let_def fast_ladder_def pinned_num_def ov_get_map_of SERVER_LADDER_def
        MIN_BATCH_def rposition_def ROCM_PRIOR_def)
  ultimately show ?thesis
    using fast_search_exact [of "\<lambda>n c f. Measured (Fin (example_rate c))" example_space "\<lambda>n. True"]
    by (auto simp: fast_is_fixed_def)
qed

section \<open>The search space\<close>

lemma bit_length_bounds: "0 < n \<Longrightarrow> 1 \<le> bit_length n \<and> 2 ^ (bit_length n - 1) \<le> n \<and> n < 2 ^ bit_length n"
proof (induction n rule: bit_length.induct)
  case (1 n)
  show ?case
  proof (cases "n div 2 = 0")
    case True
    then have "n = 1" using 1(2) by simp
    then show ?thesis by (simp add: bit_length.simps)
  next
    case False
    define b where "b = bit_length (n div 2)"
    have bl: "bit_length n = Suc b" using 1(2) by (simp add: bit_length.simps [of n] b_def)
    have b: "1 \<le> b" "2 ^ (b - 1) \<le> n div 2" "n div 2 < 2 ^ b"
      using 1 False by (simp_all add: b_def)
    have "(2::nat) ^ b = 2 * 2 ^ (b - 1)" using b(1) by (simp flip: power_Suc)
    then show ?thesis using b bl by (simp add: div_less_iff_less_mult)
  qed
qed

lemma floor_pow2_le:
  assumes "num \<le> u32_max" shows "floor_pow2 num \<le> num"
proof (cases "num = 0")
  case False
  have "(2::nat) ^ (bit_length num - 1) < 2 ^ 32"
    using bit_length_bounds [of num] False assms by (simp add: u32_max_def)
  then have "bit_length num - 1 < 32" by (simp only: power_strict_increasing_iff)
  then have "31 - leading_zeros num = bit_length num - 1" by (simp add: leading_zeros_def)
  then show ?thesis using bit_length_bounds [of num] False by (simp add: floor_pow2_def)
qed (simp add: floor_pow2_def)

lemma pow2_between:
  assumes "64 \<le> n" and "n \<le> 512" and "n = 2 ^ k" shows "n \<in> {64, 128, 256, 512 :: nat}"
proof -
  have "(2::nat) ^ 6 \<le> 2 ^ k" and "(2::nat) ^ k \<le> 2 ^ 9" using assms by simp_all
  then have "6 \<le> k" and "k \<le> 9" by (simp_all only: power_increasing_iff)
  then have "k = 6 \<or> k = 7 \<or> k = 8 \<or> k = 9" by linarith
  then show ?thesis using assms(3) by auto
qed

lemma in_flight_values: "in_flight lanes depth \<in> {64, 128, 256, 512}"
proof -
  have power: "\<exists>k. floor_pow2 n = 2 ^ k" if "0 < floor_pow2 n" for n
    using that by (auto simp: floor_pow2_def split: if_splits)
  define want where "want = (case lanes of None \<Rightarrow> 256
                   | Some l \<Rightarrow> min (max (floor_pow2 (l div 16)) 128) 512)"
  define room where "room = max (floor_pow2 (if depth \<le> u32_max then depth else u32_max)) 64"
  have "\<exists>k. want = 2 ^ k"
    using power [of "the lanes div 16"] power_Suc0_right
    by (auto simp: want_def max_def min_def split: option.splits intro: exI [of _ 7] exI [of _ 8] exI [of _ 9])
  moreover have "\<exists>k. room = 2 ^ k"
    using power [of "if depth \<le> u32_max then depth else u32_max"]
    by (auto simp: room_def max_def intro: exI [of _ 6])
  moreover have "in_flight lanes depth = min want room" by (simp add: in_flight_def Let_def want_def room_def)
  moreover have "128 \<le> want" "want \<le> 512" "64 \<le> room"
    by (auto simp: want_def room_def split: option.splits)
  ultimately have "64 \<le> in_flight lanes depth" "in_flight lanes depth \<le> 512"
      "\<exists>k. in_flight lanes depth = 2 ^ k"
    by (auto simp: min_def)
  then show ?thesis using pow2_between by blast
qed

lemma in_flight_depth: "in_flight lanes depth \<le> max 64 depth"
  using floor_pow2_le [of "if depth \<le> u32_max then depth else u32_max"]
  by (auto simp: in_flight_def Let_def min_def max_def split: if_splits)

lemma full_ladder:
  assumes "n \<in> {64, 128, 256, 512}"
  shows "map (\<lambda>srv. (Some srv, Some (batch_cap n srv))) (filter (\<lambda>srv. srv = 1 \<or> MIN_BATCH \<le> n div srv) SERVER_LADDER)
     = (if n = 64 then [(Some 1, Some 64), (Some 2, Some 64), (Some 4, Some 64), (Some 8, Some 64)]
        else if n = 128 then [(Some 1, Some 128), (Some 2, Some 64), (Some 4, Some 64), (Some 8, Some 64), (Some 16, Some 64)]
        else if n = 256 then [(Some 1, Some 256), (Some 2, Some 128), (Some 4, Some 64), (Some 8, Some 64), (Some 16, Some 64)]
        else [(Some 1, Some 512), (Some 2, Some 256), (Some 4, Some 128), (Some 8, Some 64), (Some 16, Some 64)])"
  using assms by (auto simp: SERVER_LADDER_def MIN_BATCH_def batch_cap_def HEADROOM_BATCH_def)

definition rung_ok :: "nat \<Rightarrow> nat option \<times> nat option \<Rightarrow> bool" where
  "rung_ok n rung =
     (knob_ok (fst rung) \<and> knob_ok (snd rung) \<and>
      (case rung of (Some s, Some b) \<Rightarrow> n \<le> s * b \<and> b \<le> n \<and> 64 \<le> b | _ \<Rightarrow> True))"

lemma fast_ladder_ok:
  assumes "n \<in> {64, 128, 256, 512}"
  shows "fast_ladder pinned n \<noteq> [] \<and> list_all (rung_ok n) (fast_ladder pinned n)"
proof -
  have cap: "knob_ok (Some (batch_cap n s))" for s
  proof -
    have "n \<le> 512" using assms by auto
    then have "n div s \<le> 512" using div_le_dividend [of n s] by (rule le_trans [rotated])
    then show ?thesis using assms by (auto simp: knob_ok_def batch_cap_def HEADROOM_BATCH_def u32_max_def)
  qed
  have share: "knob_ok (Some (max (n div b) 1))" for b
  proof -
    have "n \<le> 512" using assms by auto
    then have "n div b \<le> 512" using div_le_dividend [of n b] by (rule le_trans [rotated])
    then show ?thesis by (auto simp: knob_ok_def u32_max_def)
  qed
  have none: "knob_ok None" by (simp add: knob_ok_def)
  have opts: "knob_ok (map_option (batch_cap n) x)" "knob_ok (map_option (\<lambda>b. max (n div b) 1) x)" for x
    using cap share none by (cases x; simp)+
  have "list_all (rung_ok n) (map (\<lambda>srv. (Some srv, Some (batch_cap n srv)))
      (filter (\<lambda>srv. srv = 1 \<or> MIN_BATCH \<le> n div srv) SERVER_LADDER))"
    unfolding full_ladder [OF assms] using assms by (auto simp: rung_ok_def knob_ok_def u32_max_def)
  moreover have "filter (\<lambda>srv. srv = 1 \<or> MIN_BATCH \<le> n div srv) SERVER_LADDER \<noteq> []"
    by (simp add: SERVER_LADDER_def)
  ultimately show ?thesis
    using opts none by (auto simp: fast_ladder_def rung_ok_def split: option.splits)
qed

lemma rposition_less: "rposition p xs = Some i \<Longrightarrow> i < length xs"
  by (cases xs) (auto simp: rposition_def dest!: position_Some)

lemma fast_space_facts:
  "let sp = fast_space_new pinned depth backend lanes in
     fs_total sp \<in> {64, 128, 256, 512} \<and> fs_total sp \<le> max 64 depth \<and>
     fs_prior sp < length (fs_ladder sp) \<and> list_all (rung_ok (fs_total sp)) (fs_ladder sp) \<and>
     list_all (\<lambda>idx. case fast_candidate sp idx of None \<Rightarrow> False | Some c \<Rightarrow> cand_ok c)
       [0..<length (fs_ladder sp)]"
proof -
  define sp where "sp = fast_space_new pinned depth backend lanes"
  have tot: "fs_total sp = in_flight lanes depth" by (simp add: sp_def fast_space_new_def Let_def)
  have ladder: "fs_ladder sp = fast_ladder pinned (fs_total sp)"
    by (simp add: sp_def fast_space_new_def Let_def)
  have vals: "fs_total sp \<in> {64, 128, 256, 512}" unfolding tot by (rule in_flight_values)
  have rungs: "fs_ladder sp \<noteq> []" "list_all (rung_ok (fs_total sp)) (fs_ladder sp)"
    using fast_ladder_ok [OF vals] ladder by simp_all
  have "fs_prior sp < length (fs_ladder sp)"
    using rungs(1) rposition_less
    by (auto simp: sp_def fast_space_new_def Let_def opt_else_def split: option.splits)
  moreover have "knob_ok (fs_threads sp)"
    using vals by (auto simp: sp_def fast_space_new_def Let_def knob_ok_def u32_max_def)
  then have "list_all (\<lambda>idx. case fast_candidate sp idx of None \<Rightarrow> False | Some c \<Rightarrow> cand_ok c)
       [0..<length (fs_ladder sp)]"
    using rungs(2) by (auto simp: list_all_length fast_candidate_def get_at_def cand_ok_def rung_ok_def
        split: prod.splits)
  ultimately show ?thesis
    using vals rungs(2) in_flight_depth [of lanes depth] tot unfolding Let_def sp_def [symmetric] by auto
qed

lemma fast_run_best:
  assumes "rep_best (fast_run (fast_space_new pinned depth backend lanes) trial may) = Some (c, r)"
  shows "cand_ok c"
proof -
  define sp where "sp = fast_space_new pinned depth backend lanes"
  obtain idx where "fast_candidate sp idx = Some c"
    using assms unfolding sp_def [symmetric]
    by (auto simp: fast_run_def Let_def split: option.splits if_splits)
  moreover from this have "idx < length (fs_ladder sp)" using fast_candidate_in by auto
  ultimately show ?thesis
    using fast_space_facts [of pinned depth backend lanes]
    by (auto simp: Let_def list_all_iff dest!: bspec [of _ _ idx] simp flip: sp_def)
qed

text \<open>The fast search space is well formed whatever is pinned: 64 to 512 positions in flight, never
  more than the queue holds (or 64); a prior on the ladder; candidates whose knobs are positive 32-bit
  values; and where both knobs vary, server threads times batch cap cover the positions in flight.\<close>

lemma fast_space_sound:
  "let sp = fast_space_new pinned depth backend lanes in
     fs_total sp \<in> {64, 128, 256, 512} \<and> fs_total sp \<le> max 64 depth \<and>
     fs_prior sp < length (fs_ladder sp) \<and> list_all (rung_ok (fs_total sp)) (fs_ladder sp) \<and>
     list_all (\<lambda>idx. case fast_candidate sp idx of None \<Rightarrow> False | Some c \<Rightarrow> cand_ok c)
       [0..<length (fs_ladder sp)]"
  by (rule fast_space_facts)

end
