(* ===== verification/Autotune_Thorough.thy ===== *)
theory Autotune_Thorough
  imports Autotune_Search
begin

text \<open>
  The thorough search (\<open>src/src/engine/autotune/thorough.rs\<close>): every server and batch candidate, then
  the analysis threads around the winner, near-ties measured again.  The trials seen so far are the
  history, so the next trial's number is its length.
\<close>

section \<open>Model\<close>

definition ANALYSIS_CANDIDATES :: "nat list" where "ANALYSIS_CANDIDATES = [256, 128, 512]"

definition ROCM_SERVER_BATCH :: "(nat \<times> nat) list" where
  "ROCM_SERVER_BATCH = [(8, 64), (4, 96), (4, 64), (8, 32)]"

definition WGPU_SERVER_BATCH :: "(nat \<times> nat) list" where
  "WGPU_SERVER_BATCH = [(4, 64), (8, 32), (6, 48), (2, 128)]"

definition PRUNE_FRACTION :: fl where "PRUNE_FRACTION = lit f64 (92 / 100)"
definition CLOSE :: fl where "CLOSE = lit f64 (8 / 100)"
definition TIE_MARGIN :: fl where "TIE_MARGIN = lit f64 (3 / 100)"

record thorough_space =
  ts_analysis :: "nat option list"
  ts_server_batch :: "(nat option \<times> nat option) list"

definition dedup :: "'a list \<Rightarrow> 'a list" where
  "dedup items = fold (\<lambda>item out. if item \<in> set out then out else out @ [item]) items []"

definition thorough_space_new :: "overrides \<Rightarrow> nat \<Rightarrow> engine_backend \<Rightarrow> thorough_space" where
  "thorough_space_new pinned depth backend =
     (let pairs = (if backend = Rocm then ROCM_SERVER_BATCH else WGPU_SERVER_BATCH);
          analysis =
            (if ov_get pinned ANALYSIS_THREADS \<noteq> None then [None]
             else map (\<lambda>(_, threads). Some threads)
                    (filter (\<lambda>(idx, threads). idx = 0 \<or> threads \<le> depth)
                       (enumerate 0 ANALYSIS_CANDIDATES)));
          server_batch =
            (case (ov_get pinned SERVER_THREADS \<noteq> None, ov_get pinned BATCH_SIZE \<noteq> None) of
               (True, True) \<Rightarrow> [(None, None)]
             | (True, False) \<Rightarrow> dedup (map (\<lambda>(_, batch). (None, Some batch)) pairs)
             | (False, True) \<Rightarrow> dedup (map (\<lambda>(srv, _). (Some srv, None)) pairs)
             | (False, False) \<Rightarrow> map (\<lambda>(srv, batch). (Some srv, Some batch)) pairs)
      in \<lparr>ts_analysis = analysis, ts_server_batch = server_batch\<rparr>)"

definition is_fully_pinned :: "thorough_space \<Rightarrow> bool" where
  "is_fully_pinned sp = (length (ts_analysis sp) \<le> 1 \<and> length (ts_server_batch sp) \<le> 1)"

definition thorough_first :: "thorough_space \<Rightarrow> tune_candidate" where
  "thorough_first sp =
     (case opt_else (None, None) (get_at (ts_server_batch sp) 0) of
        (servers, batch) \<Rightarrow>
          \<lparr>cand_threads = opt_else None (get_at (ts_analysis sp) 0),
           cand_servers = servers, cand_batch = batch\<rparr>)"

text \<open>\<open>iter().sum()\<close> adds in order from zero.\<close>

definition mean :: "fl list \<Rightarrow> fl" where
  "mean samples =
     (if samples = [] then Fin 0
      else fdiv f64 (foldl (fadd f64) (Fin 0) samples) (of_nat_fl f64 (length samples)))"

type_synonym scored = "(tune_candidate \<times> fl list) list"

definition best_mean :: "scored \<Rightarrow> fl" where
  "best_mean scored = foldl fmax (Fin 0) (map (\<lambda>(_, samples). mean samples) scored)"

definition measure_cand ::
    "trial_fun \<Rightarrow> tune_candidate \<Rightarrow> scored \<times> (tune_candidate \<times> trial_outcome) list
       \<Rightarrow> scored \<times> (tune_candidate \<times> trial_outcome) list" where
  "measure_cand trial cand s =
     (let best = best_mean (fst s);
          prune_below = (if flt (Fin 0) best then Some (fmul f64 best PRUNE_FRACTION) else None);
          res = trial (length (snd s)) cand prune_below
      in ((case res of Measured rate \<Rightarrow> fst s @ [(cand, [rate])] | _ \<Rightarrow> fst s),
          snd s @ [(cand, res)]))"

definition close_down :: fl where "close_down = fsub f64 (Fin 1) CLOSE"
definition tie_down :: fl where "tie_down = fsub f64 (Fin 1) TIE_MARGIN"

definition contenders :: "scored \<Rightarrow> nat list" where
  "contenders scored =
     (let leader = best_mean scored in
      map fst (filter (\<lambda>(_, _, samples). fle (fmul f64 leader close_down) (mean samples))
                 (enumerate 0 scored)))"

definition remeasure ::
    "trial_fun \<Rightarrow> nat \<Rightarrow> scored \<times> (tune_candidate \<times> trial_outcome) list
       \<Rightarrow> scored \<times> (tune_candidate \<times> trial_outcome) list" where
  "remeasure trial idx s =
     (case get_at (fst s) idx of
        None \<Rightarrow> s
      | Some (cand, samples) \<Rightarrow>
          (let res = trial (length (snd s)) cand None in
           ((case res of Measured rate \<Rightarrow> (fst s)[idx := (cand, samples @ [rate])] | _ \<Rightarrow> fst s),
            snd s @ [(cand, res)])))"

definition pick :: "scored \<Rightarrow> (tune_candidate \<times> fl list) option" where
  "pick scored =
     (let lead = best_mean scored in
      List.find (\<lambda>(_, samples). flt (Fin 0) lead \<and> fle (fmul f64 lead tie_down) (mean samples)) scored)"

definition stage_scored ::
    "trial_fun \<Rightarrow> tune_candidate list \<Rightarrow> (tune_candidate \<times> fl list) option \<Rightarrow> (tune_candidate \<times> trial_outcome) list
       \<Rightarrow> scored \<times> (tune_candidate \<times> trial_outcome) list" where
  "stage_scored trial cands incumbent hist =
     (let s = fold (measure_cand trial) cands ((case incumbent of None \<Rightarrow> [] | Some i \<Rightarrow> [i]), hist);
          close = contenders (fst s)
      in if 1 < length close then fold (remeasure trial) close s else s)"

definition stage ::
    "trial_fun \<Rightarrow> tune_candidate list \<Rightarrow> (tune_candidate \<times> fl list) option \<Rightarrow> (tune_candidate \<times> trial_outcome) list
       \<Rightarrow> (tune_candidate \<times> fl list) option \<times> (tune_candidate \<times> trial_outcome) list" where
  "stage trial cands incumbent hist =
     (case stage_scored trial cands incumbent hist of (scored, hist) \<Rightarrow> (pick scored, hist))"

definition stage_a :: "thorough_space \<Rightarrow> tune_candidate list" where
  "stage_a sp = map (\<lambda>(servers, batch). (thorough_first sp)\<lparr>cand_servers := servers, cand_batch := batch\<rparr>)
     (ts_server_batch sp)"

definition stage_b :: "thorough_space \<Rightarrow> tune_candidate \<Rightarrow> tune_candidate list" where
  "stage_b sp leader = map (\<lambda>threads. leader\<lparr>cand_threads := threads\<rparr>) (drop 1 (ts_analysis sp))"

definition thorough_run :: "thorough_space \<Rightarrow> trial_fun \<Rightarrow> report" where
  "thorough_run sp trial =
     (if is_fully_pinned sp then \<lparr>rep_best = Some (thorough_first sp, Fin 0), rep_history = []\<rparr>
      else (case stage trial (stage_a sp) None [] of
        (None, hist) \<Rightarrow> \<lparr>rep_best = None, rep_history = hist\<rparr>
      | (Some leader, hist) \<Rightarrow>
          (case stage trial (stage_b sp (fst leader)) (Some leader) hist of
             (winner, hist) \<Rightarrow>
               \<lparr>rep_best = map_option (\<lambda>(cand, samples). (cand, mean samples)) winner,
                rep_history = hist\<rparr>)))"

section \<open>Means and the pick\<close>

definition scored_ok :: "scored \<Rightarrow> bool" where
  "scored_ok scored = (\<forall>e \<in> set scored. \<forall>r \<in> set (snd e). rate_ok r)"

lemma mean_ok:
  assumes "\<forall>r \<in> set samples. rate_ok r" and "length samples \<le> 2 ^ 53"
  shows "rate_ok (mean samples)"
proof (cases "samples = []")
  case False
  have "rate_ok (foldl (fadd f64) acc rs)" if "rate_ok acc" "\<forall>r \<in> set rs. rate_ok r" for acc rs
    using that by (induction rs arbitrary: acc) (simp_all add: rate_ok_add)
  then have "rate_ok (foldl (fadd f64) (Fin 0) samples)" using assms(1) by simp
  moreover have "of_nat_fl f64 (length samples) = Fin (of_nat (length samples))"
    using assms(2) by (simp add: of_nat_fl_def rnd_of_nat)
  ultimately show ?thesis using False by (simp add: mean_def rate_ok_div)
qed (simp add: mean_def)

lemma fmax_ok: "rate_ok a \<Longrightarrow> rate_ok b \<Longrightarrow> rate_ok (fmax a b)"
  by (auto simp: fmax_def)

lemma fmax_fold:
  assumes "rate_ok acc" and "\<forall>r \<in> set rs. rate_ok r"
  shows "rate_ok (foldl fmax acc rs) \<and> foldl fmax acc rs \<in> insert acc (set rs) \<and>
    (\<forall>r \<in> insert acc (set rs). fle r (foldl fmax acc rs))"
  using assms
proof (induction rs arbitrary: acc)
  case Nil
  then show ?case by (auto simp: rate_ok_iff fle_refl)
next
  case (Cons r rs)
  have ok: "rate_ok (fmax acc r)" using Cons.prems by (simp add: fmax_ok)
  note ih = Cons.IH [OF ok]
  have "acc \<noteq> NaN" "r \<noteq> NaN" using Cons.prems by (auto simp: rate_ok_iff)
  then have "fle acc (fmax acc r)" "fle r (fmax acc r)" "fmax acc r = acc \<or> fmax acc r = r"
    using fle_total [of acc r] by (auto simp: fmax_def fle_refl)
  then show ?case using ih Cons.prems(2) by (auto intro: fle_trans)
qed

definition short :: "scored \<Rightarrow> bool" where
  "short scored = (\<forall>e \<in> set scored. length (snd e) \<le> 2 ^ 53)"

lemma best_mean_ok:
  assumes "scored_ok scored" and "short scored"
  shows "rate_ok (best_mean scored) \<and> (\<forall>e \<in> set scored. fle (mean (snd e)) (best_mean scored)) \<and>
    (flt (Fin 0) (best_mean scored) \<longrightarrow> (\<exists>e \<in> set scored. mean (snd e) = best_mean scored))"
proof -
  have "rate_ok (mean (snd e))" if "e \<in> set scored" for e
    using assms that unfolding scored_ok_def short_def by (intro mean_ok) auto
  then have "\<forall>r \<in> set (map (\<lambda>(_, samples). mean samples) scored). rate_ok r" by auto
  note fold = fmax_fold [OF rate_ok_zero this, folded best_mean_def]
  have "\<exists>e \<in> set scored. mean (snd e) = best_mean scored" if "flt (Fin 0) (best_mean scored)"
  proof -
    have "best_mean scored \<noteq> Fin 0" using that by (auto simp: flt_def)
    then have "best_mean scored \<in> (\<lambda>(_, samples). mean samples) ` set scored" using fold by simp
    then obtain e where "e \<in> set scored" "best_mean scored = mean (snd e)" by auto
    then show ?thesis by metis
  qed
  moreover have "\<forall>e \<in> set scored. fle (mean (snd e)) (best_mean scored)"
    using fold by (auto dest!: bspec)
  ultimately show ?thesis using fold by simp
qed

lemma tie_down_range: "\<exists>c. tie_down = Fin c \<and> 0 < c \<and> c \<le> 1"
proof -
  have "(case tie_down of Fin c \<Rightarrow> 0 < c \<and> c \<le> 1 | _ \<Rightarrow> False)" by code_simp
  then show ?thesis by (auto split: fl.splits)
qed

text \<open>
  What a stage promises of its pick: the mean is positive and no contender's mean exceeds it by more
  than the tie margin; every earlier contender falls short of the leader by more than that.  Without a
  pick no contender has a positive mean.
\<close>

definition fair_pick :: "scored \<Rightarrow> (tune_candidate \<times> fl list) option \<Rightarrow> bool" where
  "fair_pick scored winner =
     (case winner of
        None \<Rightarrow> (\<forall>e \<in> set scored. \<not> flt (Fin 0) (mean (snd e)))
      | Some w \<Rightarrow> (\<exists>i < length scored. scored ! i = w \<and>
          (\<forall>e \<in> set scored. fle (fmul f64 (mean (snd e)) tie_down) (mean (snd w))) \<and>
          (\<forall>j < i. flt (mean (snd (scored ! j))) (fmul f64 (best_mean scored) tie_down))))"

lemma find_Some_nth: "List.find p xs = Some x \<Longrightarrow> \<exists>i < length xs. xs ! i = x \<and> p x \<and> (\<forall>j < i. \<not> p (xs ! j))"
  by (auto simp: find_Some_iff)

lemma pick_fair:
  assumes "scored_ok scored" and "short scored"
  shows "fair_pick scored (pick scored)"
proof -
  define lead where "lead = best_mean scored"
  have lead: "rate_ok lead" "\<And>e. e \<in> set scored \<Longrightarrow> fle (mean (snd e)) lead"
      "flt (Fin 0) lead \<Longrightarrow> \<exists>e \<in> set scored. mean (snd e) = lead"
    using best_mean_ok [OF assms] by (auto simp: lead_def)
  obtain c where c: "tie_down = Fin c" "0 < c" "c \<le> 1" using tie_down_range by auto
  have ok: "rate_ok (mean (snd e))" if "e \<in> set scored" for e
    using assms that unfolding scored_ok_def short_def by (intro mean_ok) auto
  have pick: "pick scored = List.find (\<lambda>e. flt (Fin 0) lead \<and> fle (fmul f64 lead tie_down) (mean (snd e))) scored"
    by (simp add: pick_def Let_def lead_def case_prod_beta)
  show ?thesis
  proof (cases "pick scored")
    case None
    have "\<not> flt (Fin 0) lead"
    proof
      assume pos: "flt (Fin 0) lead"
      then obtain e where e: "e \<in> set scored" "mean (snd e) = lead" using lead(3) by blast
      then have "fle (fmul f64 lead tie_down) (mean (snd e))"
        using rate_scale_down [OF lead(1) c(2,3)] c(1) by simp
      then show False using None e(1) pos unfolding pick find_None_iff by blast
    qed
    then have "\<not> flt (Fin 0) (mean (snd e))" if "e \<in> set scored" for e
      using lead(2) [OF that] by (metis fle_trans flt_def)
    then show ?thesis using None by (simp add: fair_pick_def)
  next
    case (Some w)
    then obtain i where i: "i < length scored" "scored ! i = w" "flt (Fin 0) lead"
        "fle (fmul f64 lead tie_down) (mean (snd w))"
        "\<And>j. j < i \<Longrightarrow> \<not> (flt (Fin 0) lead \<and> fle (fmul f64 lead tie_down) (mean (snd (scored ! j))))"
      unfolding pick by (auto dest!: find_Some_nth)
    have "fle (fmul f64 (mean (snd e)) tie_down) (mean (snd w))" if "e \<in> set scored" for e
      using rate_scale_mono [OF ok [OF that] lead(1) lead(2) [OF that] c(2)] c(1) i(4)
      by (metis fle_trans)
    moreover have "flt (mean (snd (scored ! j))) (fmul f64 lead tie_down)" if "j < i" for j
    proof -
      have "rate_ok (mean (snd (scored ! j)))" using ok that i(1) by simp
      moreover have "fle (fmul f64 lead tie_down) lead" using rate_scale_down [OF lead(1) c(2,3)] c(1) by simp
      ultimately show ?thesis using i(3) i(5) [OF that] fle_not_NaN by (auto simp: flt_iff rate_ok_iff)
    qed
    ultimately show ?thesis using Some i(1,2) by (auto simp: fair_pick_def lead_def)
  qed
qed

section \<open>A stage's measurements\<close>

text \<open>The candidates of a history that were measured in full.\<close>

definition measured_in :: "(tune_candidate \<times> trial_outcome) list \<Rightarrow> tune_candidate set" where
  "measured_in hist = {c. \<exists>r. (c, Measured r) \<in> set hist}"

definition stage_inv :: "bool \<Rightarrow> tune_candidate set \<Rightarrow> (tune_candidate \<times> trial_outcome) list \<Rightarrow>
    scored \<times> (tune_candidate \<times> trial_outcome) list \<Rightarrow> (tune_candidate \<times> trial_outcome) list \<Rightarrow> bool" where
  "stage_inv ok incs hist s new =
     (snd s = hist @ new \<and> fst ` set (fst s) = incs \<union> measured_in new \<and> (ok \<longrightarrow> scored_ok (fst s)))"

lemma measured_in_sub: "measured_in hist \<subseteq> fst ` set hist"
  by (force simp: measured_in_def)

lemma measured_in_snoc:
  "measured_in (hist @ [(c, res)]) =
     (case res of Measured _ \<Rightarrow> insert c (measured_in hist) | _ \<Rightarrow> measured_in hist)"
  by (auto simp: measured_in_def split: trial_outcome.splits)

lemma measure_inv:
  assumes "stage_inv ok incs hist s new" and "ok \<Longrightarrow> trial_ok trial"
  shows "\<exists>res. stage_inv ok incs hist (measure_cand trial cand s) (new @ [(cand, res)]) \<and>
    length (fst (measure_cand trial cand s)) \<le> Suc (length (fst s)) \<and>
    (\<forall>e \<in> set (fst (measure_cand trial cand s)). e \<in> set (fst s) \<or> length (snd e) = 1)"
proof -
  obtain res f where res: "measure_cand trial cand s =
      ((case res of Measured rate \<Rightarrow> fst s @ [(cand, [rate])] | _ \<Rightarrow> fst s), snd s @ [(cand, res)])"
      "res = trial (length (snd s)) cand f"
    by (simp add: measure_cand_def Let_def)
  then have "ok \<Longrightarrow> outcome_ok res" using assms(2) by (simp add: trial_ok_def)
  then show ?thesis using assms(1) res(1)
    by (intro exI [of _ res]) (cases res; auto simp: stage_inv_def measured_in_snoc scored_ok_def)
qed

lemma remeasure_inv:
  assumes "stage_inv ok incs hist s new" and "ok \<Longrightarrow> trial_ok trial"
  shows "\<exists>more. stage_inv ok incs hist (remeasure trial idx s) (new @ more) \<and> length more \<le> 1 \<and>
    fst ` set more \<subseteq> fst ` set (fst s) \<and>
    map fst (fst (remeasure trial idx s)) = map fst (fst s) \<and>
    (\<forall>b. (\<forall>e \<in> set (fst s). length (snd e) \<le> b) \<longrightarrow>
      (\<forall>e \<in> set (fst (remeasure trial idx s)). length (snd e) \<le> Suc b))"
proof (cases "get_at (fst s) idx")
  case None
  then have "remeasure trial idx s = s" by (simp only: remeasure_def option.case)
  then show ?thesis using assms(1) by (intro exI [of _ "[]"]) (auto simp: le_SucI)
next
  case (Some e)
  obtain cand samples where e: "e = (cand, samples)" by (cases e)
  have idx: "idx < length (fst s)" "fst s ! idx = (cand, samples)" using Some e by simp_all
  then have mem: "(cand, samples) \<in> set (fst s)" by (metis nth_mem)
  define res where "res = trial (length (snd s)) cand None"
  have step: "remeasure trial idx s =
      ((case res of Measured rate \<Rightarrow> (fst s)[idx := (cand, samples @ [rate])] | _ \<Rightarrow> fst s),
       snd s @ [(cand, res)])"
    by (simp only: remeasure_def Some e option.case prod.case Let_def res_def)
  have fine: "ok \<Longrightarrow> outcome_ok res" using assms(2) by (simp add: res_def trial_ok_def)
  have keys: "map fst (fst (remeasure trial idx s)) = map fst (fst s)"
    using idx by (cases res) (simp_all add: step map_update list_update_same_conv)
  have set: "set (fst (remeasure trial idx s)) \<subseteq> set (fst s) \<union> {(cand, samples @ [r]) | r. res = Measured r}"
    using set_update_subset_insert [of "fst s" idx] by (cases res) (auto simp: step)
  have scored: "scored_ok (fst (remeasure trial idx s))" if ok
  proof -
    have old: "scored_ok (fst s)" using assms(1) that by (simp add: stage_inv_def)
    then have "\<forall>r \<in> set samples. rate_ok r" using mem by (fastforce simp: scored_ok_def)
    then show ?thesis using old fine [OF that] set by (fastforce simp: scored_ok_def)
  qed
  have names: "fst ` set (fst (remeasure trial idx s)) = fst ` set (fst s)"
    using keys by (metis list.set_map)
  have "cand \<in> fst ` set (fst s)" using mem by force
  then have "stage_inv ok incs hist (remeasure trial idx s) (new @ [(cand, res)])"
    using assms(1) scored names
    by (cases res) (auto simp: stage_inv_def measured_in_snoc step)
  moreover have "\<forall>e \<in> set (fst (remeasure trial idx s)). length (snd e) \<le> Suc b"
    if "\<forall>e \<in> set (fst s). length (snd e) \<le> b" for b
    using that set mem by fastforce
  ultimately show ?thesis using keys \<open>cand \<in> _\<close> by (intro exI [of _ "[(cand, res)]"]) auto
qed

lemma measure_all:
  assumes "stage_inv ok incs hist s new" and "ok \<Longrightarrow> trial_ok trial"
    and "\<forall>e \<in> set (fst s). length (snd e) \<le> b" and "1 \<le> b"
  shows "\<exists>more. stage_inv ok incs hist (fold (measure_cand trial) cands s) (new @ more) \<and>
    map fst more = cands \<and> length (fst (fold (measure_cand trial) cands s)) \<le> length cands + length (fst s) \<and>
    (\<forall>e \<in> set (fst (fold (measure_cand trial) cands s)). length (snd e) \<le> b)"
  using assms(1,3)
proof (induction cands arbitrary: s new)
  case Nil
  then show ?case by (auto intro: exI [of _ "[]"])
next
  case (Cons cand cands)
  obtain res where res: "stage_inv ok incs hist (measure_cand trial cand s) (new @ [(cand, res)])"
      "length (fst (measure_cand trial cand s)) \<le> Suc (length (fst s))"
      "\<forall>e \<in> set (fst (measure_cand trial cand s)). e \<in> set (fst s) \<or> length (snd e) = 1"
    using measure_inv [OF Cons.prems(1) assms(2)] by blast
  have "\<forall>e \<in> set (fst (measure_cand trial cand s)). length (snd e) \<le> b"
    using res(3) Cons.prems(2) assms(4) by auto
  from Cons.IH [OF res(1) this] obtain more where more:
    "stage_inv ok incs hist (fold (measure_cand trial) cands (measure_cand trial cand s)) ((new @ [(cand, res)]) @ more)"
    "map fst more = cands"
    "length (fst (fold (measure_cand trial) cands (measure_cand trial cand s)))
       \<le> length cands + length (fst (measure_cand trial cand s))"
    "\<forall>e \<in> set (fst (fold (measure_cand trial) cands (measure_cand trial cand s))). length (snd e) \<le> b"
    by blast
  then show ?case using res(2) by (intro exI [of _ "(cand, res) # more"]) auto
qed

lemma remeasure_all:
  assumes "stage_inv ok incs hist s new" and "ok \<Longrightarrow> trial_ok trial"
    and "\<forall>e \<in> set (fst s). length (snd e) \<le> b"
  shows "\<exists>more. stage_inv ok incs hist (fold (remeasure trial) idxs s) (new @ more) \<and>
    length more \<le> length idxs \<and> fst ` set more \<subseteq> fst ` set (fst s) \<and>
    (\<forall>e \<in> set (fst (fold (remeasure trial) idxs s)). length (snd e) \<le> b + length idxs)"
  using assms(1,3)
proof (induction idxs arbitrary: s new b)
  case Nil
  then show ?case by (auto intro: exI [of _ "[]"])
next
  case (Cons idx idxs)
  obtain m where m: "stage_inv ok incs hist (remeasure trial idx s) (new @ m)" "length m \<le> 1"
      "fst ` set m \<subseteq> fst ` set (fst s)"
      "map fst (fst (remeasure trial idx s)) = map fst (fst s)"
      "\<forall>b. (\<forall>e \<in> set (fst s). length (snd e) \<le> b) \<longrightarrow>
        (\<forall>e \<in> set (fst (remeasure trial idx s)). length (snd e) \<le> Suc b)"
    using remeasure_inv [OF Cons.prems(1) assms(2), of idx] by auto
  have len: "\<forall>e \<in> set (fst (remeasure trial idx s)). length (snd e) \<le> Suc b"
    using m(5) Cons.prems(2) by blast
  have names: "fst ` set (fst (remeasure trial idx s)) = fst ` set (fst s)"
    using m(4) by (metis list.set_map)
  obtain more where more:
    "stage_inv ok incs hist (fold (remeasure trial) idxs (remeasure trial idx s)) ((new @ m) @ more)"
    "length more \<le> length idxs" "fst ` set more \<subseteq> fst ` set (fst (remeasure trial idx s))"
    "\<forall>e \<in> set (fst (fold (remeasure trial) idxs (remeasure trial idx s))). length (snd e) \<le> Suc b + length idxs"
    using Cons.IH [OF m(1) len] by blast
  then show ?case using m(2,3) names by (intro exI [of _ "m @ more"]) auto
qed

definition incs_of :: "(tune_candidate \<times> fl list) option \<Rightarrow> scored" where
  "incs_of incumbent = (case incumbent of None \<Rightarrow> [] | Some i \<Rightarrow> [i])"

lemma contenders_length: "length (contenders scored) \<le> length scored"
  using length_filter_le [of _ "enumerate 0 scored"] by (simp add: contenders_def Let_def)

lemma stage_measurements:
  assumes "ok \<Longrightarrow> trial_ok trial" and "ok \<Longrightarrow> scored_ok (incs_of incumbent)"
    and "\<forall>e \<in> set (incs_of incumbent). length (snd e) \<le> b" and "1 \<le> b"
    and "stage_scored trial cands incumbent hist = (scored, hist')"
  shows "\<exists>new. hist' = hist @ new \<and> length new \<le> 2 * length cands + length (incs_of incumbent) \<and>
    fst ` set new \<subseteq> set cands \<union> fst ` set (incs_of incumbent) \<and>
    fst ` set scored = fst ` set (incs_of incumbent) \<union> measured_in new \<and> (ok \<longrightarrow> scored_ok scored) \<and>
    (\<forall>e \<in> set scored. length (snd e) \<le> b + length cands + length (incs_of incumbent))"
proof -
  define incs where "incs = incs_of incumbent"
  define s where "s = fold (measure_cand trial) cands (incs, hist)"
  have "stage_inv ok (fst ` set incs) hist (incs, hist) []"
    using assms(2) by (simp add: stage_inv_def measured_in_def incs_def)
  from measure_all [OF this assms(1) _ assms(4), of cands]
  obtain new1 where new1: "stage_inv ok (fst ` set incs) hist s new1" "map fst new1 = cands"
      "length (fst s) \<le> length cands + length incs" "\<forall>e \<in> set (fst s). length (snd e) \<le> b"
    using assms(3) by (auto simp: s_def incs_def)
  have one: "fst ` set new1 = set cands" using new1(2) by (metis list.set_map)
  define close where "close = contenders (fst s)"
  have stage: "(scored, hist') = (if 1 < length close then fold (remeasure trial) close s else s)"
    using assms(5) [symmetric]
    unfolding stage_scored_def Let_def close_def s_def incs_def incs_of_def .
  have len: "length close \<le> length cands + length incs"
    using contenders_length [of "fst s"] new1(3) by (simp add: close_def)
  have names: "fst ` set (fst s) \<subseteq> set cands \<union> fst ` set incs"
    using new1(1) one measured_in_sub [of new1] by (auto simp: stage_inv_def)
  have len1: "length new1 = length cands" using new1(2) by (metis length_map)
  show ?thesis
  proof (cases "1 < length close")
    case True
    obtain more where more: "stage_inv ok (fst ` set incs) hist (fold (remeasure trial) close s) (new1 @ more)"
        "length more \<le> length close" "fst ` set more \<subseteq> fst ` set (fst s)"
        "\<forall>e \<in> set (fst (fold (remeasure trial) close s)). length (snd e) \<le> b + length close"
      using remeasure_all [OF new1(1) assms(1) new1(4), of close] by blast
    have s: "fold (remeasure trial) close s = (scored, hist')" using stage True by simp
    have "length e \<le> b + length cands + length incs" if "length e \<le> b + length close" for e :: "fl list"
      using that len by simp
    then show ?thesis
      using more(1,2,4) len len1 one subset_trans [OF more(3) names] unfolding s incs_def [symmetric] stage_inv_def
      by (intro exI [of _ "new1 @ more"]) auto
  next
    case False
    have s: "s = (scored, hist')" using stage False by simp
    show ?thesis
      using new1(1,4) len1 one unfolding s incs_def [symmetric] stage_inv_def
      by (intro exI [of _ new1]) auto
  qed
qed

section \<open>The search\<close>

lemma pick_mem: "pick scored = Some e \<Longrightarrow> e \<in> set scored"
  unfolding pick_def Let_def by (metis find_Some_nth nth_mem)

lemma cand_update: "c\<lparr>cand_servers := s, cand_batch := b\<rparr> =
    \<lparr>cand_threads = cand_threads c, cand_servers = s, cand_batch = b\<rparr>"
  by (cases c) simp

lemma stage_a_cands: "set (stage_a sp) =
    (\<lambda>(s, b). \<lparr>cand_threads = cand_threads (thorough_first sp), cand_servers = s, cand_batch = b\<rparr>) ` set (ts_server_batch sp)"
  by (simp add: stage_a_def cand_update)

definition space_ok :: "thorough_space \<Rightarrow> bool" where
  "space_ok sp = (list_all knob_ok (ts_analysis sp) \<and>
     list_all (\<lambda>(s, b). knob_ok s \<and> knob_ok b) (ts_server_batch sp) \<and>
     ts_analysis sp \<noteq> [] \<and> ts_server_batch sp \<noteq> [] \<and>
     length (ts_analysis sp) \<le> 3 \<and> length (ts_server_batch sp) \<le> 4)"

lemma pairs_ok: "s \<in> fst ` (set ROCM_SERVER_BATCH \<union> set WGPU_SERVER_BATCH) \<Longrightarrow> knob_ok (Some s)"
    "b \<in> snd ` (set ROCM_SERVER_BATCH \<union> set WGPU_SERVER_BATCH) \<Longrightarrow> knob_ok (Some b)"
  by (auto simp: ROCM_SERVER_BATCH_def WGPU_SERVER_BATCH_def knob_ok_def u32_max_def)

lemma space_ok_new: "space_ok (thorough_space_new pinned depth backend)"
  by (cases "ov_get pinned SERVER_THREADS"; cases "ov_get pinned BATCH_SIZE";
      cases "ov_get pinned ANALYSIS_THREADS"; cases "backend = Rocm")
    (simp_all add: thorough_space_new_def Let_def space_ok_def ANALYSIS_CANDIDATES_def ROCM_SERVER_BATCH_def
      WGPU_SERVER_BATCH_def dedup_def knob_ok_def u32_max_def)

lemma first_ok:
  assumes "space_ok sp" shows "cand_ok (thorough_first sp)"
proof -
  obtain a as where a: "ts_analysis sp = a # as" using assms by (cases "ts_analysis sp") (auto simp: space_ok_def)
  obtain p ps where p: "ts_server_batch sp = p # ps" using assms by (cases "ts_server_batch sp") (auto simp: space_ok_def)
  show ?thesis using assms
    by (cases p) (simp add: a p space_ok_def thorough_first_def get_at_def cand_ok_def)
qed

lemma stage_a_ok: "space_ok sp \<Longrightarrow> c \<in> set (stage_a sp) \<Longrightarrow> cand_ok c"
  using first_ok [of sp] by (auto simp: stage_a_cands space_ok_def list_all_iff cand_ok_def)

lemma stage_b_ok: "space_ok sp \<Longrightarrow> cand_ok leader \<Longrightarrow> c \<in> set (stage_b sp leader) \<Longrightarrow> cand_ok c"
  by (auto simp: stage_b_def space_ok_def list_all_iff cand_ok_def dest: in_set_dropD)

lemma thorough_run_facts:
  "let sp = thorough_space_new pinned depth backend; r = thorough_run sp trial in
     length (rep_history r) \<le> 13 \<and> list_all (\<lambda>h. cand_ok (fst h)) (rep_history r) \<and>
     (case rep_best r of None \<Rightarrow> True
      | Some (c, _) \<Rightarrow> cand_ok c \<and>
          (if is_fully_pinned sp then rep_history r = [] else c \<in> measured_in (rep_history r)))"
proof -
  define sp where "sp = thorough_space_new pinned depth backend"
  have ok: "space_ok sp" unfolding sp_def by (rule space_ok_new)
  have sizes: "length (stage_a sp) \<le> 4" "length (stage_b sp l) \<le> 2" for l
    using ok by (auto simp: stage_a_def stage_b_def space_ok_def)
  have "length (rep_history r) \<le> 13 \<and> list_all (\<lambda>h. cand_ok (fst h)) (rep_history r) \<and>
     (case rep_best r of None \<Rightarrow> True
      | Some (c, _) \<Rightarrow> cand_ok c \<and>
          (if is_fully_pinned sp then rep_history r = [] else c \<in> measured_in (rep_history r)))"
    if r: "r = thorough_run sp trial" for r
  proof (cases "is_fully_pinned sp")
    case True
    then show ?thesis using first_ok [OF ok] by (simp add: r thorough_run_def)
  next
    case False
    obtain scored hist where a: "stage_scored trial (stage_a sp) None [] = (scored, hist)" by fastforce
    from stage_measurements [where ok = False, OF _ _ _ _ a, of 1]
    have A: "length hist \<le> 2 * length (stage_a sp)" "fst ` set hist \<subseteq> set (stage_a sp)"
        "fst ` set scored = measured_in hist"
      by (auto simp: incs_of_def)
    have good_a: "cand_ok (fst h)" if "h \<in> set hist" for h
      using A(2) that stage_a_ok [OF ok] by blast
    show ?thesis
    proof (cases "pick scored")
      case None
      then show ?thesis using False a A(1) sizes(1) good_a
        by (simp add: r thorough_run_def stage_def list_all_iff)
    next
      case (Some leader)
      have mem: "fst leader \<in> measured_in hist" using pick_mem [OF Some] A(3) by blast
      then have lead_ok: "cand_ok (fst leader)" using good_a by (force simp: measured_in_def)
      obtain scored' hist' where b: "stage_scored trial (stage_b sp (fst leader)) (Some leader) hist = (scored', hist')"
        by fastforce
      from stage_measurements [where ok = False, OF _ _ _ _ b, of "max 1 (length (snd leader))"]
      obtain new where B: "hist' = hist @ new" "length new \<le> 2 * length (stage_b sp (fst leader)) + 1"
          "fst ` set new \<subseteq> insert (fst leader) (set (stage_b sp (fst leader)))"
          "fst ` set scored' = insert (fst leader) (measured_in new)"
        by (auto simp: incs_of_def)
      have good_b: "cand_ok (fst h)" if "h \<in> set hist'" for h
      proof (cases "h \<in> set hist")
        case True
        then show ?thesis by (rule good_a)
      next
        case False
        then have "fst h \<in> insert (fst leader) (set (stage_b sp (fst leader)))" using that B(1,3) by auto
        then show ?thesis using lead_ok stage_b_ok [OF ok lead_ok] by auto
      qed
      have "length hist' \<le> 13" using A(1) B(1,2) sizes(1) sizes(2) [of "fst leader"] by simp
      moreover have "cand_ok c \<and> c \<in> measured_in hist'" if "pick scored' = Some (c, samples)" for c samples
      proof -
        have "c \<in> insert (fst leader) (measured_in new)" using pick_mem [OF that] B(4) by force
        then have "c \<in> measured_in hist'" using mem B(1) by (auto simp: measured_in_def)
        moreover from this have "cand_ok c" using good_b by (force simp: measured_in_def)
        ultimately show ?thesis by simp
      qed
      ultimately show ?thesis using False a b Some good_b
        by (auto simp: r thorough_run_def stage_def list_all_iff split: option.splits)
    qed
  qed
  then show ?thesis unfolding Let_def sp_def by simp
qed

lemma thorough_run_best:
  "rep_best (thorough_run (thorough_space_new pinned depth backend) trial) = Some (c, r) \<Longrightarrow> cand_ok c"
  using thorough_run_facts [of pinned depth backend trial] by (simp add: Let_def)

text \<open>The thorough search, whatever the trials yield, runs at most thirteen of them, each on a candidate
  whose knobs are positive 32-bit values; its winner, if any, is such a candidate and was measured in
  full, unless everything is pinned and nothing is run.\<close>

lemma thorough_search_bounded:
  "let sp = thorough_space_new pinned depth backend; r = thorough_run sp trial in
     length (rep_history r) \<le> 13 \<and> list_all (\<lambda>h. cand_ok (fst h)) (rep_history r) \<and>
     (case rep_best r of None \<Rightarrow> True
      | Some (c, _) \<Rightarrow> cand_ok c \<and>
          (if is_fully_pinned sp then rep_history r = [] else c \<in> measured_in (rep_history r)))"
  by (rule thorough_run_facts)

text \<open>C31. When trials report rates, both stages of the thorough search pick fairly: stage one's leader is
  the earliest server and batch split whose mean rate is within the tie margin of the best mean, the
  winner is the earliest within it among the leader and the analysis thread counts tried around it,
  and without a leader every split measured a zero rate.\<close>

theorem thorough_picks_fairly:
  assumes "trial_ok trial" and "\<not> is_fully_pinned sp"
    and "length (ts_analysis sp) \<le> 3" and "length (ts_server_batch sp) \<le> 4"
  shows "case stage_scored trial (stage_a sp) None [] of (scored, hist) \<Rightarrow>
    fst ` set scored = measured_in hist \<and> fair_pick scored (pick scored) \<and>
    (case pick scored of
       None \<Rightarrow> thorough_run sp trial = \<lparr>rep_best = None, rep_history = hist\<rparr>
     | Some leader \<Rightarrow>
         (case stage_scored trial (stage_b sp (fst leader)) (Some leader) hist of (scored', hist') \<Rightarrow>
            fst ` set scored' = insert (fst leader) (measured_in (drop (length hist) hist')) \<and>
            fair_pick scored' (pick scored') \<and>
            thorough_run sp trial =
              \<lparr>rep_best = map_option (\<lambda>(c, s). (c, mean s)) (pick scored'), rep_history = hist'\<rparr>))"
proof -
  have sizes: "length (stage_a sp) \<le> 4" "length (stage_b sp l) \<le> 2" for l
    using assms(3,4) by (auto simp: stage_a_def stage_b_def)
  obtain scored hist where a: "stage_scored trial (stage_a sp) None [] = (scored, hist)" by fastforce
  from stage_measurements [where ok = True, OF assms(1) _ _ _ a, of 1]
  have A: "fst ` set scored = measured_in hist" "scored_ok scored"
      "\<And>e. e \<in> set scored \<Longrightarrow> length (snd e) \<le> 1 + length (stage_a sp)"
    by (auto simp: incs_of_def scored_ok_def)
  have len: "length (snd e) \<le> 5" if "e \<in> set scored" for e
    using A(3) [OF that] sizes(1) by linarith
  then have "short scored" by (fastforce simp: short_def)
  then have fair: "fair_pick scored (pick scored)" using A(2) by (rule pick_fair [rotated])
  show ?thesis
  proof (cases "pick scored")
    case None
    then show ?thesis using a A(1) fair assms(2) by (simp add: thorough_run_def stage_def)
  next
    case (Some leader)
    obtain scored' hist' where b: "stage_scored trial (stage_b sp (fst leader)) (Some leader) hist = (scored', hist')"
      by fastforce
    have lead: "scored_ok [leader]" "length (snd leader) \<le> 5"
      using pick_mem [OF Some] A(2) len by (auto simp: scored_ok_def)
    from stage_measurements [where ok = True, OF assms(1) _ _ _ b, of 5] lead
    obtain new where B: "hist' = hist @ new" "fst ` set scored' = insert (fst leader) (measured_in new)"
        "scored_ok scored'" "\<forall>e \<in> set scored'. length (snd e) \<le> 5 + length (stage_b sp (fst leader)) + 1"
      by (auto simp: incs_of_def)
    have "length (snd e) \<le> 8" if "e \<in> set scored'" for e
      using B(4) [rule_format, OF that] sizes(2) [of "fst leader"] by linarith
    then have "short scored'" by (fastforce simp: short_def)
    then have "fair_pick scored' (pick scored')" using B(3) by (rule pick_fair [rotated])
    then show ?thesis using a b A(1) B(1,2) fair Some assms(2)
      by (simp add: thorough_run_def stage_def)
  qed
qed

definition two_splits :: thorough_space where
  "two_splits = \<lparr>ts_analysis = [Some 256], ts_server_batch = [(Some 4, Some 64), (Some 8, Some 64)]\<rparr>"

definition eight_wins :: trial_fun where
  "eight_wins n c f = Measured (Fin (of_nat (if cand_servers c = Some 8 then 13 else 12)))"

lemma thorough_picks_fairly_witness:
  "fair_pick (fst (stage_scored eight_wins (stage_a two_splits) None []))
     (pick (fst (stage_scored eight_wins (stage_a two_splits) None [])))"
proof -
  have "trial_ok eight_wins"
    using rate_ok_of_nat [of 12] rate_ok_of_nat [of 13] by (auto simp: trial_ok_def eight_wins_def)
  then show ?thesis
    using thorough_picks_fairly [of eight_wins two_splits]
    by (simp add: two_splits_def is_fully_pinned_def case_prod_beta)
qed

end
