(* ===== verification/Autotune.thy ===== *)
theory Autotune
  imports Autotune_Fast Autotune_Thorough
begin

text \<open>
  The tuner's control flow (\<open>src/src/engine/autotune/mod.rs\<close>), its cache
  (\<open>src/src/engine/autotune/cache.rs\<close>) and the hardware readings (\<open>src/src/engine/autotune/hw.rs\<close>).
  A trial's engine run is a parameter (the \<open>n\<close>-th one, with its launch configuration, warm-up and
  pruning floor); so are the file stamps, the visible GPUs, the clock and the timeout.  The cache file is
  its list of entries (a missing or unreadable file is the empty one).
\<close>

section \<open>Model\<close>

definition CHUNK_TURNS :: nat where "CHUNK_TURNS = 16"
definition POSITIONS_PER_GAME :: nat where "POSITIONS_PER_GAME = 230"
definition WINDOW_POSITIONS :: nat where "WINDOW_POSITIONS = 640"

subsection \<open>Feeding and measuring a trial\<close>

text \<open>The \<open>while\<close> over one game's turns, and the games in order.\<close>

function chunk_game :: "nat \<Rightarrow> nat \<Rightarrow> nat \<Rightarrow> nat \<Rightarrow> (nat \<times> nat \<times> nat) list" where
  "chunk_game chunk idx count start =
     (if start < count
      then (idx, start, min (start + max chunk 1) count)
             # chunk_game chunk idx count (min (start + max chunk 1) count)
      else [])"
  by pat_completeness auto
termination
  by (relation "measure (\<lambda>(chunk, idx, count, start). count - start)") auto

declare chunk_game.simps [simp del]

definition chunks :: "nat list \<Rightarrow> nat \<Rightarrow> (nat \<times> nat \<times> nat) list" where
  "chunks turn_counts chunk =
     concat (map (\<lambda>(idx, count). chunk_game chunk idx count 0) (enumerate 0 turn_counts))"

text \<open>What the counter's receiver sees: a new count with the instant it is read at, the sender gone, or
  the deadline of the window.\<close>

datatype meter_event = Counted nat nat | Counter_Gone | Window_Over

definition gone :: trial_outcome where
  "gone = Trial_Failed ''katago exited during the trial''"

fun measure_window :: "fl option \<Rightarrow> meter \<Rightarrow> meter_event list \<Rightarrow> trial_outcome option" where
  "measure_window prune m [] = None"
| "measure_window prune m (Counted now cnt # es) =
     (let m = meter_record now cnt m in
      if WINDOW_POSITIONS \<le> meter_positions m then Some (Measured (meter_rate m))
      else (case prune of
          Some low \<Rightarrow>
            (if WINDOW_POSITIONS div 2 \<le> meter_positions m \<and> flt (meter_rate m) low
             then Some (Pruned (meter_rate m)) else measure_window prune m es)
        | None \<Rightarrow> measure_window prune m es))"
| "measure_window prune m (Counter_Gone # es) = Some gone"
| "measure_window prune m (Window_Over # es) =
     (if 0 < meter_positions m then Some (Measured (meter_rate m))
      else Some (Trial_Failed ''no positions analyzed in the window''))"

text \<open>\<open>wait_for(|count| count >= warmup)\<close>, after the wait for the first position; the deadline is set only
  when the window opens.\<close>

fun measure_trial :: "nat \<Rightarrow> fl option \<Rightarrow> nat \<Rightarrow> nat \<Rightarrow> meter_event list \<Rightarrow> trial_outcome option" where
  "measure_trial warmup prune now cnt es =
     (if 1 \<le> cnt \<and> warmup \<le> cnt then measure_window prune (meter_begin now cnt) es
      else (case es of
          [] \<Rightarrow> None
        | Counted now' cnt' # es' \<Rightarrow> measure_trial warmup prune now' cnt' es'
        | Counter_Gone # es' \<Rightarrow> Some gone
        | Window_Over # es' \<Rightarrow> measure_trial warmup prune now cnt es'))"

declare measure_trial.simps [simp del]

subsection \<open>The cache\<close>

definition TUNER_VERSION :: nat where "TUNER_VERSION = 5"

record file_stamp =
  stamp_path :: string
  stamp_size :: nat
  stamp_mtime_ns :: nat

record cache_key =
  key_tuner :: nat
  key_mode :: string
  key_gpu :: "string list"
  key_binary :: file_stamp
  key_backend :: engine_backend
  key_fp16 :: bool
  key_model :: file_stamp
  key_config :: file_stamp
  key_max_visits :: nat
  key_board_size :: nat
  key_concurrency :: nat
  key_pinned :: string

text \<open>What the machine answers: the GPUs, where a binary is found, and files' stamps.\<close>

record machine =
  gpu_identity :: "string list"
  resolve_binary :: "string \<Rightarrow> string"
  stamp_of :: "string \<Rightarrow> file_stamp"

fun mode_name :: "autotune_mode_kind \<Rightarrow> string" where
  "mode_name Thorough_Mode = ''thorough''"
| "mode_name Fast_Mode = ''fast''"

definition cache_key_build :: "machine \<Rightarrow> engine_config \<Rightarrow> nat \<Rightarrow> overrides \<Rightarrow> cache_key" where
  "cache_key_build mach cfg games pinned =
     \<lparr>key_tuner = TUNER_VERSION, key_mode = mode_name (autotune_mode cfg), key_gpu = gpu_identity mach,
      key_binary = stamp_of mach (resolve_binary mach (engine_binary cfg)),
      key_backend = engine_backend cfg, key_fp16 = fp16 cfg,
      key_model = stamp_of mach (model_path cfg), key_config = stamp_of mach (config_path cfg),
      key_max_visits = max_visits cfg, key_board_size = default_board_size cfg,
      key_concurrency = games, key_pinned = ov_show pinned\<rparr>"

record trial_record =
  tr_candidate :: string
  tr_outcome :: string
  tr_positions_per_sec :: fl
  tr_error :: string

definition trial_record_new :: "string \<Rightarrow> trial_outcome \<Rightarrow> trial_record" where
  "trial_record_new cand res =
     (case res of
        Measured rate \<Rightarrow> \<lparr>tr_candidate = cand, tr_outcome = ''measured'', tr_positions_per_sec = rate, tr_error = []\<rparr>
      | Pruned rate \<Rightarrow> \<lparr>tr_candidate = cand, tr_outcome = ''pruned'', tr_positions_per_sec = rate, tr_error = []\<rparr>
      | Trial_Failed err \<Rightarrow> \<lparr>tr_candidate = cand, tr_outcome = ''failed'', tr_positions_per_sec = Fin 0, tr_error = err\<rparr>)"

record cache_entry =
  ce_key :: cache_key
  ce_tuned :: string
  ce_positions_per_sec :: fl
  ce_tune_secs :: fl
  ce_tuned_at_unix :: nat
  ce_trials :: "trial_record list"

definition cache_lookup :: "cache_entry list \<Rightarrow> cache_key \<Rightarrow> cache_entry option" where
  "cache_lookup entries key =
     (case List.find (\<lambda>e. ce_key e = key) entries of
        Some hit \<Rightarrow> Some hit
      | None \<Rightarrow>
          (if key_mode key = mode_name Thorough_Mode then None
           else List.find (\<lambda>e. ce_key e = key\<lparr>key_mode := mode_name Thorough_Mode\<rparr>) entries))"

definition cache_store :: "cache_entry \<Rightarrow> cache_entry list \<Rightarrow> cache_entry list" where
  "cache_store entry entries = filter (\<lambda>old. ce_key old \<noteq> ce_key entry) entries @ [entry]"

subsection \<open>Tuning\<close>

type_synonym engine_trial = "nat \<Rightarrow> engine_config \<Rightarrow> nat \<Rightarrow> fl option \<Rightarrow> trial_outcome"

text \<open>The warm-up of a trial: one wave of analysis threads, at most what is kept queued.\<close>

definition trial_warmup :: "overrides \<Rightarrow> nat \<Rightarrow> tune_candidate \<Rightarrow> nat" where
  "trial_warmup pinned depth cand =
     min (case opt_or (cand_threads cand)
                 (case ov_get pinned ANALYSIS_THREADS of None \<Rightarrow> None | Some s \<Rightarrow> parse_unsigned u32_max s) of
            None \<Rightarrow> 256 | Some n \<Rightarrow> n)
       depth"

definition tune_trial :: "engine_trial \<Rightarrow> engine_config \<Rightarrow> overrides \<Rightarrow> nat \<Rightarrow> trial_fun" where
  "tune_trial run cfg pinned depth n cand prune =
     run n (launch_cfg cfg (trial_overrides pinned cand)) (trial_warmup pinned depth cand) prune"

definition tune_report ::
    "engine_trial \<Rightarrow> (nat \<Rightarrow> bool) \<Rightarrow> nat option \<Rightarrow> engine_config \<Rightarrow> overrides \<Rightarrow> nat \<Rightarrow> report" where
  "tune_report run within_budget gpu_lanes cfg pinned games =
     (let depth = games * POSITIONS_PER_GAME;
          trial = tune_trial run cfg pinned depth
      in case autotune_mode cfg of
           Thorough_Mode \<Rightarrow> thorough_run (thorough_space_new pinned depth (engine_backend cfg)) trial
         | Fast_Mode \<Rightarrow>
             fast_run (fast_space_new pinned depth (engine_backend cfg) gpu_lanes) trial within_budget)"

definition tune ::
    "engine_trial \<Rightarrow> (nat \<Rightarrow> bool) \<Rightarrow> nat option \<Rightarrow> engine_config \<Rightarrow> overrides \<Rightarrow> nat
       \<Rightarrow> string + overrides \<times> fl \<times> trial_record list" where
  "tune run within_budget gpu_lanes cfg pinned games =
     (let r = tune_report run within_budget gpu_lanes cfg pinned games;
          trials = map (\<lambda>(cand, res). trial_record_new (show_candidate cand) res) (rep_history r)
      in case rep_best r of
           None \<Rightarrow> Inl ''every trial failed''
         | Some (best, rate) \<Rightarrow> Inr (tuned_keys pinned best, rate, trials))"

text \<open>One call of \<open>apply\<close>: whether the budget ran out, whether the cache could be written, and the clocks.\<close>

record tuning_env =
  te_machine :: machine
  te_run :: engine_trial
  te_within_budget :: "nat \<Rightarrow> bool"
  te_gpu_lanes :: "nat option"
  te_timed_out :: bool
  te_store_ok :: bool
  te_secs :: fl
  te_now_unix :: nat

definition tune_and_store ::
    "tuning_env \<Rightarrow> cache_entry list \<Rightarrow> engine_config \<Rightarrow> string list \<Rightarrow> overrides \<Rightarrow> cache_key \<Rightarrow> nat
       \<Rightarrow> engine_config \<times> cache_entry list" where
  "tune_and_store env cache cfg explicit pinned key games =
     (if te_timed_out env then (cfg, cache)
      else (case tune (te_run env) (te_within_budget env) (te_gpu_lanes env) cfg pinned games of
         Inl err \<Rightarrow> (cfg, cache)
       | Inr (tuned, rate, trials) \<Rightarrow>
           (let entry = \<lparr>ce_key = key, ce_tuned = ov_show tuned, ce_positions_per_sec = rate,
                         ce_tune_secs = te_secs env, ce_tuned_at_unix = te_now_unix env,
                         ce_trials = trials\<rparr>
            in (with_tuned cfg explicit tuned,
                if te_store_ok env then cache_store entry cache else cache))))"

definition all_pinned :: "overrides \<Rightarrow> bool" where
  "all_pinned pinned = list_all (\<lambda>key. ov_get pinned key \<noteq> None)
     [ANALYSIS_THREADS, SEARCH_THREADS, SERVER_THREADS, BATCH_SIZE]"

definition autotune_apply ::
    "tuning_env \<Rightarrow> cache_entry list \<Rightarrow> engine_config \<Rightarrow> nat \<Rightarrow> string list \<Rightarrow> bool
       \<Rightarrow> engine_config \<times> cache_entry list" where
  "autotune_apply env cache cfg games explicit force =
     (if \<not> autotune cfg then (cfg, cache)
      else if \<not> is_gpu (engine_backend cfg) then (cfg, cache)
      else (let pinned = pins cfg explicit; games = max games 1 in
        if all_pinned pinned then (cfg, cache)
        else (let key = cache_key_build (te_machine env) cfg games pinned in
          case opt_filter (\<lambda>_. \<not> force) (cache_lookup cache key) of
            Some hit \<Rightarrow> (with_tuned cfg explicit (ov_parse (ce_tuned hit)), cache)
          | None \<Rightarrow> tune_and_store env cache cfg explicit pinned key games)))"

section \<open>Feeding and measuring\<close>

lemma chunk_game_cover:
  "start \<le> count \<Longrightarrow>
   concat (map (\<lambda>(i, a, b). map (Pair i) [a..<b]) (chunk_game chunk idx count start)) = map (Pair idx) [start..<count] \<and>
   list_all (\<lambda>(i, a, b). a < b \<and> b \<le> a + max chunk 1) (chunk_game chunk idx count start)"
proof (induction chunk idx count start rule: chunk_game.induct)
  case (1 chunk idx count start)
  show ?case
  proof (cases "start < count")
    case True
    define stop where "stop = min (start + max chunk 1) count"
    have stop: "start < stop" "stop \<le> count" "stop \<le> start + max chunk 1" using True by (auto simp: stop_def)
    have step: "chunk_game chunk idx count start = (idx, start, stop) # chunk_game chunk idx count stop"
      using True by (simp add: chunk_game.simps [of chunk idx count start] stop_def)
    have "[start..<count] = [start..<stop] @ [stop..<count]"
      using stop upt_add_eq_append [of start stop "count - stop"] by simp
    then show ?thesis using 1 True stop step by (simp add: stop_def)
  next
    case False
    then have "chunk_game chunk idx count start = []" by (subst chunk_game.simps) simp
    then show ?thesis using 1(2) False by simp
  qed
qed

text \<open>Splitting games into chunks covers every turn of every game exactly once, game by game and in
  order, with no empty chunk and none longer than the chunk length.\<close>

lemma chunks_cover:
  "concat (map (\<lambda>(i, a, b). map (Pair i) [a..<b]) (chunks turn_counts chunk)) =
     concat (map (\<lambda>(i, n). map (Pair i) [0..<n]) (enumerate 0 turn_counts)) \<and>
   list_all (\<lambda>(i, a, b). a < b \<and> b \<le> a + max chunk 1) (chunks turn_counts chunk)"
proof -
  have "concat (map (\<lambda>(i, a, b). map (Pair i) [a..<b])
          (concat (map (\<lambda>(i, n). chunk_game chunk i n 0) games))) =
        concat (map (\<lambda>(i, n). map (Pair i) [0..<n]) games) \<and>
      list_all (\<lambda>(i, a, b). a < b \<and> b \<le> a + max chunk 1) (concat (map (\<lambda>(i, n). chunk_game chunk i n 0) games))"
    for games :: "(nat \<times> nat) list"
    by (induction games) (auto simp: chunk_game_cover simp del: One_nat_def)
  then show ?thesis unfolding chunks_def .
qed

definition clock_ok :: "nat \<Rightarrow> bool" where
  "clock_ok ns = (ns < 2 ^ 64 * 1000000000)"

fun event_ok :: "meter_event \<Rightarrow> bool" where
  "event_ok (Counted now cnt) = clock_ok now"
| "event_ok Counter_Gone = True"
| "event_ok Window_Over = True"

definition opt_outcome_ok :: "trial_outcome option \<Rightarrow> bool" where
  "opt_outcome_ok r = (case r of None \<Rightarrow> True | Some o' \<Rightarrow> outcome_ok o')"

lemma measure_window_ok:
  "clock_ok (fst (meter_last m)) \<Longrightarrow> list_all event_ok es \<Longrightarrow> opt_outcome_ok (measure_window prune m es)"
proof (induction es arbitrary: m)
  case Nil
  then show ?case by (simp add: opt_outcome_ok_def)
next
  case (Cons e es)
  show ?case
  proof (cases e)
    case (Counted now cnt)
    define m' where "m' = meter_record now cnt m"
    have now: "clock_ok (fst (meter_last m'))" using Cons.prems Counted by (simp add: m'_def meter_record_def)
    then have "rate_ok (meter_rate m')" by (intro meter_rate_ok) (simp add: clock_ok_def)
    moreover have "opt_outcome_ok (measure_window prune m' es)" using Cons now by simp
    ultimately show ?thesis
      by (auto simp: Counted Let_def opt_outcome_ok_def simp flip: m'_def split: option.split)
  next
    case Counter_Gone
    then show ?thesis by (simp add: opt_outcome_ok_def gone_def)
  next
    case Window_Over
    then show ?thesis using Cons.prems meter_rate_ok [of m] by (simp add: opt_outcome_ok_def clock_ok_def)
  qed
qed

lemma measure_trial_ok:
  "clock_ok now \<Longrightarrow> list_all event_ok es \<Longrightarrow> opt_outcome_ok (measure_trial warmup prune now cnt es)"
proof (induction warmup prune now cnt es rule: measure_trial.induct)
  case (1 warmup prune now cnt es)
  show ?case
  proof (cases "1 \<le> cnt \<and> warmup \<le> cnt")
    case True
    then show ?thesis using 1(3,4)
      by (simp add: measure_trial.simps [of warmup prune now cnt es] measure_window_ok meter_begin_def)
  next
    case False
    then have step: "measure_trial warmup prune now cnt es = (case es of
          [] \<Rightarrow> None
        | Counted now' cnt' # es' \<Rightarrow> measure_trial warmup prune now' cnt' es'
        | Counter_Gone # es' \<Rightarrow> Some gone
        | Window_Over # es' \<Rightarrow> measure_trial warmup prune now cnt es')"
      by (subst measure_trial.simps) (simp only: False if_False)
    show ?thesis
    proof (cases es)
      case Nil
      then show ?thesis unfolding step by (simp add: opt_outcome_ok_def)
    next
      case (Cons e es')
      then show ?thesis using 1 False unfolding step
        by (cases e) (simp_all add: opt_outcome_ok_def gone_def)
    qed
  qed
qed

section \<open>Recall\<close>

lemma lookup_store: "cache_lookup (cache_store entry entries) (ce_key entry) = Some entry"
proof -
  have "List.find (\<lambda>e. ce_key e = ce_key entry) (filter (\<lambda>old. ce_key old \<noteq> ce_key entry) entries @ [entry]) = Some entry"
    by (induction entries) auto
  then show ?thesis by (simp add: cache_lookup_def cache_store_def)
qed

lemma tune_Inr:
  assumes "tune run within_budget lanes cfg pinned games = Inr (tuned, rate, trials)"
  shows "\<exists>cand. cand_ok cand \<and> tuned = tuned_keys pinned cand"
proof -
  obtain best where best: "rep_best (tune_report run within_budget lanes cfg pinned games) = Some (best, rate)"
      "tuned = tuned_keys pinned best"
    using assms by (auto simp: tune_def Let_def split: option.splits prod.splits)
  then have "cand_ok best"
    using fast_run_best thorough_run_best
    by (auto simp: tune_report_def Let_def split: autotune_mode_kind.splits)
  then show ?thesis using best(2) by blast
qed

text \<open>The ways \<open>apply\<close> ends.\<close>

lemma tune_and_store_cases:
  assumes "tune_and_store env cache cfg explicit pinned key games = (cfg', cache')"
  obtains "cfg' = cfg" "cache' = cache"
  | cand e where "cand_ok cand" "cfg' = with_tuned cfg explicit (tuned_keys pinned cand)"
      "ce_key e = key" "ce_tuned e = ov_show (tuned_keys pinned cand)"
      "cache' = (if te_store_ok env then cache_store e cache else cache)"
proof (cases "te_timed_out env \<or>
    (\<exists>err. tune (te_run env) (te_within_budget env) (te_gpu_lanes env) cfg pinned games = Inl err)")
  case True
  then have "tune_and_store env cache cfg explicit pinned key games = (cfg, cache)"
    by (auto simp: tune_and_store_def)
  then show ?thesis using assms that(1) by simp
next
  case False
  then obtain tn rate trials where r:
      "tune (te_run env) (te_within_budget env) (te_gpu_lanes env) cfg pinned games = Inr (tn, rate, trials)"
    by (cases "tune (te_run env) (te_within_budget env) (te_gpu_lanes env) cfg pinned games") auto
  obtain cand where cand: "cand_ok cand" "tn = tuned_keys pinned cand" using tune_Inr [OF r] by blast
  define e where "e = \<lparr>ce_key = key, ce_tuned = ov_show tn, ce_positions_per_sec = rate,
                         ce_tune_secs = te_secs env, ce_tuned_at_unix = te_now_unix env,
                         ce_trials = trials\<rparr>"
  have "tune_and_store env cache cfg explicit pinned key games =
      (with_tuned cfg explicit tn, if te_store_ok env then cache_store e cache else cache)"
    using False r by (simp add: tune_and_store_def Let_def e_def)
  then have "cfg' = with_tuned cfg explicit tn" "cache' = (if te_store_ok env then cache_store e cache else cache)"
    using assms by simp_all
  moreover have "ce_key e = key" "ce_tuned e = ov_show tn" by (simp_all add: e_def)
  ultimately show ?thesis using cand that(2) [of cand e] by blast
qed

lemma apply_cases:
  assumes "autotune_apply env cache cfg games explicit force = (cfg', cache')"
  obtains (unchanged) "cfg' = cfg" "cache' = cache"
  | (hit) e where "cache_lookup cache (cache_key_build (te_machine env) cfg (max games 1) (pins cfg explicit)) = Some e"
      "cfg' = with_tuned cfg explicit (ov_parse (ce_tuned e))" "cache' = cache"
  | (tuned) cand e where "autotune cfg" "is_gpu (engine_backend cfg)" "\<not> all_pinned (pins cfg explicit)"
      "cand_ok cand" "cfg' = with_tuned cfg explicit (tuned_keys (pins cfg explicit) cand)"
      "ce_key e = cache_key_build (te_machine env) cfg (max games 1) (pins cfg explicit)"
      "ce_tuned e = ov_show (tuned_keys (pins cfg explicit) cand)"
      "cache' = (if te_store_ok env then cache_store e cache else cache)"
proof -
  define key where "key = cache_key_build (te_machine env) cfg (max games 1) (pins cfg explicit)"
  show ?thesis
  proof (cases "\<not> autotune cfg \<or> \<not> is_gpu (engine_backend cfg) \<or> all_pinned (pins cfg explicit)")
    case True
    then have "autotune_apply env cache cfg games explicit force = (cfg, cache)"
      by (auto simp: autotune_apply_def Let_def)
    then show ?thesis using assms unchanged by simp
  next
    case False
    show ?thesis
    proof (cases "opt_filter (\<lambda>_. \<not> force) (cache_lookup cache key)")
      case (Some e)
      then have "cache_lookup cache key = Some e" by (simp add: opt_filter_eq_Some)
      then show ?thesis using assms Some False hit
        by (simp add: autotune_apply_def Let_def key_def)
    next
      case None
      then have "tune_and_store env cache cfg explicit (pins cfg explicit) key (max games 1) = (cfg', cache')"
        using assms False by (simp add: autotune_apply_def Let_def key_def)
      then show ?thesis
        using False unchanged tuned by (cases rule: tune_and_store_cases) (auto simp: key_def)
    qed
  qed
qed

text \<open>What the tuner writes: for each entry, the keys of a valid candidate under the pins in its key.\<close>

definition entry_fine :: "cache_entry \<Rightarrow> bool" where
  "entry_fine e = (\<exists>pinned cand. ov_ok pinned \<and> key_pinned (ce_key e) = ov_show pinned \<and> cand_ok cand \<and>
     ce_tuned e = ov_show (tuned_keys pinned cand))"

definition cache_fine :: "cache_entry list \<Rightarrow> bool" where
  "cache_fine entries = (\<forall>e \<in> set entries. entry_fine e)"

lemma lookup_mem:
  "cache_lookup entries key = Some e \<Longrightarrow> e \<in> set entries \<and> key_pinned (ce_key e) = key_pinned key"
  by (auto simp: cache_lookup_def find_Some_iff split: option.splits if_splits)

lemma tuned_string: "ov_parse (ov_show (tuned_keys pinned cand)) = tuned_keys pinned cand"
  by (rule ov_parse_show) (rule tuned_ok)

lemma apply_pins:
  assumes "cache_fine cache"
  shows "cache_fine (snd (autotune_apply env cache cfg games explicit force)) \<and>
    map_of (pins cfg explicit) \<subseteq>\<^sub>m map_of (engine_reads (fst (autotune_apply env cache cfg games explicit force))) \<and>
    (fst (autotune_apply env cache cfg games explicit force) = cfg \<or>
     (\<exists>cand. cand_ok cand \<and>
        fst (autotune_apply env cache cfg games explicit force) = with_tuned cfg explicit (tuned_keys (pins cfg explicit) cand) \<and>
        map_of (tuned_keys (pins cfg explicit) cand)
          \<subseteq>\<^sub>m map_of (engine_reads (fst (autotune_apply env cache cfg games explicit force)))))"
proof -
  obtain cfg' cache' where r: "autotune_apply env cache cfg games explicit force = (cfg', cache')" by fastforce
  have applied: "map_of (pins cfg explicit) \<subseteq>\<^sub>m map_of (engine_reads cfg') \<and>
      map_of (tuned_keys (pins cfg explicit) cand) \<subseteq>\<^sub>m map_of (engine_reads cfg')"
    if "cand_ok cand" "cfg' = with_tuned cfg explicit (tuned_keys (pins cfg explicit) cand)" for cand
  proof
    note le = with_tuned_reads [OF that(1), of cfg explicit]
    show "map_of (pins cfg explicit) \<subseteq>\<^sub>m map_of (engine_reads cfg')"
      unfolding that(2) using map_le_trans [OF map_le_map_add le] .
    have "map_of (tuned_keys (pins cfg explicit) cand) \<subseteq>\<^sub>m
        map_of (tuned_keys (pins cfg explicit) cand) ++ map_of (pins cfg explicit)"
      using tuned_unpinned [of _ "pins cfg explicit" cand]
      by (auto simp: map_le_def map_add_def dom_map_of_conv_image_fst split: option.split)
    then show "map_of (tuned_keys (pins cfg explicit) cand) \<subseteq>\<^sub>m map_of (engine_reads cfg')"
      unfolding that(2) using map_le_trans le by blast
  qed
  from r show ?thesis
  proof (cases rule: apply_cases)
    case unchanged
    then show ?thesis using assms pins_reach by (simp add: r)
  next
    case (hit e)
    then obtain pinned cand where e: "ov_ok pinned" "key_pinned (ce_key e) = ov_show pinned" "cand_ok cand"
        "ce_tuned e = ov_show (tuned_keys pinned cand)"
      using lookup_mem assms by (fastforce simp: cache_fine_def entry_fine_def)
    have "ov_show pinned = ov_show (pins cfg explicit)"
      using lookup_mem [OF hit(1)] e(2) by (simp add: cache_key_build_def)
    then have "pinned = pins cfg explicit"
      using ov_parse_show [OF e(1)] ov_parse_show [OF pins_ok [of cfg explicit]] by metis
    then have "ov_parse (ce_tuned e) = tuned_keys (pins cfg explicit) cand" using e(4) tuned_string by simp
    then have "cfg' = with_tuned cfg explicit (tuned_keys (pins cfg explicit) cand)" using hit(2) by simp
    then show ?thesis using hit(3) assms e(3) applied [OF e(3)] by (auto simp: r)
  next
    case (tuned cand e)
    have "entry_fine e"
      using tuned pins_ok [of cfg explicit] by (auto simp: entry_fine_def cache_key_build_def)
    then have "cache_fine cache'" using tuned(8) assms by (auto simp: cache_fine_def cache_store_def)
    then show ?thesis using tuned(4,5) applied [OF tuned(4,5)] by (auto simp: r)
  qed
qed

text \<open>C24. Every explicitly set key reaches the engine with its value whatever the tuner does: when it is
  off, skipped, fails or times out the configuration stays as given, and otherwise, whether the result
  was measured now or recalled (a fast run may reuse a thorough one), a valid candidate's keys are
  added.  The cache keeps the form the recall relies on.\<close>

theorem autotune_keeps_pins:
  assumes "cache_fine cache"
  shows "case autotune_apply env cache cfg games explicit force of (cfg', cache') \<Rightarrow>
    cache_fine cache' \<and> map_of (pins cfg explicit) \<subseteq>\<^sub>m map_of (engine_reads cfg') \<and>
    (cfg' = cfg \<or>
     (\<exists>cand. cand_ok cand \<and> cfg' = with_tuned cfg explicit (tuned_keys (pins cfg explicit) cand) \<and>
        map_of (tuned_keys (pins cfg explicit) cand) \<subseteq>\<^sub>m map_of (engine_reads cfg')))"
  using apply_pins [OF assms, of env cfg games explicit force] by (simp add: case_prod_beta)

text \<open>C37. A tuned result is recalled: once a run has written its result to the cache, a later run with the
  same configuration on the same machine applies the very same settings, without a trial (whatever
  engine, budget, clock or timeout it has) and leaves the cache alone, unless it is forced.\<close>

theorem autotune_recalls:
  assumes "autotune_apply env cache cfg games explicit force = (cfg', cache')"
    and "cache' \<noteq> cache" and "te_machine later = te_machine env"
  shows "autotune_apply later cache' cfg games explicit False = (cfg', cache')"
  using assms(1)
proof (cases rule: apply_cases)
  case (tuned cand e)
  then have "cache' = cache_store e cache" using assms(2) by (simp split: if_splits)
  then have "cache_lookup cache' (cache_key_build (te_machine later) cfg (max games 1) (pins cfg explicit)) = Some e"
    using lookup_store [of e cache] tuned(6) assms(3) by simp
  then show ?thesis using tuned
    by (simp add: autotune_apply_def Let_def opt_filter_def tuned_string)
qed (use assms(2) in simp_all)

text \<open>The cache key does not name the visits of a trial: a result measured at other visits is recalled.\<close>

lemma cache_ignores_trial_visits:
  "cache_key_build mach (cfg\<lparr>autotune_visits := v\<rparr>) games pinned = cache_key_build mach cfg games pinned"
  by (simp add: cache_key_build_def)

lemma trial_visits_differ:
  "trial_visits ((default_engine_config None)\<lparr>autotune_visits := 1\<rparr>) \<noteq> trial_visits (default_engine_config None)"
  by (simp add: trial_visits_def default_engine_config_def)

section \<open>Witnesses\<close>

definition example_machine :: machine where
  "example_machine = \<lparr>gpu_identity = [''pci''], resolve_binary = (\<lambda>b. b),
     stamp_of = (\<lambda>p. \<lparr>stamp_path = p, stamp_size = 0, stamp_mtime_ns = 0\<rparr>)\<rparr>"

definition example_env :: tuning_env where
  "example_env = \<lparr>te_machine = example_machine, te_run = (\<lambda>n cfg warmup prune. Trial_Failed ''no engine''),
     te_within_budget = (\<lambda>n. False), te_gpu_lanes = None, te_timed_out = False, te_store_ok = True,
     te_secs = Fin 1, te_now_unix = 1700000000\<rparr>"

definition example_cfg :: engine_config where
  "example_cfg = (default_engine_config None)\<lparr>engine_backend := Rocm,
     override_config := ''numAnalysisThreads=64,numNNServerThreadsPerModel=8,nnMaxBatchSize=32''\<rparr>"

lemma example_old: "ov_parse (override_config example_cfg) =
    [(ANALYSIS_THREADS, ''64''), (SERVER_THREADS, ''8''), (BATCH_SIZE, ''32'')]"
proof -
  have "ov_parse ''numAnalysisThreads=64,numNNServerThreadsPerModel=8,nnMaxBatchSize=32'' =
    [(ANALYSIS_THREADS, ''64''), (SERVER_THREADS, ''8''), (BATCH_SIZE, ''32'')]" by code_simp
  then show ?thesis by (simp add: example_cfg_def)
qed

lemma example_pins: "pins example_cfg [] = [(ANALYSIS_THREADS, ''64''), (SERVER_THREADS, ''8''), (BATCH_SIZE, ''32'')]"
  by (simp add: pins_def example_old TUNING_FIELDS_def)

lemma example_stores: "snd (autotune_apply example_env [] example_cfg 4 [] False) \<noteq> []"
proof -
  define pinned where "pinned = pins example_cfg []"
  have pins: "ov_get pinned ANALYSIS_THREADS \<noteq> None" "ov_get pinned SERVER_THREADS \<noteq> None"
      "ov_get pinned BATCH_SIZE \<noteq> None" "ov_get pinned SEARCH_THREADS = None"
    by (simp_all add: pinned_def example_pins ov_get_map_of)
  have "rep_best (tune_report (te_run example_env) (te_within_budget example_env) None example_cfg pinned 4) \<noteq> None"
    using pins by (auto simp: tune_report_def Let_def example_cfg_def default_engine_config_def thorough_run_def
        thorough_space_new_def is_fully_pinned_def)
  then obtain t r h where
    "tune (te_run example_env) (te_within_budget example_env) None example_cfg pinned 4 = Inr (t, r, h)"
    by (auto simp: tune_def Let_def split: option.splits)
  then have "snd (tune_and_store example_env [] example_cfg [] pinned key 4) \<noteq> []" for key
    by (simp add: tune_and_store_def example_env_def Let_def cache_store_def)
  moreover have "autotune example_cfg" "is_gpu (engine_backend example_cfg)" "\<not> all_pinned pinned"
    using pins by (simp_all add: example_cfg_def default_engine_config_def is_gpu_def all_pinned_def)
  ultimately show ?thesis
    by (simp add: autotune_apply_def Let_def pinned_def cache_lookup_def)
qed

lemma autotune_recalls_witness:
  "autotune_apply (example_env\<lparr>te_timed_out := True\<rparr>) (snd (autotune_apply example_env [] example_cfg 4 [] False))
     example_cfg 4 [] False = autotune_apply example_env [] example_cfg 4 [] False"
  using autotune_recalls [of example_env "[]" example_cfg 4 "[]" False
      "fst (autotune_apply example_env [] example_cfg 4 [] False)"
      "snd (autotune_apply example_env [] example_cfg 4 [] False)" "example_env\<lparr>te_timed_out := True\<rparr>"]
    example_stores by simp

lemma autotune_keeps_pins_witness:
  "cache_fine (snd (autotune_apply example_env [] example_cfg 4 [] False))"
  using autotune_keeps_pins [where cache = "[]" and env = example_env and cfg = example_cfg and games = 4
      and explicit = "[]" and force = False]
  by (simp add: cache_fine_def case_prod_beta)

text \<open>Whatever the counter does, the measurement of a trial ends, if at all, with a failure or with a
  rate: a double that is neither negative nor a NaN, as the searches' comparisons need.\<close>

lemma trial_outcomes_are_rates:
  assumes "clock_ok now" and "list_all event_ok es"
  shows "case measure_trial warmup prune now cnt es of None \<Rightarrow> True | Some res \<Rightarrow> outcome_ok res"
  using measure_trial_ok [OF assms] by (simp add: opt_outcome_ok_def)

lemma trial_outcomes_are_rates_witness:
  "outcome_ok (the (measure_trial 100 None 0 0 [Counted 1000000000 160, Counted 3000000000 860]))"
proof -
  have "measure_trial 100 None 0 0 [Counted 1000000000 160, Counted 3000000000 860] =
      Some (Measured (meter_rate \<lparr>meter_start = (1000000000, 160), meter_last = (3000000000, 860)\<rparr>))"
    by (simp add: measure_trial.simps Let_def WINDOW_POSITIONS_def meter_positions_def meter_record_def meter_begin_def)
  then show ?thesis
    using trial_outcomes_are_rates [of 0 "[Counted 1000000000 160, Counted 3000000000 860]" 100 None 0]
    by (simp add: clock_ok_def)
qed

end
