(* ===== verification/Autotune_Trial.thy ===== *)
theory Autotune_Trial
  imports Autotune Sgf_Parser "HOL-Library.Char_ord" "HOL-Library.List_Lexorder"
begin

text \<open>
  A trial's engine run (\<open>run_trial\<close> and \<open>feed\<close> of \<open>src/src/engine/autotune/mod.rs\<close>), the clock of the
  fast search's budget, and how the cache is keyed to the machine (\<open>src/src/engine/autotune/cache.rs\<close>).
  Queries complete in any order; the engine's answers, the files and the environment are parameters.
\<close>

section \<open>Model\<close>

subsection \<open>Keeping the engine fed\<close>

text \<open>A chunk is a game's index with the first turn and the one past the last.  \<open>fd_next\<close> counts what the
  cycling iterator has yielded.\<close>

type_synonym chunk = "nat \<times> nat \<times> nat"

record feeder =
  fd_next :: nat
  fd_queued :: nat
  fd_in_flight :: "chunk list"

definition chunk_len :: "chunk \<Rightarrow> nat" where
  "chunk_len c = (case c of (idx, a, b) \<Rightarrow> b - a)"

definition feed_begin :: feeder where
  "feed_begin = \<lparr>fd_next = 0, fd_queued = 0, fd_in_flight = []\<rparr>"

definition fill_one :: "chunk list \<Rightarrow> feeder \<Rightarrow> feeder" where
  "fill_one plan f = f\<lparr>fd_next := fd_next f + 1,
     fd_queued := fd_queued f + chunk_len (plan ! (fd_next f mod length plan)),
     fd_in_flight := fd_in_flight f @ [plan ! (fd_next f mod length plan)]\<rparr>"

text \<open>The inner \<open>while\<close>; \<open>None\<close>: it does not end.\<close>

partial_function (option) feed_fill :: "chunk list \<Rightarrow> nat \<Rightarrow> nat \<Rightarrow> feeder \<Rightarrow> feeder option" where
  "feed_fill plan games depth f =
     (if fd_queued f < depth \<and> plan \<noteq> []
      then (if fst (plan ! (fd_next f mod length plan)) < games
            then feed_fill plan games depth (fill_one plan f)
            else Some (f\<lparr>fd_next := fd_next f + 1\<rparr>))
      else Some f)"

text \<open>What becomes of the feeding: it waits for a query, it returned its error, or it is stuck in the
  inner loop.\<close>

datatype feeding = Waiting feeder | Ended string | Stuck

definition feed_settle :: "chunk list \<Rightarrow> nat \<Rightarrow> nat \<Rightarrow> feeder \<Rightarrow> feeding" where
  "feed_settle plan games depth f =
     (case feed_fill plan games depth f of
        None \<Rightarrow> Stuck
      | Some f \<Rightarrow> (if fd_in_flight f = [] then Ended ''no corpus games'' else Waiting f))"

text \<open>The \<open>k\<close>-th query in flight completes.\<close>

definition feed_completed :: "chunk list \<Rightarrow> nat \<Rightarrow> nat \<Rightarrow> feeder \<Rightarrow> nat \<Rightarrow> app_error + nat \<Rightarrow> feeding" where
  "feed_completed plan games depth f k answer =
     (case get_at (fd_in_flight f) k of
        None \<Rightarrow> Waiting f
      | Some c \<Rightarrow>
          (case answer of
             Inl err \<Rightarrow> Ended (error_text err)
           | Inr done' \<Rightarrow>
               feed_settle plan games depth (f\<lparr>fd_queued := fd_queued f - chunk_len c,
                 fd_in_flight := take k (fd_in_flight f) @ drop (k + 1) (fd_in_flight f)\<rparr>)))"

fun feed_run :: "chunk list \<Rightarrow> nat \<Rightarrow> nat \<Rightarrow> feeding \<Rightarrow> (nat \<times> (app_error + nat)) list \<Rightarrow> feeding" where
  "feed_run plan games depth (Waiting f) ((k, answer) # events) =
     feed_run plan games depth (feed_completed plan games depth f k answer) events"
| "feed_run plan games depth st events = st"

definition feed :: "parsed_game list \<Rightarrow> nat \<Rightarrow> (nat \<times> (app_error + nat)) list \<Rightarrow> feeding" where
  "feed games depth events =
     (let plan = chunks (map (\<lambda>game. length (game_moves game) + 1) games) CHUNK_TURNS
      in feed_run plan (length games) depth (feed_settle plan (length games) depth feed_begin) events)"

subsection \<open>A trial\<close>

text \<open>The corpus games that parse (\<open>filter_map\<close> of \<open>parse(..).ok()\<close>).\<close>

definition trial_games :: "sgf_reader \<Rightarrow> engine_config \<Rightarrow> string list \<Rightarrow> parsed_game list" where
  "trial_games go_parse cfg corpus =
     List.map_filter (\<lambda>sgf. case sgf_parse go_parse sgf (default_board_size cfg) (default_komi cfg) of
         Inl err \<Rightarrow> None | Inr game \<Rightarrow> Some game) corpus"

text \<open>The engine's side of a trial: whether it starts, the completions of its queries, the readings of its
  counter, and whether the feeding's end is seen before the measurement's.\<close>

record trial_engine =
  en_spawned :: "app_error option"
  en_completions :: "(nat \<times> (app_error + nat)) list"
  en_counter :: "meter_event list"
  en_feed_first :: bool

definition run_trial ::
    "sgf_reader \<Rightarrow> string list \<Rightarrow> (engine_config \<Rightarrow> trial_engine) \<Rightarrow> engine_config \<Rightarrow> overrides \<Rightarrow> nat
       \<Rightarrow> nat \<Rightarrow> fl option \<Rightarrow> trial_outcome option" where
  "run_trial go_parse corpus spawn cfg over games warmup prune =
     (let engine = spawn (launch_cfg cfg over) in
      case en_spawned engine of
        Some err \<Rightarrow> Some (Trial_Failed (error_text err))
      | None \<Rightarrow>
          (let measured = measure_trial warmup prune 0 0 (en_counter engine)
           in case feed (trial_games go_parse cfg corpus) (games * POSITIONS_PER_GAME) (en_completions engine) of
                Ended err \<Rightarrow>
                  (if en_feed_first engine \<or> measured = None then Some (Trial_Failed err) else measured)
              | _ \<Rightarrow> measured))"

subsection \<open>The clock of the fast search\<close>

definition FAST_BUDGET :: nat where "FAST_BUDGET = 25000000000"
definition SLOW_START :: nat where "SLOW_START = 15000000000"

text \<open>Nanoseconds.  Only the first trial's slow start is forgiven.\<close>

record trial_clock =
  tc_forgiven :: "nat option"
  tc_last :: nat

definition clock_begin :: trial_clock where
  "clock_begin = \<lparr>tc_forgiven = None, tc_last = 0\<rparr>"

definition clock_trial :: "nat \<Rightarrow> nat option \<Rightarrow> trial_clock \<Rightarrow> trial_clock" where
  "clock_trial wall startup c =
     (case tc_forgiven c of
        None \<Rightarrow> (let extra = opt_else 0 startup - SLOW_START
                 in \<lparr>tc_forgiven = Some extra, tc_last = wall - extra\<rparr>)
      | Some extra \<Rightarrow> c\<lparr>tc_last := wall\<rparr>)"

definition clock_within :: "nat \<Rightarrow> trial_clock \<Rightarrow> bool" where
  "clock_within elapsed c = (elapsed - opt_else 0 (tc_forgiven c) + tc_last c \<le> FAST_BUDGET)"

subsection \<open>The machine\<close>

definition DEVICE_ENV :: "string list" where
  "DEVICE_ENV = [''CUDA_VISIBLE_DEVICES'', ''HIP_VISIBLE_DEVICES'', ''ROCR_VISIBLE_DEVICES'',
     ''GPU_DEVICE_ORDINAL'', ''WGPU_ADAPTER_NAME'', ''WGPU_BACKEND'', ''VK_ICD_FILENAMES'']"

definition is_card_name :: "string \<Rightarrow> bool" where
  "is_card_name name =
     (case strip_prefix ''card'' name of None \<Rightarrow> False | Some num \<Rightarrow> num \<noteq> [] \<and> list_all is_ascii_digit num)"

text \<open>A DRM directory entry: its name and its device's attribute files.\<close>

definition pci_id :: "(string \<Rightarrow> string option) \<Rightarrow> string" where
  "pci_id attr =
     (let get = (\<lambda>file. opt_else [] (map_option trim (attr file)))
      in ''pci '' @ get ''vendor'' @ '':'' @ get ''device'' @ '' rev '' @ get ''revision'')"

definition gpu_ids ::
    "(string \<times> (string \<Rightarrow> string option)) list \<Rightarrow> string option \<Rightarrow> (string \<Rightarrow> string option) \<Rightarrow> string list" where
  "gpu_ids drm nvidia env =
     sort (map (\<lambda>(name, attr). pci_id attr) (filter (\<lambda>(name, attr). is_card_name name) drm) @
       (case nvidia of
          None \<Rightarrow> []
        | Some text \<Rightarrow> (case text_lines text of [] \<Rightarrow> [] | first # rest \<Rightarrow> [''nvidia '' @ trim first])) @
       List.map_filter (\<lambda>var. map_option (\<lambda>val. ''env '' @ var @ ''='' @ val) (env var)) DEVICE_ENV)"

definition find_binary :: "string option \<Rightarrow> (string \<Rightarrow> bool) \<Rightarrow> string \<Rightarrow> string" where
  "find_binary path is_file binary =
     (if CHR ''/'' \<in> set binary then binary
      else (case path of
          None \<Rightarrow> binary
        | Some dirs \<Rightarrow>
            opt_else binary (List.find is_file (map (\<lambda>dir. path_join dir binary) (split_on CHR '':'' dirs)))))"

text \<open>\<open>stat\<close> gives a size and a modification time, in nanoseconds from the epoch, if there is one.\<close>

definition stamp_read ::
    "(string \<Rightarrow> string option) \<Rightarrow> (string \<Rightarrow> (nat \<times> int option) option) \<Rightarrow> string \<Rightarrow> file_stamp" where
  "stamp_read canonical stat path =
     (let resolved = opt_else path (canonical path); meta = stat resolved
      in \<lparr>stamp_path = resolved,
          stamp_size = (case meta of None \<Rightarrow> 0 | Some (bytes, time) \<Rightarrow> bytes),
          stamp_mtime_ns = (case meta of Some (bytes, Some ns) \<Rightarrow> (if ns < 0 then 0 else min (nat ns) usize_max)
                            | _ \<Rightarrow> 0)\<rparr>)"

definition resolve_path :: "string option \<Rightarrow> string \<Rightarrow> string" where
  "resolve_path home configured =
     (if trim configured \<noteq> [] then trim configured
      else (case opt_filter (\<lambda>dir. dir \<noteq> []) home of
          None \<Rightarrow> ''/var/cache/katago-ws/autotune.json''
        | Some dir \<Rightarrow> path_join (path_join dir ''.katago'') ''katago-ws-autotune.json''))"

definition machine_of ::
    "(string \<times> (string \<Rightarrow> string option)) list \<Rightarrow> string option \<Rightarrow> (string \<Rightarrow> string option) \<Rightarrow>
     (string \<Rightarrow> bool) \<Rightarrow> (string \<Rightarrow> string option) \<Rightarrow> (string \<Rightarrow> (nat \<times> int option) option) \<Rightarrow> machine" where
  "machine_of drm nvidia env is_file canonical stat =
     \<lparr>gpu_identity = gpu_ids drm nvidia env, resolve_binary = find_binary (env ''PATH'') is_file,
      stamp_of = stamp_read canonical stat\<rparr>"

subsection \<open>The cache file\<close>

text \<open>\<open>read\<close>: a missing or unreadable file is an empty cache.  \<open>decode\<close> and \<open>encode\<close> are serde's.\<close>

definition cache_read :: "(string \<Rightarrow> cache_entry list option) \<Rightarrow> string option \<Rightarrow> cache_entry list" where
  "cache_read decode content = opt_else [] (Option.bind content decode)"

text \<open>The paths \<open>std::path\<close> derives: the file's directory, if it has one, and its name with the extension
  \<open>tmp\<close> and the process id.\<close>

record cache_paths =
  cp_file :: string
  cp_dir :: "string option"
  cp_tmp :: string

text \<open>How the file system answers; a write that fails may leave a part of the text behind.\<close>

record disk_faults =
  df_mkdir :: "string option"
  df_write :: "(string \<times> string) option"
  df_rename :: "string option"

definition cache_file_store ::
    "(string \<Rightarrow> cache_entry list option) \<Rightarrow> (cache_entry list \<Rightarrow> string + string) \<Rightarrow> disk_faults \<Rightarrow> cache_paths \<Rightarrow>
     cache_entry \<Rightarrow> (string \<rightharpoonup> string) \<Rightarrow> (string + unit) \<times> (string \<rightharpoonup> string)" where
  "cache_file_store decode encode faults paths entry disk =
     (let entries = cache_store entry (cache_read decode (disk (cp_file paths))) in
      case (cp_dir paths, df_mkdir faults) of
        (Some dir, Some err) \<Rightarrow> (Inl (''create '' @ dir @ '': '' @ err), disk)
      | _ \<Rightarrow>
          (case encode entries of
             Inl err \<Rightarrow> (Inl err, disk)
           | Inr json \<Rightarrow>
               (case df_write faults of
                  Some (err, part) \<Rightarrow>
                    (Inl (''write '' @ cp_tmp paths @ '': '' @ err), disk(cp_tmp paths \<mapsto> part))
                | None \<Rightarrow>
                    (case df_rename faults of
                       Some err \<Rightarrow>
                         (Inl (''rename to '' @ cp_file paths @ '': '' @ err), disk(cp_tmp paths \<mapsto> json))
                     | None \<Rightarrow> (Inr (), disk(cp_tmp paths := None, cp_file paths \<mapsto> json))))))"

section \<open>The queue stays full\<close>

definition feeder_ok :: "chunk list \<Rightarrow> feeder \<Rightarrow> bool" where
  "feeder_ok plan f =
     (fd_queued f = sum_list (map chunk_len (fd_in_flight f)) \<and> set (fd_in_flight f) \<subseteq> set plan)"

definition plan_ok :: "chunk list \<Rightarrow> nat \<Rightarrow> nat \<Rightarrow> bool" where
  "plan_ok plan games chunk =
     (\<forall>c \<in> set plan. fst c < games \<and> 0 < chunk_len c \<and> chunk_len c \<le> chunk)"

lemma chunks_mem:
  assumes "c \<in> set (chunks turn_counts chunk)"
  shows "fst c < length turn_counts \<and> 0 < chunk_len c \<and> chunk_len c \<le> max chunk 1"
proof -
  obtain idx a b where c: "c = (idx, a, b)" by (cases c)
  have size: "a < b" "b \<le> a + max chunk 1"
    using chunks_cover [of turn_counts chunk] assms by (auto simp: list_all_iff c simp del: One_nat_def)
  have "(idx, a) \<in> set (concat (map (\<lambda>(i, a, b). map (Pair i) [a..<b]) (chunks turn_counts chunk)))"
    using assms size(1) by (force simp: c)
  then have "(idx, a) \<in> set (concat (map (\<lambda>(i, n). map (Pair i) [0..<n]) (enumerate 0 turn_counts)))"
    using chunks_cover [of turn_counts chunk] by simp
  then have "idx < length turn_counts" by (auto simp: in_set_enumerate_eq)
  then show ?thesis using size by (simp add: c chunk_len_def)
qed

lemma chunks_plan_ok: "plan_ok (chunks turn_counts chunk) (length turn_counts) (max chunk 1)"
  using chunks_mem by (auto simp: plan_ok_def)

lemma fill_one_ok: "plan \<noteq> [] \<Longrightarrow> feeder_ok plan f \<Longrightarrow> feeder_ok plan (fill_one plan f)"
  by (simp add: feeder_ok_def fill_one_def)

text \<open>The inner loop ends, with the depth reached by less than one chunk.\<close>

lemma feed_fill_total:
  assumes "plan_ok plan games chunk" and "feeder_ok plan f" and "plan \<noteq> []"
    and "fd_queued f < depth + chunk"
  shows "\<exists>f'. feed_fill plan games depth f = Some f' \<and> feeder_ok plan f' \<and>
    depth \<le> fd_queued f' \<and> fd_queued f' < depth + chunk"
  using assms(2,4)
proof (induction "depth - fd_queued f" arbitrary: f rule: less_induct)
  case less
  show ?case
  proof (cases "fd_queued f < depth")
    case False
    then show ?thesis using less.prems by (subst feed_fill.simps) simp
  next
    case True
    define c where "c = plan ! (fd_next f mod length plan)"
    have "c \<in> set plan" using assms(3) by (simp add: c_def)
    then have c: "fst c < games" "0 < chunk_len c" "chunk_len c \<le> chunk" using assms(1) by (auto simp: plan_ok_def)
    have step: "feed_fill plan games depth f = feed_fill plan games depth (fill_one plan f)"
      using True assms(3) c(1) by (subst feed_fill.simps) (simp add: c_def)
    have queued: "fd_queued (fill_one plan f) = fd_queued f + chunk_len c" by (simp add: fill_one_def c_def)
    show ?thesis unfolding step
      by (rule less.hyps) (use True c queued less.prems fill_one_ok [OF assms(3)] in auto)
  qed
qed

text \<open>The state of a feeding that goes on.\<close>

definition feeding_ok :: "chunk list \<Rightarrow> nat \<Rightarrow> nat \<Rightarrow> feeding \<Rightarrow> bool" where
  "feeding_ok plan depth chunk st =
     (case st of
        Waiting f \<Rightarrow> feeder_ok plan f \<and> depth \<le> fd_queued f \<and> fd_queued f < depth + chunk
      | Ended err \<Rightarrow> True
      | Stuck \<Rightarrow> False)"

lemma feed_settle_ok:
  assumes "plan_ok plan games chunk" and "feeder_ok plan f" and "fd_queued f < depth + chunk"
    and "plan \<noteq> []"
  shows "feeding_ok plan depth chunk (feed_settle plan games depth f)"
  using feed_fill_total [OF assms(1,2,4,3)] by (auto simp: feed_settle_def feeding_ok_def)

text \<open>Taking a completed query out of the bookkeeping.\<close>

lemma feeder_ok_drop:
  assumes "feeder_ok plan f" and "k < length (fd_in_flight f)"
  shows "feeder_ok plan (f\<lparr>fd_queued := fd_queued f - chunk_len (fd_in_flight f ! k),
    fd_in_flight := take k (fd_in_flight f) @ drop (k + 1) (fd_in_flight f)\<rparr>)"
proof -
  define xs where "xs = fd_in_flight f"
  have split: "xs = take k xs @ xs ! k # drop (k + 1) xs"
    using assms(2) by (simp add: xs_def id_take_nth_drop)
  have "sum_list (map chunk_len xs) = sum_list (map chunk_len (take k xs @ drop (k + 1) xs)) + chunk_len (xs ! k)"
    by (subst split) simp
  moreover have "set (take k xs @ drop (k + 1) xs) \<subseteq> set xs" by (subst (3) split) auto
  ultimately show ?thesis using assms(1) by (auto simp: feeder_ok_def xs_def)
qed

lemma feed_completed_ok:
  assumes "plan_ok plan games chunk" and "plan \<noteq> []" and "feeding_ok plan depth chunk (Waiting f)"
  shows "feeding_ok plan depth chunk (feed_completed plan games depth f k answer)"
proof (cases "k < length (fd_in_flight f) \<and> \<not> isl answer")
  case False
  then show ?thesis using assms(3)
    by (auto simp: feed_completed_def feeding_ok_def get_at_def split: sum.splits)
next
  case True
  have ok: "feeder_ok plan f" "fd_queued f < depth + chunk" using assms(3) by (auto simp: feeding_ok_def)
  show ?thesis
    using feed_settle_ok [OF assms(1) feeder_ok_drop [OF ok(1)], of k depth] assms(2) ok(2) True
    by (auto simp: feed_completed_def get_at_def split: sum.splits)
qed

lemma feed_run_ok:
  "plan_ok plan games chunk \<Longrightarrow> plan \<noteq> [] \<Longrightarrow> feeding_ok plan depth chunk st \<Longrightarrow>
   feeding_ok plan depth chunk (feed_run plan games depth st events)"
  by (induction plan games depth st events rule: feed_run.induct) (auto simp: feed_completed_ok)

text \<open>With something to feed and a positive depth only a failed query ends it.\<close>

lemma feed_settle_waits:
  assumes "plan_ok plan games chunk" and "feeder_ok plan f" and "fd_queued f < depth + chunk"
    and "plan \<noteq> []" and "0 < depth"
  shows "feed_settle plan games depth f \<noteq> Ended err"
proof -
  obtain f' where f': "feed_fill plan games depth f = Some f'" "feeder_ok plan f'" "depth \<le> fd_queued f'"
    using feed_fill_total [OF assms(1,2,4,3)] by blast
  then have "fd_in_flight f' \<noteq> []" using assms(5) by (auto simp: feeder_ok_def)
  then show ?thesis using f'(1) by (simp add: feed_settle_def)
qed

lemma feed_completed_ends:
  assumes "plan_ok plan games chunk" and "plan \<noteq> []" and "0 < depth"
    and "feeding_ok plan depth chunk (Waiting f)"
    and "feed_completed plan games depth f k answer = Ended err"
  shows "\<exists>e. answer = Inl e \<and> err = error_text e"
proof (cases answer)
  case (Inl e)
  then show ?thesis using assms(5) by (auto simp: feed_completed_def split: option.splits)
next
  case (Inr n)
  then obtain c where c: "k < length (fd_in_flight f)" "c = fd_in_flight f ! k"
      "feed_settle plan games depth (f\<lparr>fd_queued := fd_queued f - chunk_len c,
        fd_in_flight := take k (fd_in_flight f) @ drop (k + 1) (fd_in_flight f)\<rparr>) = Ended err"
    using assms(5) by (auto simp: feed_completed_def get_at_def split: if_splits)
  have ok: "feeder_ok plan f" "fd_queued f < depth + chunk" using assms(4) by (auto simp: feeding_ok_def)
  have "feed_settle plan games depth (f\<lparr>fd_queued := fd_queued f - chunk_len c,
        fd_in_flight := take k (fd_in_flight f) @ drop (k + 1) (fd_in_flight f)\<rparr>) \<noteq> Ended err"
    by (rule feed_settle_waits [OF assms(1) _ _ assms(2,3)])
      (use feeder_ok_drop [OF ok(1) c(1)] ok(2) c(2) in auto)
  then show ?thesis using c(3) by simp
qed

lemma feed_run_ends:
  assumes "plan_ok plan games chunk" and "plan \<noteq> []" and "0 < depth"
  shows "feeding_ok plan depth chunk st \<Longrightarrow> feed_run plan games depth st events = Ended err \<Longrightarrow>
    st = Ended err \<or> (\<exists>k e. (k, Inl e) \<in> set events \<and> err = error_text e)"
proof (induction events arbitrary: st)
  case (Cons event events)
  obtain k answer where event: "event = (k, answer)" by (cases event)
  show ?case
  proof (cases st)
    case (Waiting f)
    define next_st where "next_st = feed_completed plan games depth f k answer"
    have "feeding_ok plan depth chunk next_st"
      using feed_completed_ok [OF assms(1,2)] Cons.prems(1) by (simp add: next_st_def Waiting)
    moreover have "feed_run plan games depth next_st events = Ended err"
      using Cons.prems(2) by (simp add: Waiting event next_st_def)
    ultimately consider "next_st = Ended err" | k' e where "(k', Inl e) \<in> set events" "err = error_text e"
      using Cons.IH by blast
    then show ?thesis
    proof cases
      case 1
      then show ?thesis
        using feed_completed_ends [OF assms, of f k answer] Cons.prems(1) by (auto simp: Waiting event next_st_def)
    qed (auto simp: event)
  qed (use Cons.prems(2) in auto)
qed (cases st; simp)

lemma chunks_Nil_iff: "chunks (map (\<lambda>game. n game + 1) games) chunk = [] \<longleftrightarrow> games = []"
proof
  assume none: "chunks (map (\<lambda>game. n game + 1) games) chunk = []"
  show "games = []"
  proof (rule ccontr)
    assume "games \<noteq> []"
    then obtain game games' where games: "games = game # games'" by (cases games) auto
    have "(0, 0) \<in> set (concat (map (\<lambda>(i, m). map (Pair i) [0..<m]) (enumerate 0 (map (\<lambda>game. n game + 1) games))))"
      by (cases "n game") (auto simp: games)
    then show False
      unfolding conjunct1 [OF chunks_cover [of "map (\<lambda>game. n game + 1) games" chunk], symmetric] none by simp
  qed
qed (simp add: chunks_def)

text \<open>C38. While a trial's engine is fed, the positions counted as queued are exactly those of the queries in
  flight, at least the depth asked for and less than one chunk more, however the queries complete; the
  feeding never gets stuck filling the queue, and it ends only with the error of a query that failed, or at
  once when there is nothing to feed.\<close>

theorem feed_keeps_depth:
  "case feed games depth events of
     Waiting f \<Rightarrow> fd_queued f = sum_list (map chunk_len (fd_in_flight f)) \<and>
       depth \<le> fd_queued f \<and> fd_queued f < depth + CHUNK_TURNS
   | Ended err \<Rightarrow>
       (if games = [] \<or> depth = 0 then err = ''no corpus games''
        else \<exists>k e. (k, Inl e) \<in> set events \<and> err = error_text e)
   | Stuck \<Rightarrow> False"
proof -
  define plan where "plan = chunks (map (\<lambda>game. length (game_moves game) + 1) games) CHUNK_TURNS"
  define start where "start = feed_settle plan (length games) depth feed_begin"
  have fed: "feed games depth events = feed_run plan (length games) depth start events"
    by (simp add: feed_def plan_def start_def Let_def)
  have empty: "plan = [] \<longleftrightarrow> games = []" unfolding plan_def by (rule chunks_Nil_iff)
  show ?thesis
  proof (cases "games = [] \<or> depth = 0")
    case True
    then have "feed_fill plan (length games) depth feed_begin = Some feed_begin"
      using empty by (subst feed_fill.simps) (auto simp: feed_begin_def)
    then have "start = Ended ''no corpus games''" by (simp add: start_def feed_settle_def feed_begin_def)
    then show ?thesis using True by (simp add: fed)
  next
    case False
    then have some: "plan \<noteq> []" "0 < depth" using empty by auto
    have plan: "plan_ok plan (length games) CHUNK_TURNS"
      using chunks_plan_ok [of "map (\<lambda>game. length (game_moves game) + 1) games" CHUNK_TURNS]
      by (simp add: plan_def CHUNK_TURNS_def)
    have begin_ok: "feeder_ok plan feed_begin" "fd_queued feed_begin < depth + CHUNK_TURNS"
      by (simp_all add: feeder_ok_def feed_begin_def CHUNK_TURNS_def)
    have start: "feeding_ok plan depth CHUNK_TURNS start"
      unfolding start_def by (rule feed_settle_ok [OF plan begin_ok some(1)])
    have begins: "start \<noteq> Ended err" for err
      unfolding start_def by (rule feed_settle_waits [OF plan begin_ok some])
    show ?thesis
      using feed_run_ok [OF plan some(1) start, of events] feed_run_ends [OF plan some start, of events]
        begins False
      by (auto simp: fed feeding_ok_def feeder_ok_def split: feeding.splits)
  qed
qed

section \<open>The machine's identity\<close>

lemma sort_mset_cong: "mset xs = mset ys \<Longrightarrow> sort xs = sort ys"
  by (metis mset_sort properties_for_sort sorted_sort)

text \<open>The order the kernel lists the cards in does not change the identity, so it does not change the key
  of a cached result either.\<close>

lemma gpu_ids_order:
  assumes "mset drm = mset drm'"
  shows "gpu_ids drm nvidia env = gpu_ids drm' nvidia env"
  unfolding gpu_ids_def by (rule sort_mset_cong) (simp add: assms)

lemma cache_key_order:
  "mset drm = mset drm' \<Longrightarrow>
   cache_key_build (machine_of drm nvidia env is_file canonical stat) cfg games pinned =
   cache_key_build (machine_of drm' nvidia env is_file canonical stat) cfg games pinned"
  by (simp add: machine_of_def gpu_ids_order [of drm drm'])

text \<open>A binary named with a slash is never looked up; a bare name that is on no directory of the path stays
  as it is.\<close>

lemma find_binary_found:
  assumes "find_binary path is_file binary \<noteq> binary"
  shows "is_file (find_binary path is_file binary) \<and> CHR ''/'' \<notin> set binary"
proof -
  obtain dirs where path: "path = Some dirs" "CHR ''/'' \<notin> set binary"
    using assms by (auto simp: find_binary_def split: option.splits if_splits)
  obtain found where found: "List.find is_file (map (\<lambda>dir. path_join dir binary) (split_on CHR '':'' dirs)) = Some found"
    using assms path
    by (cases "List.find is_file (map (\<lambda>dir. path_join dir binary) (split_on CHR '':'' dirs))")
      (simp_all add: find_binary_def)
  have "is_file found" using find_Some_iff [THEN iffD1, OF found] by auto
  then show ?thesis using path found by (simp add: find_binary_def)
qed

text \<open>Only the first trial's slow start is forgiven, and a trial never lowers what was.\<close>

lemma clock_forgives_once:
  "tc_forgiven (clock_trial wall startup (clock_trial wall' startup' c)) = tc_forgiven (clock_trial wall' startup' c)"
  by (cases "tc_forgiven c") (simp_all add: clock_trial_def Let_def)

text \<open>The file is replaced whole or not at all: a store that fails at any step leaves the cache as it was,
  and one that succeeds is what the next start reads, as the model of the tuning has it.\<close>

lemma cache_file_atomic:
  assumes "cp_tmp paths \<noteq> cp_file paths" and "\<And>es text. encode es = Inr text \<Longrightarrow> decode text = Some es"
    and "cache_file_store decode encode faults paths entry disk = (res, disk')"
  shows "cache_read decode (disk' (cp_file paths)) =
      (if is_ok res then cache_store entry (cache_read decode (disk (cp_file paths)))
       else cache_read decode (disk (cp_file paths)))"
    and "\<not> is_ok res \<Longrightarrow> disk' (cp_file paths) = disk (cp_file paths)"
    and "name \<notin> {cp_tmp paths, cp_file paths} \<Longrightarrow> disk' name = disk name"
  using assms(1,3)
  by (auto simp: cache_file_store_def cache_read_def Let_def assms(2) split: option.splits sum.splits)

end
