(* ===== verification/Hardware.thy ===== *)
theory Hardware
  imports Rust_Text
begin

text \<open>
  Readings of the GPU's lanes (\<open>src/src/engine/autotune/hw.rs\<close>): the KFD topology's \<open>properties\<close> file and
  the output of \<open>clinfo --raw\<close>.  32-bit products wrap, as in a release build.
\<close>

section \<open>Model\<close>

text \<open>\<open>u32\<close> multiplication.\<close>

definition mul_u32 :: "nat \<Rightarrow> nat \<Rightarrow> nat" where
  "mul_u32 a b = (a * b) mod 4294967296"

definition kfd_field :: "string \<Rightarrow> string \<Rightarrow> nat option" where
  "kfd_field props name =
     find_map (\<lambda>line. case split_once (CHR '' '') line of
         None \<Rightarrow> None
       | Some (key, val) \<Rightarrow> (if key = name then parse_unsigned u32_max (trim val) else None))
       (text_lines props)"

definition parse_kfd_properties :: "string \<Rightarrow> nat option" where
  "parse_kfd_properties props =
     (case opt_filter (\<lambda>n. 0 < n) (kfd_field props ''simd_count'') of
        None \<Rightarrow> None
      | Some simds \<Rightarrow>
          (case opt_filter (\<lambda>n. 0 < n) (kfd_field props ''simd_per_cu'') of
             None \<Rightarrow> None
           | Some per_cu \<Rightarrow> Some (mul_u32 (simds div per_cu) 64)))"

definition opt_max :: "nat list \<Rightarrow> nat option" where
  "opt_max xs = (if xs = [] then None else Some (foldr max xs 0))"

text \<open>The readable \<open>properties\<close> files of the nodes, biggest reading first choice.\<close>

definition kfd_lanes :: "string list \<Rightarrow> nat option" where
  "kfd_lanes files = opt_max (List.map_filter parse_kfd_properties files)"

text \<open>\<open>str::split_whitespace\<close>: the maximal pieces between white space, none empty.\<close>

definition space_prefix :: "string \<Rightarrow> string option" where
  "space_prefix s = find_map (\<lambda>w. if w = [] then None else strip_prefix w s) white_space"

lemma space_prefix_shorter: "space_prefix s = Some t \<Longrightarrow> length t < length s"
  by (auto simp: space_prefix_def strip_prefix_Some dest!: find_map_Some split: if_splits)

function split_words :: "string \<Rightarrow> string \<Rightarrow> string list" where
  "split_words acc [] = (if acc = [] then [] else [acc])"
| "split_words acc (c # s) =
     (case space_prefix (c # s) of
        Some t \<Rightarrow> (if acc = [] then [] else [acc]) @ split_words [] t
      | None \<Rightarrow> split_words (acc @ [c]) s)"
  by pat_completeness auto
termination
  by (relation "measure (\<lambda>(acc, s). length s)") (auto dest: space_prefix_shorter)

definition split_whitespace :: "string \<Rightarrow> string list" where
  "split_whitespace s = split_words [] s"

record cl_device =
  cl_tag :: string
  cl_units :: "nat option"
  cl_vendor :: "string option"
  cl_gpu :: bool

definition cl_find :: "cl_device list \<Rightarrow> string \<Rightarrow> cl_device list \<times> nat" where
  "cl_find devices tag =
     (case position (\<lambda>d. cl_tag d = tag) devices of
        Some idx \<Rightarrow> (devices, idx)
      | None \<Rightarrow> (devices @ [\<lparr>cl_tag = tag, cl_units = None, cl_vendor = None, cl_gpu = False\<rparr>],
                 length devices))"

definition cl_set :: "string \<Rightarrow> string \<Rightarrow> cl_device \<Rightarrow> cl_device" where
  "cl_set key val dev =
     (if key = ''CL_DEVICE_MAX_COMPUTE_UNITS'' then dev\<lparr>cl_units := parse_unsigned u32_max val\<rparr>
      else if key = ''CL_DEVICE_VENDOR_ID'' then dev\<lparr>cl_vendor := Some val\<rparr>
      else if key = ''CL_DEVICE_TYPE'' then dev\<lparr>cl_gpu := contains_str ''GPU'' val\<rparr>
      else dev)"

definition cl_line :: "string \<Rightarrow> cl_device list \<Rightarrow> cl_device list" where
  "cl_line line devices =
     (case split_whitespace line of
        tag # key # parts \<Rightarrow>
          (if strip_prefix ''['' tag = None then devices
           else (case cl_find devices tag of (devices, idx) \<Rightarrow>
             (case get_at devices idx of
                None \<Rightarrow> devices
              | Some dev \<Rightarrow> devices[idx := cl_set key (join '' '' parts) dev])))
      | _ \<Rightarrow> devices)"

definition lanes_per_unit :: "string option \<Rightarrow> nat" where
  "lanes_per_unit vendor =
     (if vendor = Some ''0x10de'' then 128 else if vendor = Some ''0x8086'' then 8 else 64)"

definition parse_clinfo_lanes :: "string \<Rightarrow> nat option" where
  "parse_clinfo_lanes raw =
     opt_max (List.map_filter (\<lambda>d. map_option (\<lambda>units. mul_u32 units (lanes_per_unit (cl_vendor d))) (cl_units d))
       (filter cl_gpu (fold cl_line (text_lines raw) [])))"

text \<open>\<open>clinfo\<close>: its output, unless it could not be run or took more than ten seconds.\<close>

definition clinfo_lanes :: "string option \<Rightarrow> nat option" where
  "clinfo_lanes stdout = Option.bind stdout parse_clinfo_lanes"

record hardware =
  hw_cpus :: nat
  hw_gpu_lanes :: "nat option"

text \<open>The \<open>properties\<close> files of the topology, if its directory can be read; \<open>clinfo\<close> only where they say nothing.\<close>

definition hardware_probe :: "nat option \<Rightarrow> string list option \<Rightarrow> string option \<Rightarrow> hardware" where
  "hardware_probe parallelism nodes stdout =
     \<lparr>hw_cpus = opt_else 1 parallelism,
      hw_gpu_lanes = (case Option.bind nodes kfd_lanes of Some lanes \<Rightarrow> Some lanes | None \<Rightarrow> clinfo_lanes stdout)\<rparr>"

section \<open>Devices\<close>

lemma opt_max_Some: "opt_max xs = Some m \<longleftrightarrow> xs \<noteq> [] \<and> m \<in> set xs \<and> (\<forall>x \<in> set xs. x \<le> m)"
proof -
  have "xs \<noteq> [] \<Longrightarrow> foldr max xs 0 \<in> set xs" for xs :: "nat list"
  proof (induction xs)
    case (Cons x xs)
    then show ?case by (cases "xs = []") (auto simp: max_def)
  qed simp
  moreover have "x \<in> set xs \<Longrightarrow> x \<le> foldr max xs 0" for x and xs :: "nat list"
    by (induction xs) auto
  ultimately show ?thesis by (auto simp: opt_max_def intro: antisym)
qed

text \<open>Each device keeps one entry, however its fields are scattered over the lines.\<close>

lemma cl_line_tags: "distinct (map cl_tag devices) \<Longrightarrow> distinct (map cl_tag (cl_line line devices))"
proof -
  assume d: "distinct (map cl_tag devices)"
  have keep: "cl_tag (cl_set key val dev) = cl_tag dev" for key val dev by (simp add: cl_set_def)
  have found: "distinct (map cl_tag (fst (cl_find devices tag)))" for tag
    using d by (auto simp: cl_find_def position_None split: option.splits)
  have upd: "map cl_tag (ds[i := cl_set key val (ds ! i)]) = map cl_tag ds" for ds i key val
    by (cases "i < length ds") (simp_all add: map_update keep list_update_same_conv list_update_beyond)
  show ?thesis
  proof (cases "split_whitespace line")
    case Nil
    then show ?thesis using d by (simp add: cl_line_def)
  next
    case (Cons tag rest)
    then show ?thesis using d found [of tag] upd
      by (cases rest) (auto simp: cl_line_def split: option.splits prod.splits)
  qed
qed

text \<open>A \<open>clinfo\<close> reading is the largest GPU's: CPU devices and devices without compute units never count.\<close>

lemma clinfo_devices:
  "\<exists>devices. devices = fold cl_line (text_lines raw) [] \<and> distinct (map cl_tag devices) \<and>
     (case parse_clinfo_lanes raw of
        None \<Rightarrow> list_all (\<lambda>d. \<not> (cl_gpu d \<and> cl_units d \<noteq> None)) devices
      | Some l \<Rightarrow> (\<exists>d \<in> set devices. cl_gpu d \<and> (\<exists>u. cl_units d = Some u \<and> l = mul_u32 u (lanes_per_unit (cl_vendor d)))))"
proof -
  have "distinct (map cl_tag (fold cl_line ls ds))" if "distinct (map cl_tag ds)" for ls ds
    using that by (induction ls arbitrary: ds) (simp_all add: cl_line_tags)
  moreover define devices where "devices = fold cl_line (text_lines raw) []"
  ultimately have tags: "distinct (map cl_tag devices)" by simp
  define lanes where "lanes = List.map_filter (\<lambda>d. map_option (\<lambda>units. mul_u32 units (lanes_per_unit (cl_vendor d))) (cl_units d))
       (filter cl_gpu devices)"
  have parse: "parse_clinfo_lanes raw = opt_max lanes"
    by (simp add: parse_clinfo_lanes_def lanes_def devices_def)
  have members: "set lanes = {mul_u32 u (lanes_per_unit (cl_vendor d)) | d u.
      d \<in> set devices \<and> cl_gpu d \<and> cl_units d = Some u}"
    by (force simp: lanes_def map_filter_def)
  show ?thesis
  proof (cases "opt_max lanes")
    case None
    then have "set lanes = {}" by (simp add: opt_max_def split: if_splits)
    then show ?thesis using tags parse None members by (auto simp: devices_def [symmetric] list_all_iff)
  next
    case (Some l)
    then have "l \<in> set lanes" by (simp add: opt_max_Some)
    then show ?thesis using tags parse Some members by (auto simp: devices_def [symmetric])
  qed
qed

text \<open>KFD lanes are whole compute units of 64 lanes; a node without SIMDs, a CPU, reads nothing.\<close>

lemma kfd_units: "parse_kfd_properties props = Some l \<Longrightarrow> 64 dvd l"
proof -
  have "64 dvd (n * 64) mod 4294967296" for n :: nat
    by (rule dvd_mod) simp_all
  then show "parse_kfd_properties props = Some l \<Longrightarrow> 64 dvd l"
    by (auto simp: parse_kfd_properties_def mul_u32_def split: option.splits)
qed

lemma kfd_cpu_node: "kfd_field props ''simd_count'' = Some 0 \<Longrightarrow> parse_kfd_properties props = None"
  by (simp add: parse_kfd_properties_def)

lemma kfd_radeon:
  "parse_kfd_properties (''cpu_cores_count 0'' @ [CHR 0x0A] @ ''simd_count 144'' @ [CHR 0x0A] @ ''simd_per_cu 2'') =
     Some 4608"
proof -
  have "text_lines (''cpu_cores_count 0'' @ [CHR 0x0A] @ ''simd_count 144'' @ [CHR 0x0A] @ ''simd_per_cu 2'') =
      [''cpu_cores_count 0'', ''simd_count 144'', ''simd_per_cu 2'']" by code_simp
  moreover have "trim ''144'' = ''144''" "trim ''2'' = ''2''" "trim ''0'' = ''0''" by code_simp+
  moreover have "parse_unsigned u32_max ''144'' = Some 144" "parse_unsigned u32_max ''2'' = Some 2"
  proof -
    have "show_nat 144 = ''144''" "show_nat 2 = ''2''" by code_simp+
    moreover have "(144::nat) \<le> u32_max" "(2::nat) \<le> u32_max" by (simp_all add: u32_max_def)
    ultimately show "parse_unsigned u32_max ''144'' = Some 144" "parse_unsigned u32_max ''2'' = Some 2"
      using parse_show_nat by metis+
  qed
  ultimately show ?thesis by (simp add: parse_kfd_properties_def kfd_field_def mul_u32_def)
qed

text \<open>\<open>clinfo\<close> decides only on a host where no node of the topology is a GPU: where one is, its lanes are the
  largest node's, whatever \<open>clinfo\<close> would have said.\<close>

lemma probe_sysfs_first:
  "node \<in> set files \<Longrightarrow> parse_kfd_properties node = Some l \<Longrightarrow>
   hw_gpu_lanes (hardware_probe cpus (Some files) stdout) = kfd_lanes files \<and>
   (\<exists>lanes. kfd_lanes files = Some lanes \<and> l \<le> lanes)"
proof -
  assume node: "node \<in> set files" "parse_kfd_properties node = Some l"
  then have l: "l \<in> set (List.map_filter parse_kfd_properties files)" by (force simp: map_filter_def)
  then obtain lanes where lanes: "kfd_lanes files = Some lanes"
    by (cases "kfd_lanes files") (auto simp: kfd_lanes_def opt_max_def split: if_splits)
  then have "l \<le> lanes" using l by (simp add: kfd_lanes_def opt_max_Some)
  with lanes show ?thesis by (simp add: hardware_probe_def)
qed

lemma probe_clinfo:
  "(\<forall>node \<in> set files. parse_kfd_properties node = None) \<Longrightarrow>
   hw_gpu_lanes (hardware_probe cpus (Some files) stdout) = clinfo_lanes stdout"
proof -
  assume "\<forall>node \<in> set files. parse_kfd_properties node = None"
  then have "List.map_filter parse_kfd_properties files = []" by (induction files) (simp_all add: map_filter_def)
  then show ?thesis by (simp add: hardware_probe_def kfd_lanes_def opt_max_def)
qed

end
