(* ===== verification/Startup.thy ===== *)
theory Startup
  imports Autotune Cluster_Server Http "HOL-Library.Monad_Syntax"
begin

text \<open>
  From the command line to the running configuration: the roles and their flags
  (\<open>src/src/cli.rs\<close>), the merged configuration and its sections (\<open>src/src/config.rs\<close>,
  \<open>src/src/main.rs\<close>), the engine setup and the two plugins that tune it
  (\<open>src/src/engine/mod.rs\<close>).  A configuration is a map from section and key to a scalar; merging
  lets the later layer win, as figment's \<open>merge\<close> does.  Parsing argv is clap's: a parameter.
\<close>

section \<open>Model\<close>

datatype cfg_value = Val_Int int | Val_Real fl | Val_Bool bool | Val_Text string

type_synonym layer = "string \<times> string \<rightharpoonup> cfg_value"

subsection \<open>Flags\<close>

record engine_flags =
  arg_max_visits :: "nat option"
  arg_backend :: "string option"
  arg_fp16 :: bool
  arg_analysis_threads :: "nat option"
  arg_search_threads_per_analysis :: "nat option"
  arg_nn_server_threads :: "nat option"
  arg_nn_max_batch_size :: "nat option"
  arg_model :: "string option"
  arg_human_model :: "string option"
  arg_no_autotune :: bool

record slots_flags =
  arg_concurrency :: "nat option"

record worker_flags =
  arg_slots :: slots_flags
  arg_orchestrator_url :: "string option"
  arg_name :: "string option"

datatype role =
    Role_Standalone engine_flags slots_flags
  | Role_Orchestrator
  | Role_Worker engine_flags worker_flags
  | Role_Bench engine_flags
  | Role_Healthcheck
  | Role_Autotune bool bool engine_flags slots_flags

definition no_engine_args :: engine_flags where
  "no_engine_args = \<lparr>arg_max_visits = None, arg_backend = None, arg_fp16 = False,
     arg_analysis_threads = None, arg_search_threads_per_analysis = None, arg_nn_server_threads = None,
     arg_nn_max_batch_size = None, arg_model = None, arg_human_model = None, arg_no_autotune = False\<rparr>"

definition role_default :: role where
  "role_default = Role_Standalone no_engine_args \<lparr>arg_concurrency = None\<rparr>"

definition num_key :: "string \<Rightarrow> nat option \<Rightarrow> (string \<times> cfg_value) list" where
  "num_key key v = (case v of None \<Rightarrow> [] | Some n \<Rightarrow> [(key, Val_Int (int n))])"

definition text_key :: "string \<Rightarrow> string option \<Rightarrow> (string \<times> cfg_value) list" where
  "text_key key v = (case v of None \<Rightarrow> [] | Some s \<Rightarrow> [(key, Val_Text s)])"

text \<open>Only the flags that were given; \<open>--no-autotune\<close> is stored negated.\<close>

definition engine_section :: "engine_flags \<Rightarrow> (string \<times> cfg_value) list" where
  "engine_section a =
     num_key ''max_visits'' (arg_max_visits a) @
     text_key ''backend'' (arg_backend a) @
     (if arg_fp16 a then [(''fp16'', Val_Bool True)] else []) @
     num_key ''analysis_threads'' (arg_analysis_threads a) @
     num_key ''search_threads_per_analysis'' (arg_search_threads_per_analysis a) @
     num_key ''nn_server_threads'' (arg_nn_server_threads a) @
     num_key ''nn_max_batch_size'' (arg_nn_max_batch_size a) @
     text_key ''model'' (arg_model a) @
     text_key ''human_model'' (arg_human_model a) @
     (if arg_no_autotune a then [(''autotune'', Val_Bool False)] else [])"

definition slots_section :: "slots_flags \<Rightarrow> (string \<times> cfg_value) list" where
  "slots_section a = num_key ''concurrency'' (arg_concurrency a)"

definition worker_section :: "worker_flags \<Rightarrow> (string \<times> cfg_value) list" where
  "worker_section a =
     slots_section (arg_slots a) @ text_key ''orchestrator_url'' (arg_orchestrator_url a) @
     text_key ''name'' (arg_name a)"

definition layer_of :: "(string \<times> cfg_value) list \<Rightarrow> (string \<times> cfg_value) list \<Rightarrow> layer" where
  "layer_of engine wrk = (\<lambda>(section, key).
     if section = ''engine'' then map_of engine key
     else if section = ''worker'' then map_of wrk key else None)"

fun role_overrides :: "role \<Rightarrow> layer" where
  "role_overrides (Role_Standalone e s) = layer_of (engine_section e) (slots_section s)"
| "role_overrides (Role_Autotune fast force e s) = layer_of (engine_section e) (slots_section s)"
| "role_overrides (Role_Worker e w) = layer_of (engine_section e) (worker_section w)"
| "role_overrides (Role_Bench e) = layer_of (engine_section e) []"
| "role_overrides Role_Orchestrator = layer_of [] []"
| "role_overrides Role_Healthcheck = layer_of [] []"

fun role_name :: "role \<Rightarrow> string" where
  "role_name (Role_Standalone e s) = ''standalone''"
| "role_name Role_Orchestrator = ''orchestrator''"
| "role_name (Role_Worker e w) = ''worker''"
| "role_name (Role_Bench e) = ''bench''"
| "role_name Role_Healthcheck = ''healthcheck''"
| "role_name (Role_Autotune fast force e s) = ''autotune''"

text \<open>The role from argv, else from the environment; \<open>None\<close>: the process exits with a usage message.
  \<open>cli argv\<close> is clap's verdict: no parse, or the role given, if any.\<close>

definition role_resolve ::
    "(string list \<Rightarrow> role option option) \<Rightarrow> string list \<Rightarrow> string option \<Rightarrow> role option" where
  "role_resolve cli argv role_env =
     (case cli argv of
        None \<Rightarrow> None
      | Some (Some r) \<Rightarrow> Some r
      | Some None \<Rightarrow>
          (case role_env of
             None \<Rightarrow> Some role_default
           | Some raw \<Rightarrow> map_option (opt_else role_default) (cli [''katago-ws'', raw])))"

text \<open>\<open>App::with_figment(file and environment).merge(role.overrides())\<close>\<close>

definition app_config :: "layer \<Rightarrow> role \<Rightarrow> layer" where
  "app_config below role = below ++ role_overrides role"

subsection \<open>Sections\<close>

definition u64_max :: nat where "u64_max = 18446744073709551615"

text \<open>A field of a section with a default: absent, of the right type, or an error (\<open>None\<close>).\<close>

definition de_text :: "layer \<Rightarrow> string \<Rightarrow> string \<Rightarrow> string \<Rightarrow> string option" where
  "de_text L section key dflt =
     (case L (section, key) of None \<Rightarrow> Some dflt | Some (Val_Text s) \<Rightarrow> Some s | _ \<Rightarrow> None)"

definition de_bool :: "layer \<Rightarrow> string \<Rightarrow> string \<Rightarrow> bool \<Rightarrow> bool option" where
  "de_bool L section key dflt =
     (case L (section, key) of None \<Rightarrow> Some dflt | Some (Val_Bool b) \<Rightarrow> Some b | _ \<Rightarrow> None)"

definition de_int :: "int \<Rightarrow> int \<Rightarrow> layer \<Rightarrow> string \<Rightarrow> string \<Rightarrow> int \<Rightarrow> int option" where
  "de_int lo hi L section key dflt =
     (case L (section, key) of
        None \<Rightarrow> Some dflt
      | Some (Val_Int n) \<Rightarrow> (if lo \<le> n \<and> n \<le> hi then Some n else None)
      | _ \<Rightarrow> None)"

definition de_nat :: "nat \<Rightarrow> layer \<Rightarrow> string \<Rightarrow> string \<Rightarrow> nat \<Rightarrow> nat option" where
  "de_nat hi L section key dflt = map_option nat (de_int 0 (int hi) L section key (int dflt))"

definition de_f32 :: "layer \<Rightarrow> string \<Rightarrow> string \<Rightarrow> fl \<Rightarrow> fl option" where
  "de_f32 L section key dflt =
     (case L (section, key) of
        None \<Rightarrow> Some dflt
      | Some (Val_Real x) \<Rightarrow> Some (fconv f32 x)
      | Some (Val_Int n) \<Rightarrow> Some (rnd f32 (of_int n))
      | _ \<Rightarrow> None)"

definition de_backend :: "layer \<Rightarrow> engine_backend \<Rightarrow> engine_backend option" where
  "de_backend L dflt =
     (case L (''engine'', ''backend'') of
        None \<Rightarrow> Some dflt
      | Some (Val_Text s) \<Rightarrow> List.find (\<lambda>b. as_arg b = s) [Flex, Wgpu, Rocm, Upstream]
      | _ \<Rightarrow> None)"

definition de_mode :: "layer \<Rightarrow> autotune_mode_kind \<Rightarrow> autotune_mode_kind option" where
  "de_mode L dflt =
     (case L (''engine'', ''autotune_mode'') of
        None \<Rightarrow> Some dflt
      | Some (Val_Text s) \<Rightarrow> List.find (\<lambda>m. mode_name m = s) [Thorough_Mode, Fast_Mode]
      | _ \<Rightarrow> None)"

definition de_engine :: "nat option \<Rightarrow> layer \<Rightarrow> engine_config option" where
  "de_engine parallelism L =
     (let d = default_engine_config parallelism; s = ''engine'' in do {
        binary' \<leftarrow> de_text L s ''binary'' (engine_binary d);
        backend' \<leftarrow> de_backend L (engine_backend d);
        fp16' \<leftarrow> de_bool L s ''fp16'' (fp16 d);
        config' \<leftarrow> de_text L s ''config'' (config_path d);
        model' \<leftarrow> de_text L s ''model'' (model_path d);
        visits' \<leftarrow> de_nat u32_max L s ''max_visits'' (max_visits d);
        pv' \<leftarrow> de_nat u32_max L s ''analysis_pv_len'' (analysis_pv_len d);
        own' \<leftarrow> de_bool L s ''include_ownership'' (include_ownership d);
        stdev' \<leftarrow> de_bool L s ''include_ownership_stdev'' (include_ownership_stdev d);
        policy' \<leftarrow> de_bool L s ''include_policy'' (include_policy d);
        human' \<leftarrow> de_text L s ''human_model'' (human_model d);
        top' \<leftarrow> de_nat usize_max L s ''top_k'' (top_k d);
        komi' \<leftarrow> de_f32 L s ''default_komi'' (default_komi d);
        board' \<leftarrow> de_nat u8_max L s ''default_board_size'' (default_board_size d);
        timeout' \<leftarrow> de_nat u64_max L s ''request_timeout_secs'' (request_timeout_secs d);
        threads' \<leftarrow> de_nat u32_max L s ''analysis_threads'' (analysis_threads d);
        search' \<leftarrow> de_nat u32_max L s ''search_threads_per_analysis'' (search_threads_per_analysis d);
        batch' \<leftarrow> de_nat u32_max L s ''nn_max_batch_size'' (nn_max_batch_size d);
        servers' \<leftarrow> de_nat u32_max L s ''nn_server_threads'' (nn_server_threads d);
        over' \<leftarrow> de_text L s ''override_config'' (override_config d);
        screen' \<leftarrow> de_nat u32_max L s ''screen_visits'' (screen_visits d);
        wr' \<leftarrow> de_f32 L s ''refine_winrate_delta'' (refine_winrate_delta d);
        sc' \<leftarrow> de_f32 L s ''refine_score_delta'' (refine_score_delta d);
        tune' \<leftarrow> de_bool L s ''autotune'' (autotune d);
        mode' \<leftarrow> de_mode L (autotune_mode d);
        tvisits' \<leftarrow> de_nat u32_max L s ''autotune_visits'' (autotune_visits d);
        cache' \<leftarrow> de_text L s ''autotune_cache'' (autotune_cache d);
        ttimeout' \<leftarrow> de_nat u64_max L s ''autotune_timeout_secs'' (autotune_timeout_secs d);
        Some \<lparr>engine_binary = binary', engine_backend = backend', fp16 = fp16',
           config_path = config', model_path = model', max_visits = visits', analysis_pv_len = pv',
           include_ownership = own', include_ownership_stdev = stdev', include_policy = policy',
           human_model = human', top_k = top', default_komi = komi', default_board_size = board',
           request_timeout_secs = timeout', analysis_threads = threads',
           search_threads_per_analysis = search', nn_max_batch_size = batch',
           nn_server_threads = servers', override_config = over', screen_visits = screen',
           refine_winrate_delta = wr', refine_score_delta = sc', autotune = tune', autotune_mode = mode',
           autotune_visits = tvisits', autotune_cache = cache', autotune_timeout_secs = ttimeout'\<rparr>
      })"

definition de_worker :: "layer \<Rightarrow> worker_config option" where
  "de_worker L =
     (let d = default_worker_config; s = ''worker'' in do {
        conc' \<leftarrow> de_nat usize_max L s ''concurrency'' (concurrency d);
        name' \<leftarrow> de_text L s ''name'' (worker_name d);
        vt' \<leftarrow> de_int (- 2147483648) 2147483647 L s ''visibility_timeout_secs'' (visibility_timeout_secs d);
        poll' \<leftarrow> de_nat u64_max L s ''poll_secs'' (poll_secs d);
        max' \<leftarrow> de_int (- 2147483648) 2147483647 L s ''max_attempts'' (max_attempts d);
        url' \<leftarrow> de_text L s ''orchestrator_url'' (orchestrator_url d);
        token' \<leftarrow> de_text L s ''auth_token'' (worker_auth_token d);
        backoff' \<leftarrow> de_nat u64_max L s ''reconnect_backoff_secs'' (reconnect_backoff_secs d);
        Some \<lparr>concurrency = conc', worker_name = name', visibility_timeout_secs = vt', poll_secs = poll',
           max_attempts = max', orchestrator_url = url', worker_auth_token = token',
           reconnect_backoff_secs = backoff'\<rparr>
      })"

definition de_orchestrator :: "layer \<Rightarrow> orchestrator_config option" where
  "de_orchestrator L =
     map_option (\<lambda>token. \<lparr>orchestrator_auth_token = token\<rparr>)
       (de_text L ''orchestrator'' ''auth_token'' (orchestrator_auth_token default_orchestrator_config))"

definition de_api :: "layer \<Rightarrow> api_config option" where
  "de_api L =
     map_option (\<lambda>token. \<lparr>client_token = token\<rparr>)
       (de_text L ''api'' ''client_token'' (client_token default_api_config))"

text \<open>\<open>extract_inner(key).unwrap_or_default()\<close>: a section that does not deserialise is its default.\<close>

definition extract_or_default :: "'a \<Rightarrow> (layer \<Rightarrow> 'a option) \<Rightarrow> layer \<Rightarrow> 'a" where
  "extract_or_default dflt de L = opt_else dflt (de L)"

subsection \<open>The engine's setup\<close>

record engine_setup =
  setup_engine :: engine_config
  setup_explicit :: "string list"
  setup_concurrency :: nat

text \<open>\<open>sections.get::<Option<u32>>\<close>\<close>

definition de_opt_u32 :: "layer \<Rightarrow> string \<Rightarrow> nat option option" where
  "de_opt_u32 L field =
     (case L (''engine'', field) of
        None \<Rightarrow> Some None
      | Some (Val_Int n) \<Rightarrow> (if 0 \<le> n \<and> n \<le> int u32_max then Some (Some (nat n)) else None)
      | _ \<Rightarrow> None)"

fun explicit_fields :: "layer \<Rightarrow> (string \<times> string) list \<Rightarrow> string list option" where
  "explicit_fields L [] = Some []"
| "explicit_fields L ((field, key) # pending_fields) = do {
     given \<leftarrow> de_opt_u32 L field;
     rest \<leftarrow> explicit_fields L pending_fields;
     Some (if given = None then rest else field # rest)
   }"

definition setup_read :: "nat option \<Rightarrow> layer \<Rightarrow> engine_setup option" where
  "setup_read parallelism L = do {
     cfg \<leftarrow> de_engine parallelism L;
     wrk \<leftarrow> de_worker L;
     explicit \<leftarrow> explicit_fields L TUNING_FIELDS;
     Some \<lparr>setup_engine = cfg, setup_explicit = explicit, setup_concurrency = concurrency wrk\<rparr>
   }"

definition setup_tuned ::
    "tuning_env \<Rightarrow> cache_entry list \<Rightarrow> engine_setup \<Rightarrow> bool \<Rightarrow> engine_config \<times> cache_entry list" where
  "setup_tuned env cache setup force =
     autotune_apply env cache (setup_engine setup) (setup_concurrency setup) (setup_explicit setup) force"

text \<open>The configuration the engine plugin launches; \<open>None\<close>: startup fails on the configuration.\<close>

definition engine_plugin ::
    "nat option \<Rightarrow> tuning_env \<Rightarrow> cache_entry list \<Rightarrow> layer \<Rightarrow> (engine_config \<times> cache_entry list) option" where
  "engine_plugin parallelism env cache L =
     map_option (\<lambda>setup. setup_tuned env cache setup False) (setup_read parallelism L)"

definition autotune_plugin ::
    "bool \<Rightarrow> bool \<Rightarrow> nat option \<Rightarrow> tuning_env \<Rightarrow> cache_entry list \<Rightarrow> layer
       \<Rightarrow> (engine_config \<times> cache_entry list) option" where
  "autotune_plugin fast force parallelism env cache L =
     map_option (\<lambda>setup.
         (let cfg = (setup_engine setup)\<lparr>autotune := True\<rparr>;
              cfg = (if fast then cfg\<lparr>autotune_mode := Fast_Mode\<rparr> else cfg)
          in setup_tuned env cache (setup\<lparr>setup_engine := cfg\<rparr>) force))
       (setup_read parallelism L)"

subsection \<open>The web state of a role\<close>

record api_state =
  as_registry :: bool
  as_cluster :: "string option"
  as_client_token :: "string option"

text \<open>What \<open>run_standalone\<close> and \<open>run_orchestrator\<close> serve; the other roles serve no API.\<close>

fun role_api :: "role \<Rightarrow> layer \<Rightarrow> api_state option" where
  "role_api (Role_Standalone e s) L =
     Some \<lparr>as_registry = False, as_cluster = None,
           as_client_token = api_client_token (client_token (extract_or_default default_api_config de_api L))\<rparr>"
| "role_api Role_Orchestrator L =
     Some \<lparr>as_registry = True,
           as_cluster = Some (orchestrator_auth_token (extract_or_default default_orchestrator_config de_orchestrator L)),
           as_client_token = api_client_token (client_token (extract_or_default default_api_config de_api L))\<rparr>"
| "role_api role L = None"

subsection \<open>Routes and the probe\<close>

text \<open>A route: method, path, and whether the per-IP limit or the batch body limit is layered over it.\<close>

datatype rest_method = Get | Post

record route =
  rt_method :: rest_method
  rt_path :: string
  rt_limited :: bool
  rt_body_limit :: "nat option"

definition plain_route :: "rest_method \<Rightarrow> string \<Rightarrow> route" where
  "plain_route meth path = \<lparr>rt_method = meth, rt_path = path, rt_limited = False, rt_body_limit = None\<rparr>"

definition api_router :: "api_state \<Rightarrow> bool \<Rightarrow> route list" where
  "api_router api rate_limit =
     [(plain_route Post ''/analyse'')\<lparr>rt_limited := rate_limit\<rparr>,
      (plain_route Post ''/analyse/batch'')\<lparr>rt_body_limit := Some BATCH_BODY_LIMIT\<rparr>,
      plain_route Get ''/analyses/changes'',
      plain_route Get ''/analyse/{id}'',
      plain_route Get ''/analyses'',
      plain_route Get ''/workers'',
      plain_route Get ''/'',
      plain_route Get ''/analyses/stream'',
      plain_route Get ''/healthz''] @
     (if as_cluster api = None then [] else [plain_route Get ''/cluster''])"

definition health_routes :: "route list" where
  "health_routes = [plain_route Get ''/healthz'']"

text \<open>What a role's process serves, if anything.\<close>

definition role_routes :: "role \<Rightarrow> layer \<Rightarrow> bool \<Rightarrow> route list option" where
  "role_routes role L rate_limit =
     (case role of
        Role_Standalone e s \<Rightarrow> map_option (\<lambda>api. api_router api rate_limit) (role_api role L)
      | Role_Orchestrator \<Rightarrow> map_option (\<lambda>api. api_router api rate_limit) (role_api role L)
      | Role_Worker e w \<Rightarrow> Some health_routes
      | _ \<Rightarrow> None)"

definition DEFAULT_WEB_PORT :: nat where "DEFAULT_WEB_PORT = 3000"

definition healthcheck_port :: "layer \<Rightarrow> nat" where
  "healthcheck_port L =
     (case L (''web'', ''port'') of
        Some (Val_Int n) \<Rightarrow> (if 0 \<le> n \<and> n \<le> 65535 then nat n else DEFAULT_WEB_PORT)
      | _ \<Rightarrow> DEFAULT_WEB_PORT)"

text \<open>The probe: \<open>get url\<close> is the client's answer, a transport error or a status with its text.\<close>

definition probe :: "(string \<Rightarrow> string + nat \<times> string) \<Rightarrow> nat \<Rightarrow> string + unit" where
  "probe get port =
     (let url = ''http://127.0.0.1:'' @ show_nat port @ ''/healthz''
      in case get url of
           Inl err \<Rightarrow> Inl (''GET '' @ url @ '': '' @ err)
         | Inr (code, text) \<Rightarrow>
             (if code = 200 then Inr () else Inl (''unhealthy: GET '' @ url @ '' returned '' @ text)))"

section \<open>Layers and sections\<close>

fun role_engine_args :: "role \<Rightarrow> engine_flags option" where
  "role_engine_args (Role_Standalone e s) = Some e"
| "role_engine_args (Role_Worker e w) = Some e"
| "role_engine_args (Role_Bench e) = Some e"
| "role_engine_args (Role_Autotune fast force e s) = Some e"
| "role_engine_args role = None"

text \<open>The throughput flag that stands for an \<open>[engine]\<close> field.\<close>

definition throughput_flag :: "engine_flags \<Rightarrow> string \<Rightarrow> nat option" where
  "throughput_flag a field =
     (if field = ''analysis_threads'' then arg_analysis_threads a
      else if field = ''search_threads_per_analysis'' then arg_search_threads_per_analysis a
      else if field = ''nn_server_threads'' then arg_nn_server_threads a
      else if field = ''nn_max_batch_size'' then arg_nn_max_batch_size a
      else None)"

lemma num_key_simps [simp]:
  "num_key k None = []" "num_key k (Some n) = [(k, Val_Int (int n))]"
  by (simp_all add: num_key_def)

lemma map_of_num_key: "map_of (num_key k v) q = (if q = k then map_option (\<lambda>n. Val_Int (int n)) v else None)"
  by (cases v) auto

lemma map_of_text_key: "map_of (text_key k v) q = (if q = k then map_option Val_Text v else None)"
  by (cases v) (auto simp: text_key_def)

lemma engine_section_flag:
  assumes "(field, key) \<in> set TUNING_FIELDS"
  shows "map_of (engine_section a) field = map_option (\<lambda>n. Val_Int (int n)) (throughput_flag a field)"
proof -
  have pick: "map_of (if c then [e] else []) q = (if c \<and> fst e = q then Some (snd e) else None)"
    for c q and e :: "string \<times> cfg_value"
    by (cases e) simp
  have "field \<in> {''analysis_threads'', ''search_threads_per_analysis'', ''nn_server_threads'', ''nn_max_batch_size''}"
    using assms by (auto simp: TUNING_FIELDS_def)
  then show ?thesis
    by (elim insertE emptyE)
      (simp_all add: engine_section_def throughput_flag_def map_add_def map_of_num_key map_of_text_key pick
        split: option.split)
qed

lemma role_overrides_engine:
  "role_engine_args role = Some a \<Longrightarrow> role_overrides role (''engine'', k) = map_of (engine_section a) k"
  by (cases role) (auto simp: layer_of_def)

lemma app_config_flag:
  assumes "role_engine_args role = Some a" and "(field, key) \<in> set TUNING_FIELDS"
    and "throughput_flag a field = Some n"
  shows "app_config below role (''engine'', field) = Some (Val_Int (int n))"
  using role_overrides_engine [OF assms(1), of field] engine_section_flag [OF assms(2), of a] assms(3)
  by (simp add: app_config_def map_add_def)

text \<open>A flag that was not given leaves its key to the file and the environment.\<close>

lemma app_config_absent:
  assumes "role_engine_args role = Some a" and "(field, key) \<in> set TUNING_FIELDS"
    and "throughput_flag a field = None"
  shows "app_config below role (''engine'', field) = below (''engine'', field)"
  using role_overrides_engine [OF assms(1), of field] engine_section_flag [OF assms(2), of a] assms(3)
  by (simp add: app_config_def map_add_def)

lemma de_nat_int: "L (s, k) = Some (Val_Int (int n)) \<Longrightarrow> de_nat hi L s k d = Some m \<Longrightarrow> m = n"
  by (auto simp: de_nat_def de_int_def split: if_splits)

lemma de_engine_field:
  assumes "de_engine parallelism L = Some cfg" and "(field, key) \<in> set TUNING_FIELDS"
    and "L (''engine'', field) = Some (Val_Int (int n))"
  shows "field_value cfg key = n"
proof -
  have "de_nat u32_max L ''engine'' ''analysis_threads''
          (analysis_threads (default_engine_config parallelism)) = Some (analysis_threads cfg)"
      "de_nat u32_max L ''engine'' ''search_threads_per_analysis''
          (search_threads_per_analysis (default_engine_config parallelism)) = Some (search_threads_per_analysis cfg)"
      "de_nat u32_max L ''engine'' ''nn_max_batch_size''
          (nn_max_batch_size (default_engine_config parallelism)) = Some (nn_max_batch_size cfg)"
      "de_nat u32_max L ''engine'' ''nn_server_threads''
          (nn_server_threads (default_engine_config parallelism)) = Some (nn_server_threads cfg)"
    using assms(1) by (auto simp: de_engine_def Let_def bind_eq_Some_conv)
  then show ?thesis using assms(2,3) de_nat_int [of L "''engine''"]
    by (auto simp: TUNING_FIELDS_def field_value_def)
qed

lemma explicit_fields_mem:
  assumes "explicit_fields L pending_fields = Some explicit" and "(field, key) \<in> set pending_fields"
    and "L (''engine'', field) \<noteq> None"
  shows "field \<in> set explicit"
  using assms
proof (induction pending_fields arbitrary: explicit)
  case (Cons f pending_fields)
  then show ?case
    by (cases f) (auto simp: bind_eq_Some_conv de_opt_u32_def split: if_splits cfg_value.splits)
qed simp

lemma setup_pins:
  assumes "setup_read parallelism L = Some setup" and "(field, key) \<in> set TUNING_FIELDS"
    and "L (''engine'', field) = Some (Val_Int (int n))" and "0 < n"
    and "map_of (ov_parse (override_config (setup_engine setup))) key = None"
  shows "map_of (pins (setup_engine setup) (setup_explicit setup)) key = Some (show_nat n)"
proof -
  have read: "de_engine parallelism L = Some (setup_engine setup)"
      "explicit_fields L TUNING_FIELDS = Some (setup_explicit setup)"
    using assms(1) by (auto simp: setup_read_def bind_eq_Some_conv)
  have "field \<in> set (setup_explicit setup)"
    using explicit_fields_mem [OF read(2) assms(2)] assms(3) by simp
  then have "explicit_key (setup_explicit setup) key"
    using assms(2) by (force simp: explicit_key_def)
  then show ?thesis
    using de_engine_field [OF read(1) assms(2,3)] assms(4,5) by (simp add: pins_map)
qed

text \<open>A value of another type in a secret's place counts as no secret at all.\<close>

definition secret_at :: "layer \<Rightarrow> string \<Rightarrow> string \<Rightarrow> string" where
  "secret_at L section key = (case L (section, key) of Some (Val_Text token) \<Rightarrow> token | _ \<Rightarrow> [])"

lemma extract_orchestrator_token:
  "orchestrator_auth_token (extract_or_default default_orchestrator_config de_orchestrator L) =
     secret_at L ''orchestrator'' ''auth_token''"
  by (simp add: extract_or_default_def de_orchestrator_def de_text_def default_orchestrator_config_def secret_at_def
      split: option.split cfg_value.split)

lemma extract_client_token:
  "client_token (extract_or_default default_api_config de_api L) =
     secret_at L ''api'' ''client_token''"
  by (simp add: extract_or_default_def de_api_def de_text_def default_api_config_def secret_at_def
      split: option.split cfg_value.split)

lemma numeric_secret_disables_auth:
  assumes "L (''orchestrator'', ''auth_token'') = Some (Val_Int n)"
    and "role_api Role_Orchestrator L = Some api"
  shows "cluster_ws (as_cluster api) (as_registry api) authorization = Upgraded"
  using assms by (auto simp: extract_orchestrator_token secret_at_def cluster_ws_def authorized_def)

lemma numeric_client_token_opens_batch:
  "L (''api'', ''client_token'') = Some (Val_Int n) \<Longrightarrow> role_api role L = Some api \<Longrightarrow> as_client_token api = None"
  by (cases role) (auto simp: extract_client_token secret_at_def api_client_token_def)

text \<open>What each role exposes.  Only the submission can be throttled, only the orchestrator mounts the cluster
  socket, and every role that serves has the probe's route.\<close>

lemma routes_exposed:
  assumes "role_routes role L rate_limit = Some routes" and "r \<in> set routes"
  shows "(rt_limited r \<longrightarrow> rate_limit \<and> rt_path r = ''/analyse'') \<and>
    (rt_method r = Post \<longrightarrow> rt_path r = ''/analyse'' \<or> rt_path r = ''/analyse/batch'') \<and>
    (rt_path r = ''/cluster'' \<longrightarrow> role = Role_Orchestrator)"
proof (cases role)
  case Role_Orchestrator
  then show ?thesis using assms by (auto simp: role_routes_def api_router_def plain_route_def)
qed (use assms in \<open>auto simp: role_routes_def api_router_def plain_route_def health_routes_def\<close>)

lemma routes_probed:
  "role_routes role L rate_limit = Some routes \<Longrightarrow> plain_route Get ''/healthz'' \<in> set routes"
  by (cases role) (auto simp: role_routes_def api_router_def health_routes_def)

lemma probe_ok: "probe get port = Inr () \<longleftrightarrow>
    (\<exists>text. get (''http://127.0.0.1:'' @ show_nat port @ ''/healthz'') = Inr (200, text))"
  by (auto simp: probe_def Let_def split: sum.splits if_splits)

end
