(* ===== verification/Bench.thy ===== *)
theory Bench
  imports Annotate Autotune_Search "HOL-Library.Char_ord" "HOL-Library.List_Lexorder"
begin

text \<open>
  The benchmark role (\<open>src/src/bench.rs\<close>): the corpus, the work list, one game's run and the summary of
  a report.  Doubles are ordered as \<open>f64::total_cmp\<close> orders them.  The engine, the clock and the
  directory are parameters; results come in the order they complete in.
\<close>

section \<open>The total order of doubles\<close>

fun total_le :: "fl \<Rightarrow> fl \<Rightarrow> bool" where
  "total_le x NaN = True"
| "total_le NaN y = False"
| "total_le x y = fle x y"

instantiation fl :: linorder
begin

definition less_eq_fl :: "fl \<Rightarrow> fl \<Rightarrow> bool" where
  "less_eq_fl = total_le"

definition less_fl :: "fl \<Rightarrow> fl \<Rightarrow> bool" where
  "less_fl x y = (total_le x y \<and> \<not> total_le y x)"

instance
proof
  fix x y z :: fl
  show "(x < y) = (x \<le> y \<and> \<not> y \<le> x)" by (simp add: less_fl_def less_eq_fl_def)
  show "x \<le> x" by (cases x) (simp_all add: less_eq_fl_def)
  show "x \<le> y \<Longrightarrow> y \<le> z \<Longrightarrow> x \<le> z"
    by (cases x; cases y; cases z) (simp_all add: less_eq_fl_def)
  show "x \<le> y \<Longrightarrow> y \<le> x \<Longrightarrow> x = y" by (cases x; cases y) (simp_all add: less_eq_fl_def)
  show "x \<le> y \<or> y \<le> x" by (cases x; cases y) (auto simp: less_eq_fl_def)
qed

end

section \<open>Model\<close>

record bench_config =
  bc_corpus :: string
  bc_concurrency :: nat
  bc_rounds :: nat
  bc_out :: string
  bc_label :: string
  bc_sample_ms :: nat
  bc_no_warmup :: bool

definition default_bench_config :: bench_config where
  "default_bench_config =
     \<lparr>bc_corpus = ''bench/sgf'', bc_concurrency = 2, bc_rounds = 1, bc_out = ''bench/results/latest.json'',
      bc_label = [], bc_sample_ms = 250, bc_no_warmup = False\<rparr>"

record move_fingerprint =
  mf_wr :: fl
  mf_sl :: fl
  mf_best :: string

record game_run =
  gu_file :: string
  gu_round :: nat
  gu_positions :: nat
  gu_secs :: fl
  gu_fingerprint :: "move_fingerprint list"

record bench_summary =
  bs_games :: nat
  bs_positions :: nat
  bs_failures :: nat
  bs_wall_secs :: fl
  bs_games_per_sec :: fl
  bs_positions_per_sec :: fl
  bs_visits_per_sec :: fl
  bs_p50 :: fl
  bs_p95 :: fl
  bs_max :: fl
  bs_gpu_busy_mean :: "fl option"

text \<open>A directory entry: its name and what reading it gives.  A dot file has no extension.\<close>

definition is_sgf_name :: "string \<Rightarrow> bool" where
  "is_sgf_name name = (case strip_suffix ''.sgf'' name of None \<Rightarrow> False | Some stem \<Rightarrow> stem \<noteq> [])"

definition load_corpus ::
    "string \<Rightarrow> string + (string \<times> (string + string)) list \<Rightarrow> string + (string \<times> string) list" where
  "load_corpus dir entries =
     (case entries of
        Inl err \<Rightarrow> Inl (''read '' @ dir @ '': '' @ err)
      | Inr files \<Rightarrow>
          res_map (\<lambda>games. sort_key fst (sort_key snd games))
            (collect_res (\<lambda>(name, content). case content of
                 Inl err \<Rightarrow> Inl (''read '' @ path_join dir name @ '': '' @ err)
               | Inr sgf \<Rightarrow> Inr (name, sgf))
               (filter (\<lambda>(name, _). is_sgf_name name) files)))"

definition bench_work :: "nat \<Rightarrow> (string \<times> string) list \<Rightarrow> (nat \<times> string \<times> string) list" where
  "bench_work rounds games = concat (map (\<lambda>pass. map (Pair pass) games) [0..<max rounds 1])"

definition game_run_of :: "string \<Rightarrow> nat \<Rightarrow> nat \<Rightarrow> game_analysis \<Rightarrow> game_run" where
  "game_run_of name pass elapsed_ns analysis =
     \<lparr>gu_file = name, gu_round = pass, gu_positions = length (ga_moves analysis) + 1,
      gu_secs = as_secs_f64 elapsed_ns,
      gu_fingerprint = map (\<lambda>m. \<lparr>mf_wr = ma_winrate m, mf_sl = ma_score_lead m,
          mf_best = (case ma_top_moves m of [] \<Rightarrow> [] | c # _ \<Rightarrow> ca_mv c)\<rparr>) (ga_moves analysis)\<rparr>"

fun split_results :: "(string + game_run) list \<Rightarrow> game_run list \<times> nat" where
  "split_results [] = ([], 0)"
| "split_results (Inr run # rest) = (run # fst (split_results rest), snd (split_results rest))"
| "split_results (Inl err # rest) = (fst (split_results rest), snd (split_results rest) + 1)"

definition sort_runs :: "game_run list \<Rightarrow> game_run list" where
  "sort_runs runs = sort_key gu_round (sort_key gu_file runs)"

definition percentile :: "fl list \<Rightarrow> fl \<Rightarrow> fl" where
  "percentile latencies pct =
     (if latencies = [] then Fin 0
      else opt_else (Fin 0) (get_at latencies
             (nat (fcast 0 (int usize_max)
                (fround (fmul f64 (of_nat_fl f64 (length latencies - 1)) pct))))))"

definition f64_epsilon :: fl where
  "f64_epsilon = Fin (pow2 (- 52))"

definition summarize :: "game_run list \<Rightarrow> nat \<Rightarrow> fl \<Rightarrow> nat \<Rightarrow> fl option \<Rightarrow> bench_summary" where
  "summarize runs failures wall visits gpu =
     (let positions = sum_list (map gu_positions runs);
          latencies = sort (map gu_secs runs);
          wall = fmax wall f64_epsilon;
          positions_per_sec = fdiv f64 (of_nat_fl f64 positions) wall
      in \<lparr>bs_games = length runs, bs_positions = positions, bs_failures = failures, bs_wall_secs = wall,
          bs_games_per_sec = fdiv f64 (of_nat_fl f64 (length runs)) wall,
          bs_positions_per_sec = positions_per_sec,
          bs_visits_per_sec = fmul f64 positions_per_sec (of_nat_fl f64 visits),
          bs_p50 = percentile latencies (lit f64 (1 / 2)),
          bs_p95 = percentile latencies (lit f64 (95 / 100)),
          bs_max = (if latencies = [] then Fin 0 else last latencies),
          bs_gpu_busy_mean = gpu\<rparr>)"

text \<open>The mean of the readable samples of the GPU's busy counter.\<close>

definition gpu_busy_mean :: "fl option list \<Rightarrow> fl option" where
  "gpu_busy_mean reads =
     (let busy = List.map_filter (\<lambda>r. r) reads in
      if busy = [] then None
      else Some (fdiv f64 (foldl (fadd f64) (Fin 0) busy) (of_nat_fl f64 (length busy))))"

text \<open>
  A whole run.  The parameters are the directory's entries, what one analysis takes and gives, the order the
  games complete in, the wall clock and the GPU's samples.
\<close>

record bench_report =
  br_label :: string
  br_concurrency :: nat
  br_rounds :: nat
  br_summary :: bench_summary
  br_games :: "game_run list"

definition bench_result ::
    "(nat \<times> string \<times> string \<Rightarrow> nat \<times> (string + game_analysis)) \<Rightarrow> nat \<times> string \<times> string \<Rightarrow> string + game_run"
where
  "bench_result analyze item =
     (case item of (pass, name, sgf) \<Rightarrow>
        (case analyze item of (elapsed, outcome) \<Rightarrow>
          (case outcome of
             Inl err \<Rightarrow> Inl (name @ '': '' @ err)
           | Inr analysis \<Rightarrow> Inr (game_run_of name pass elapsed analysis))))"

definition bench_run ::
    "bench_config \<Rightarrow> nat \<Rightarrow> string + (string \<times> (string + string)) list \<Rightarrow> (string \<Rightarrow> string + game_analysis) \<Rightarrow>
     (nat \<times> string \<times> string \<Rightarrow> nat \<times> (string + game_analysis)) \<Rightarrow>
     ((nat \<times> string \<times> string) list \<Rightarrow> (nat \<times> string \<times> string) list) \<Rightarrow> fl \<Rightarrow> fl option list \<Rightarrow>
     string + bench_report" where
  "bench_run cfg visits entries warm analyze completion wall samples =
     (case load_corpus (bc_corpus cfg) entries of
        Inl err \<Rightarrow> Inl err
      | Inr [] \<Rightarrow> Inl (''no .sgf files in '' @ bc_corpus cfg)
      | Inr ((name, sgf) # games) \<Rightarrow>
          (case (if bc_no_warmup cfg then None else (case warm sgf of Inl err \<Rightarrow> Some err | Inr _ \<Rightarrow> None)) of
             Some err \<Rightarrow> Inl (''warm-up game '' @ name @ '' failed: '' @ err)
           | None \<Rightarrow>
               (let results = map (bench_result analyze)
                      (completion (bench_work (bc_rounds cfg) ((name, sgf) # games)));
                    runs = sort_runs (fst (split_results results))
                in Inr \<lparr>br_label = bc_label cfg, br_concurrency = max (bc_concurrency cfg) 1,
                        br_rounds = bc_rounds cfg,
                        br_summary = summarize runs (snd (split_results results)) wall visits
                          (gpu_busy_mean samples),
                        br_games = runs\<rparr>)))"

text \<open>The report is written last, its directory made first.  \<open>parent\<close> is the path's directory, if it has one;
  the other parameters are the errors of the file system and of serde.\<close>

definition bench_write ::
    "string \<Rightarrow> string option \<Rightarrow> (string \<Rightarrow> string option) \<Rightarrow> string + string \<Rightarrow> string option \<Rightarrow> string + string" where
  "bench_write out parent mkdir json write_err =
     (case Option.bind parent (\<lambda>dir. map_option (\<lambda>err. ''create '' @ dir @ '': '' @ err) (mkdir dir)) of
        Some err \<Rightarrow> Inl err
      | None \<Rightarrow>
          (case json of
             Inl err \<Rightarrow> Inl (''serialize report: '' @ err)
           | Inr text \<Rightarrow>
               (case write_err of
                  Some err \<Rightarrow> Inl (''write '' @ out @ '': '' @ err)
                | None \<Rightarrow> Inr text)))"

text \<open>The first card with a busy counter.  Paths are compared by their components, so the entries' names
  decide.\<close>

definition find_gpu_busy_file :: "string list option \<Rightarrow> (string \<Rightarrow> bool) \<Rightarrow> string option" where
  "find_gpu_busy_file entries exists =
     Option.bind entries (\<lambda>names.
       get_at (map (\<lambda>name. path_join (path_join ''/sys/class/drm'' name) ''device/gpu_busy_percent'')
         (sort (filter (\<lambda>name. exists (path_join (path_join ''/sys/class/drm'' name) ''device/gpu_busy_percent'')) names))) 0)"

section \<open>Accounting and latencies\<close>

lemma split_results_total: "length (fst (split_results rs)) + snd (split_results rs) = length rs"
  by (induction rs rule: split_results.induct) auto

lemma split_results_runs: "mset (map Inr (fst (split_results rs))) = mset (filter (\<lambda>r. \<not> isl r) rs)"
  by (induction rs rule: split_results.induct) auto

lemma sort_runs_perm: "mset (sort_runs runs) = mset runs"
  by (simp add: sort_runs_def)

text \<open>Every game of the corpus is run once per round.\<close>

lemma bench_work_count: "length (bench_work rounds games) = max rounds 1 * length games"
  by (simp add: bench_work_def length_concat comp_def sum_list_triv)

text \<open>
  A report accounts for every game of every round: whatever order they complete in, those it measured and
  those it counts as failed add up to the work.
\<close>

lemma bench_accounts:
  assumes "bench_run cfg visits entries warm analyze completion wall samples = Inr report"
    and "\<And>work. mset (completion work) = mset work"
  shows "\<exists>games. load_corpus (bc_corpus cfg) entries = Inr games \<and> games \<noteq> [] \<and>
    length (br_games report) = bs_games (br_summary report) \<and>
    bs_games (br_summary report) + bs_failures (br_summary report) = max (bc_rounds cfg) 1 * length games"
proof -
  define res where "res games = map (bench_result analyze) (completion (bench_work (bc_rounds cfg) games))"
    for games
  obtain games where games: "load_corpus (bc_corpus cfg) entries = Inr games" "games \<noteq> []"
    "br_games report = sort_runs (fst (split_results (res games)))"
    "bs_games (br_summary report) = length (br_games report)"
    "bs_failures (br_summary report) = snd (split_results (res games))"
    using assms(1) unfolding bench_run_def res_def
    by (auto simp: Let_def summarize_def split: sum.splits list.splits option.splits)
  have "length (br_games report) = length (fst (split_results (res games)))"
    unfolding games(3) using sort_runs_perm by (metis size_mset)
  moreover have "length (res games) = max (bc_rounds cfg) 1 * length games"
    using assms(2) unfolding res_def by (metis bench_work_count length_map size_mset)
  ultimately show ?thesis using games split_results_total [of "res games"] by auto
qed

lemma percentile_index:
  assumes "n \<le> 2 ^ 53" and "0 \<le> c" and "c \<le> 1"
  shows "nat (fcast 0 (int usize_max) (fround (fmul f64 (of_nat_fl f64 n) (Fin c)))) =
      nat (round_half_away (rnd_rat f64 (of_nat n * c))) \<and>
    nat (round_half_away (rnd_rat f64 (of_nat n * c))) \<le> n"
proof -
  have n: "rnd f64 (of_nat n) = Fin (of_nat n)" using assms(1) by (intro rnd_of_nat) simp_all
  have "(of_nat n :: rat) \<le> of_nat (2 ^ 53)" using assms(1) by (simp only: of_nat_le_iff)
  then have big: "(of_nat n :: rat) \<le> pow2 53" by (simp add: pow2_nat)
  have "of_nat n * c \<le> of_nat n" using assms(2,3) by (simp add: mult_left_le)
  then obtain y where y: "rnd f64 (of_nat n * c) = Fin y" "0 \<le> y"
    using rnd_pow2_bound [of "of_nat n * c" 53] big assms(2) by auto
  have eq: "rnd_rat f64 (of_nat n * c) = y" using y(1) by (auto simp: rnd_eq split: if_splits)
  have "y \<le> of_nat n"
    using rnd_mono [of f64 "of_nat n * c" "of_nat n"] \<open>of_nat n * c \<le> of_nat n\<close> n y by simp
  then have floor: "0 \<le> \<lfloor>y + 1 / 2\<rfloor>" "\<lfloor>y + 1 / 2\<rfloor> \<le> int n"
    using y(2) by (auto simp: floor_le_iff)
  have "int n \<le> int usize_max" using assms(1) by (simp add: usize_max_def)
  then show ?thesis using n y floor unfolding eq
    by (simp add: of_nat_fl_def round_half_away_def trunc_rat_def)
qed

lemma round_half_away_mono: "0 \<le> x \<Longrightarrow> x \<le> y \<Longrightarrow> round_half_away x \<le> round_half_away y"
  by (simp add: round_half_away_def floor_mono)

text \<open>The latencies of a benchmark report are latencies of its games: the median is at most the 95th
  percentile, that at most the maximum, and no game took longer than the maximum.\<close>

lemma latencies_ordered:
  assumes "runs \<noteq> []" and "length runs \<le> 2 ^ 53"
  shows "bs_p50 (summarize runs failures wall visits gpu) \<in> gu_secs ` set runs \<and>
    bs_p95 (summarize runs failures wall visits gpu) \<in> gu_secs ` set runs \<and>
    bs_max (summarize runs failures wall visits gpu) \<in> gu_secs ` set runs \<and>
    bs_p50 (summarize runs failures wall visits gpu) \<le> bs_p95 (summarize runs failures wall visits gpu) \<and>
    bs_p95 (summarize runs failures wall visits gpu) \<le> bs_max (summarize runs failures wall visits gpu) \<and>
    (\<forall>run \<in> set runs. gu_secs run \<le> bs_max (summarize runs failures wall visits gpu))"
proof -
  define lat where "lat = sort (map gu_secs runs)"
  define n where "n = length lat - 1"
  have lat: "lat \<noteq> []" "set lat = gu_secs ` set runs" "sorted lat" "length lat = length runs"
    using assms(1) by (auto simp: lat_def) (metis length_0_conv length_map length_sort)
  have n: "n < length lat" "n \<le> 2 ^ 53"
    using length_greater_0_conv [of lat] lat(1,4) assms(2) by (auto simp: n_def simp del: length_greater_0_conv)
  obtain b where b: "lit f64 (19 / 20) = Fin b" "1 / 2 \<le> b" "b \<le> 1"
  proof -
    have "(case lit f64 (19 / 20) of Fin b \<Rightarrow> 1 / 2 \<le> b \<and> b \<le> 1 | _ \<Rightarrow> False)" by code_simp
    then show ?thesis using that by (auto split: fl.splits)
  qed
  have a: "lit f64 (1 / 2) = Fin (1 / 2)" by code_simp
  define ix where "ix c = nat (round_half_away (rnd_rat f64 (of_nat n * c)))" for c
  have val: "percentile lat (Fin c) = lat ! ix c \<and> ix c \<le> n" if "0 \<le> c" "c \<le> 1" for c
  proof -
    note idx = percentile_index [OF n(2) that]
    then have "ix c \<le> n" by (simp add: ix_def)
    then have "get_at lat (ix c) = Some (lat ! ix c)" using n(1) by simp
    moreover have "percentile lat (Fin c) = opt_else (Fin 0) (get_at lat (ix c))"
      unfolding percentile_def n_def [symmetric] ix_def using idx lat(1) by simp
    ultimately show ?thesis using \<open>ix c \<le> n\<close> n(1) by (simp add: get_at_def)
  qed
  have "rnd_rat f64 (of_nat n * (1 / 2)) \<le> rnd_rat f64 (of_nat n * b)"
    by (intro rnd_rat_mono mult_left_mono [OF b(2) of_nat_0_le_iff]) simp
  moreover have "0 \<le> rnd_rat f64 (of_nat n * (1 / 2))" by (rule rnd_rat_nonneg) simp
  ultimately have ixs: "ix (1 / 2) \<le> ix b" by (simp add: ix_def nat_mono round_half_away_mono)
  have last: "last lat = lat ! n" using lat(1) by (simp add: last_conv_nth n_def)
  have p: "percentile lat (Fin (1 / 2)) = lat ! ix (1 / 2)" "percentile lat (Fin b) = lat ! ix b"
      "ix b \<le> n" "ix (1 / 2) \<le> n"
    using val [of "1 / 2"] val [of b] b by auto
  have le: "lat ! ix (1 / 2) \<le> lat ! ix b" "lat ! ix b \<le> lat ! n"
    using lat(3) ixs p(3) n(1) by (auto intro: sorted_nth_mono)
  have mem: "lat ! i \<in> gu_secs ` set runs" if "i \<le> n" for i
    using that n(1) nth_mem [of i lat] lat(2) by simp
  have top: "x \<le> lat ! n" if x: "x \<in> set lat" for x
  proof -
    obtain i where "i < length lat" "lat ! i = x" using x by (auto simp: in_set_conv_nth)
    then show ?thesis using sorted_nth_mono [OF lat(3), of i n] n(1) by (simp add: n_def)
  qed
  have names: "bs_p50 (summarize runs failures wall visits gpu) = lat ! ix (1 / 2)"
      "bs_p95 (summarize runs failures wall visits gpu) = lat ! ix b"
      "bs_max (summarize runs failures wall visits gpu) = lat ! n"
    using lat(1) last p by (simp_all add: summarize_def Let_def a b(1) flip: lat_def)
  show ?thesis unfolding names using mem [OF p(4)] mem [OF p(3)] mem [of n] le top lat(2) by auto
qed

text \<open>A run that measured can still fail while its report is written, and then says at which of the three steps.\<close>

lemma bench_write_errors:
  "bench_write out parent mkdir json write_err = Inl msg \<longleftrightarrow>
     (\<exists>dir err. parent = Some dir \<and> mkdir dir = Some err \<and> msg = ''create '' @ dir @ '': '' @ err) \<or>
     (\<forall>dir. parent = Some dir \<longrightarrow> mkdir dir = None) \<and>
       ((\<exists>err. json = Inl err \<and> msg = ''serialize report: '' @ err) \<or>
        (\<exists>text err. json = Inr text \<and> write_err = Some err \<and> msg = ''write '' @ out @ '': '' @ err))"
  by (cases parent) (auto simp: bench_write_def split: option.split sum.split)

lemma busy_file_least:
  assumes "find_gpu_busy_file (Some names) exists = Some path"
  shows "exists path \<and> (\<exists>name \<in> set names.
    path = path_join (path_join ''/sys/class/drm'' name) ''device/gpu_busy_percent'' \<and>
    (\<forall>other \<in> set names. exists (path_join (path_join ''/sys/class/drm'' other) ''device/gpu_busy_percent'') \<longrightarrow> name \<le> other))"
proof -
  define cards where
    "cards = sort (filter (\<lambda>name. exists (path_join (path_join ''/sys/class/drm'' name) ''device/gpu_busy_percent'')) names)"
  obtain name rest where cards: "cards = name # rest"
    and path: "path = path_join (path_join ''/sys/class/drm'' name) ''device/gpu_busy_percent''"
  proof -
    have "get_at (map (\<lambda>name. path_join (path_join ''/sys/class/drm'' name) ''device/gpu_busy_percent'') cards) 0 = Some path"
      using assms by (simp only: find_gpu_busy_file_def cards_def bind.bind_lunit)
    then show ?thesis using that by (cases cards) (simp_all add: get_at_def)
  qed
  have "sorted cards" by (simp add: cards_def)
  moreover have "set cards = {name \<in> set names. exists (path_join (path_join ''/sys/class/drm'' name) ''device/gpu_busy_percent'')}"
    by (auto simp: cards_def)
  ultimately have "name \<in> set names" "exists path"
      "\<forall>other \<in> set names. exists (path_join (path_join ''/sys/class/drm'' other) ''device/gpu_busy_percent'') \<longrightarrow> name \<le> other"
    using cards path by (auto simp: set_eq_iff)
  then show ?thesis using path by blast
qed

definition example_runs :: "game_run list" where
  "example_runs = map (\<lambda>(name, secs).
     \<lparr>gu_file = name, gu_round = 0, gu_positions = 2, gu_secs = Fin secs, gu_fingerprint = []\<rparr>)
     [(''a.sgf'', 3), (''b.sgf'', 1), (''c.sgf'', 2)]"

lemma latencies_ordered_witness:
  "bs_p50 (summarize example_runs 0 (Fin 6) 100 None) \<in> {Fin 3, Fin 1, Fin 2} \<and>
   bs_p50 (summarize example_runs 0 (Fin 6) 100 None) \<le> bs_max (summarize example_runs 0 (Fin 6) 100 None)"
proof -
  have pre: "example_runs \<noteq> []" "length example_runs \<le> 2 ^ 53" by (simp_all add: example_runs_def)
  have secs: "gu_secs ` set example_runs = {Fin 3, Fin 1, Fin 2}" by (simp add: example_runs_def)
  note all = latencies_ordered [OF pre, of 0 "Fin 6" 100 None, unfolded secs]
  then show ?thesis by (elim conjE) (intro conjI, assumption, erule (1) order.trans)
qed

end
