(* ===== verification/Service.thy ===== *)
theory Service
  imports Http Worker
begin

text \<open>
  The whole service around the job table: the two submitting handlers (\<open>src/src/http/handlers.rs\<close>), the
  queue, any number of lease loops (\<open>src/src/worker.rs\<close>) and the requests that read a job.  The body of
  a delivery is taken apart into the statements between its awaits, so deliveries interleave with each
  other, with redeliveries of their own message and with submissions at every statement.  A message's
  id is its position in the queue; pgmq delivers only what was sent.
\<close>

section \<open>Model\<close>

subsection \<open>A delivery, statement by statement\<close>

datatype phase = Ph_Leased | Ph_Run | Ph_Analysed | Ph_Archive string "nat option" | Ph_Over

text \<open>What runs an analysis, local or remote, for a job id, a game and a profile.\<close>

type_synonym executor = "uuid \<Rightarrow> string \<Rightarrow> string option \<Rightarrow> json app_result"

record flight =
  fl_msg :: queue_message
  fl_env :: delivery_env
  fl_exec :: executor
  fl_phase :: phase

definition fl_job :: "flight \<Rightarrow> uuid" where
  "fl_job f = jm_job_id (qm_message (fl_msg f))"

definition fl_result :: "flight \<Rightarrow> json app_result" where
  "fl_result f = fl_exec f (fl_job f) (jm_sgf (qm_message (fl_msg f))) (jm_human_profile (qm_message (fl_msg f)))"

text \<open>A statement with \<open>?\<close>: on an error the handler returns.\<close>

definition stmt :: "unit action \<Rightarrow> phase \<Rightarrow> world \<Rightarrow> phase \<times> world" where
  "stmt act next_phase w = (case act w of (Inl e, w') \<Rightarrow> (Ph_Over, w') | (Inr _, w') \<Rightarrow> (next_phase, w'))"

definition phase_step :: "worker_config \<Rightarrow> int \<Rightarrow> flight \<Rightarrow> world \<Rightarrow> phase \<times> world" where
  "phase_step cfg now f w =
     (let i = fl_job f; env = fl_env f in
      case fl_phase f of
        Ph_Leased \<Rightarrow>
          (if max_attempts cfg < qm_read_ct (fl_msg f)
           then stmt (db_write (de_failed env) (set_failed now i ''max delivery attempts exceeded''))
                  (Ph_Archive ''failed'' None) w
           else stmt (db_write (de_running env) (set_running now i)) Ph_Run w)
      | Ph_Run \<Rightarrow> stmt (run_executor i) Ph_Analysed w
      | Ph_Analysed \<Rightarrow>
          (case fl_result f of
             Inr v \<Rightarrow> stmt (db_write (de_done env) (set_done now i v)) (Ph_Archive ''done'' (value_num_moves v)) w
           | Inl err \<Rightarrow>
               stmt (and_then (db_write (de_attempt env) (record_attempt_failure now i (error_text err)))
                       (count_outcome ''retry'' None)) Ph_Over w)
      | Ph_Archive what moves \<Rightarrow>
          stmt (and_then (queue_archive (de_archive env) (qm_msg_id (fl_msg f))) (count_outcome what moves)) Ph_Over w
      | Ph_Over \<Rightarrow> (Ph_Over, w))"

text \<open>A delivery left alone.\<close>

fun run_flight :: "worker_config \<Rightarrow> int \<Rightarrow> nat \<Rightarrow> flight \<Rightarrow> world \<Rightarrow> phase \<times> world" where
  "run_flight cfg now 0 f w = (fl_phase f, w)"
| "run_flight cfg now (Suc n) f w =
     (case phase_step cfg now f w of (ph, w') \<Rightarrow> run_flight cfg now n (f\<lparr>fl_phase := ph\<rparr>) w')"

subsection \<open>The service\<close>

text \<open>The log holds what each accepted request asked for, as the client sent it, under the id it was
  answered.\<close>

type_synonym receipt = "uuid \<times> string \<times> string option"

record service =
  sv_world :: world
  sv_flights :: "flight list"
  sv_log :: "receipt list"

definition service_begin :: service where
  "service_begin = \<lparr>sv_world = \<lparr>w_store = empty_store, w_archived = [], w_runs = [], w_outcomes = [], w_moves = [], w_waits = []\<rparr>,
     sv_flights = [], sv_log = []\<rparr>"

definition batch_receipts :: "batch_game list \<Rightarrow> batch_item list \<Rightarrow> receipt list" where
  "batch_receipts sgfs items =
     List.map_filter (\<lambda>(game, item). map_option (\<lambda>i. (i, into_parts game)) (bi_job_id item)) (zip sgfs items)"

datatype service_event =
    Ev_Submit int "string option" string "job_message \<Rightarrow> string option"
  | Ev_Batch int "string option" "batch_game list" "job_message \<Rightarrow> string option"
  | Ev_Lease nat int delivery_env executor
  | Ev_Step nat int

text \<open>A panic of a handler happens before it touches the store.\<close>

fun service_step ::
    "worker_config \<Rightarrow> sgf_reader \<Rightarrow> (nat \<Rightarrow> uuid) \<Rightarrow> string option \<Rightarrow> service_event \<Rightarrow> service \<Rightarrow> service" where
  "service_step cfg go_parse mint token (Ev_Submit now raw body send) sv =
     (case http_submit go_parse mint send now raw body (w_store (sv_world sv)) of
        None \<Rightarrow> sv
      | Some (r, s') \<Rightarrow>
          sv\<lparr>sv_world := (sv_world sv)\<lparr>w_store := s'\<rparr>,
             sv_log := sv_log sv @ (case r of Inl e \<Rightarrow> [] | Inr (code, resp) \<Rightarrow> [(sr_job_id resp, body, raw)])\<rparr>)"
| "service_step cfg go_parse mint token (Ev_Batch now authorization sgfs send) sv =
     (case submit_batch go_parse mint send now token authorization sgfs (w_store (sv_world sv)) of
        None \<Rightarrow> sv
      | Some (r, s') \<Rightarrow>
          sv\<lparr>sv_world := (sv_world sv)\<lparr>w_store := s'\<rparr>,
             sv_log := sv_log sv @ (case r of Inl e \<Rightarrow> [] | Inr (code, items) \<Rightarrow> batch_receipts sgfs items)\<rparr>)"
| "service_step cfg go_parse mint token (Ev_Lease k read_ct env exec) sv =
     (case get_at (st_sent (w_store (sv_world sv))) k of
        None \<Rightarrow> sv
      | Some m \<Rightarrow>
          sv\<lparr>sv_flights := sv_flights sv @
             [\<lparr>fl_msg = \<lparr>qm_msg_id = int k, qm_read_ct = read_ct, qm_message = m\<rparr>, fl_env = env,
               fl_exec = exec, fl_phase = Ph_Leased\<rparr>]\<rparr>)"
| "service_step cfg go_parse mint token (Ev_Step j now) sv =
     (case get_at (sv_flights sv) j of
        None \<Rightarrow> sv
      | Some f \<Rightarrow>
          (case phase_step cfg now f (sv_world sv) of
             (ph, w') \<Rightarrow> sv\<lparr>sv_world := w', sv_flights := (sv_flights sv)[j := f\<lparr>fl_phase := ph\<rparr>]\<rparr>))"

inductive service_reachable ::
    "worker_config \<Rightarrow> sgf_reader \<Rightarrow> (nat \<Rightarrow> uuid) \<Rightarrow> string option \<Rightarrow> service \<Rightarrow> bool"
  for cfg go_parse mint token
where
  start: "service_reachable cfg go_parse mint token service_begin"
| step: "service_reachable cfg go_parse mint token sv \<Longrightarrow>
    service_reachable cfg go_parse mint token (service_step cfg go_parse mint token ev sv)"

section \<open>Statements against the handler\<close>

lemma stmt_cases:
  "stmt act nxt w = (if isl (fst (act w)) then Ph_Over else nxt, snd (act w))"
  by (cases "act w"; cases "fst (act w)") (auto simp: stmt_def)

lemma run_flight_Over: "fl_phase f = Ph_Over \<Longrightarrow> run_flight cfg now n f w = (Ph_Over, w)"
  by (induction n arbitrary: f) (simp_all add: phase_step_def Let_def)

lemma run_flight_4:
  "run_flight cfg now 4 f w = run_flight cfg now (Suc (Suc (Suc (Suc 0)))) f w"
  by (simp add: eval_nat_numeral)


section \<open>The invariant of the service\<close>

fun receipt_ok :: "job_message \<Rightarrow> receipt \<Rightarrow> bool" where
  "receipt_ok m (i, sgf, raw) =
     (jm_job_id m = i \<and> jm_sgf m = sgf \<and> human_parse raw = Some (Inr (jm_human_profile m)))"

definition is_settled :: "uuid \<Rightarrow> store \<Rightarrow> bool" where
  "is_settled i s = (\<exists>r. row_of i s = Some r \<and> terminal r)"

definition leases :: "service \<Rightarrow> flight set" where
  "leases sv = set (map (\<lambda>f. f\<lparr>fl_phase := Ph_Leased\<rparr>) (sv_flights sv))"

text \<open>A settled row and the delivery it comes from.\<close>

definition row_explained :: "worker_config \<Rightarrow> flight set \<Rightarrow> job_row \<Rightarrow> bool" where
  "row_explained cfg fs r =
     (case jr_status r of
        Done \<Rightarrow> (\<exists>f \<in> fs. fl_job f = jr_id r \<and> (\<exists>v. fl_result f = Inr v \<and> jr_result r = Some v))
      | Failed \<Rightarrow> jr_error r = Some ''max delivery attempts exceeded'' \<and>
          (\<exists>f \<in> fs. fl_job f = jr_id r \<and> max_attempts cfg < qm_read_ct (fl_msg f))
      | _ \<Rightarrow> True)"

definition flight_ok :: "store \<Rightarrow> flight \<Rightarrow> bool" where
  "flight_ok s f =
     ((\<exists>k < length (st_sent s). fl_msg f = (fl_msg f)\<lparr>qm_msg_id := int k, qm_message := st_sent s ! k\<rparr>) \<and>
      (case fl_phase f of Ph_Archive what moves \<Rightarrow> is_settled (fl_job f) s | _ \<Rightarrow> True))"

definition archived_ok :: "world \<Rightarrow> bool" where
  "archived_ok w = (\<forall>m \<in> set (w_archived w). \<exists>k < length (st_sent (w_store w)).
      m = int k \<and> is_settled (jm_job_id (st_sent (w_store w) ! k)) (w_store w))"

definition service_inv :: "worker_config \<Rightarrow> service \<Rightarrow> bool" where
  "service_inv cfg sv =
     (let s = w_store (sv_world sv) in
      store_inv s \<and> map jr_id (st_rows s) = map jm_job_id (st_sent s) \<and>
      list_all2 receipt_ok (st_sent s) (sv_log sv) \<and> list_all (flight_ok s) (sv_flights sv) \<and>
      list_all (row_explained cfg (leases sv)) (st_rows s) \<and> archived_ok (sv_world sv))"

lemma fl_job_phase [simp]: "fl_job (f\<lparr>fl_phase := ph\<rparr>) = fl_job f" "fl_result (f\<lparr>fl_phase := ph\<rparr>) = fl_result f"
  by (simp_all add: fl_job_def fl_result_def)

lemma explained_mono: "fs \<subseteq> fs' \<Longrightarrow> row_explained cfg fs r \<Longrightarrow> row_explained cfg fs' r"
  by (fastforce simp: row_explained_def split: job_status.splits)

lemma explained_queued: "jr_status r = Queued \<Longrightarrow> row_explained cfg fs r"
  by (simp add: row_explained_def)

lemma explained_open: "\<not> terminal r \<Longrightarrow> row_explained cfg fs r"
  by (auto simp: row_explained_def terminal_iff split: job_status.splits)

lemma explained_stamp [simp]: "row_explained cfg fs (stamp_change now n r) = row_explained cfg fs r"
  by (simp add: row_explained_def split: job_status.splits)

lemma settled_write: "table_write u \<Longrightarrow> store_inv s \<Longrightarrow> is_settled i s \<Longrightarrow> is_settled i (u s)"
  unfolding is_settled_def by (metis table_write.keeps_terminal)

subsection \<open>Submissions\<close>

lemma flight_ok_write:
  assumes "table_write u" and "store_inv s" and "st_sent (u s) = st_sent s @ msgs" and "flight_ok s f"
  shows "flight_ok (u s) f"
proof -
  obtain k where k: "k < length (st_sent s)" "fl_msg f = (fl_msg f)\<lparr>qm_msg_id := int k, qm_message := st_sent s ! k\<rparr>"
    using assms(4) by (auto simp: flight_ok_def)
  then have "k < length (st_sent (u s)) \<and> fl_msg f = (fl_msg f)\<lparr>qm_msg_id := int k, qm_message := st_sent (u s) ! k\<rparr>"
    by (simp add: assms(3) nth_append)
  then show ?thesis
    using assms(4) settled_write [OF assms(1,2)] unfolding flight_ok_def by (auto split: phase.splits)
qed

lemma archived_ok_write:
  assumes "table_write u" and "store_inv (w_store w)" and "st_sent (u (w_store w)) = st_sent (w_store w) @ msgs"
    and "archived_ok w"
  shows "archived_ok (w\<lparr>w_store := u (w_store w)\<rparr>)"
  using assms(4) settled_write [OF assms(1,2)]
  by (fastforce simp: archived_ok_def assms(3) nth_append)

lemma service_inv_submission:
  assumes inv: "service_inv cfg sv" and u: "table_write u"
    and rows: "st_rows (u (w_store (sv_world sv))) = st_rows (w_store (sv_world sv)) @ rows"
    and sent: "st_sent (u (w_store (sv_world sv))) = st_sent (w_store (sv_world sv)) @ msgs"
    and ids: "map jr_id rows = map jm_job_id msgs" and queued: "list_all (\<lambda>r. jr_status r = Queued) rows"
    and log: "list_all2 receipt_ok msgs receipts"
  shows "service_inv cfg (sv\<lparr>sv_world := (sv_world sv)\<lparr>w_store := u (w_store (sv_world sv))\<rparr>,
    sv_log := sv_log sv @ receipts\<rparr>)"
proof -
  let ?s = "w_store (sv_world sv)"
  have "store_inv ?s" "archived_ok (sv_world sv)" "list_all (flight_ok ?s) (sv_flights sv)"
    using inv by (auto simp: service_inv_def Let_def)
  moreover from this have "list_all (flight_ok (u ?s)) (sv_flights sv)"
    using flight_ok_write [OF u _ sent] by (auto simp: list_all_iff)
  ultimately show ?thesis
    using inv rows sent ids log queued table_write.keeps_inv [OF u] archived_ok_write [OF u _ sent] explained_queued
    by (auto simp: service_inv_def Let_def leases_def list_all_iff intro: list_all2_appendI)
qed

lemma http_submit_write:
  assumes "http_submit go_parse mint send now raw body s = Some (r, s')"
  obtains u where "table_write u" and "s' = u s"
proof (cases "isl r \<and> s' = s")
  case True
  then show ?thesis using that table_write_id by blast
next
  case False
  then obtain p where "s' = snd (db_submit mint send now \<lparr>nj_sgf = body, nj_human_profile = p\<rparr> s)"
    using assms by (auto simp: http_submit_def Let_def case_prod_beta split: sum.splits option.splits)
  then show ?thesis using that submit_write.table_write_axioms by blast
qed

lemma submit_batch_write:
  assumes "submit_batch go_parse mint send now token authorization sgfs s = Some (r, s')"
  obtains u where "table_write u" and "s' = u s"
proof (cases "isl r \<and> s' = s")
  case True
  then show ?thesis using that table_write_id by blast
next
  case False
  then obtain jobs where "s' = snd (submit_many mint send now jobs s)"
    using assms by (auto simp: submit_batch_def Let_def case_prod_beta split: if_splits option.splits)
  then show ?thesis using that submit_many_write.table_write_axioms by blast
qed

lemma judge_Inr:
  assumes "judge go_parse game = Some (Inr job)"
  shows "nj_sgf job = fst (into_parts game) \<and> human_parse (snd (into_parts game)) = Some (Inr (nj_human_profile job))"
  using assms by (auto simp: judge_def Let_def case_prod_beta res_map_eq_Inr split: sum.splits)

lemma batch_receipts_ok:
  "map (judge go_parse) sgfs = map Some verdicts \<Longrightarrow>
   list_all2 (\<lambda>r item. (bi_job_id item = None) = isl r) verdicts items \<Longrightarrow>
   ids = List.map_filter bi_job_id items \<Longrightarrow>
   list_all2 receipt_ok (map2 into_message (List.map_filter accepted_job verdicts) ids) (batch_receipts sgfs items)"
proof (induction sgfs arbitrary: verdicts items ids)
  case Nil
  then show ?case by (simp add: batch_receipts_def List.map_filter_simps)
next
  case (Cons game sgfs)
  obtain r verdicts' where v: "verdicts = r # verdicts'" "judge go_parse game = Some r"
      "map (judge go_parse) sgfs = map Some verdicts'"
    using Cons.prems(1) by (cases verdicts) auto
  obtain item items' where items: "items = item # items'" "(bi_job_id item = None) = isl r"
      "list_all2 (\<lambda>r item. (bi_job_id item = None) = isl r) verdicts' items'"
    using Cons.prems(2) by (auto simp: v list_all2_Cons1)
  note IH = Cons.IH [OF v(3) items(3) refl]
  show ?case
  proof (cases r)
    case (Inl e)
    then show ?thesis using IH items by (simp add: v Cons.prems(3) batch_receipts_def List.map_filter_simps)
  next
    case (Inr job)
    then obtain i where "bi_job_id item = Some i" using items(2) by auto
    moreover have "receipt_ok (into_message job i) (i, into_parts game)"
      using judge_Inr [OF v(2) [unfolded Inr]] by (cases "into_parts game") (simp add: into_message_def)
    ultimately show ?thesis
      using IH items Inr by (simp add: v Cons.prems(3) batch_receipts_def List.map_filter_simps)
  qed
qed

text \<open>There are as many ids as accepted games.\<close>

lemma accepted_count:
  "list_all2 (\<lambda>r item. (bi_job_id item = None) = isl r) verdicts items \<Longrightarrow>
   length (List.map_filter bi_job_id items) = length (List.map_filter accepted_job verdicts)"
proof (induction rule: list_all2_induct)
  case (Cons r verdicts item items)
  then show ?case by (cases r; cases "bi_job_id item") (simp_all add: List.map_filter_simps)
qed (simp add: List.map_filter_simps)

lemma batch_ids:
  assumes "map (judge go_parse) sgfs = map Some verdicts" and "list_all2 (answers given) verdicts items"
    and "List.map_filter bi_job_id items = ids"
  shows "map jm_job_id (map2 into_message (List.map_filter accepted_job verdicts) ids) = ids"
proof -
  have "list_all2 (\<lambda>r item. (bi_job_id item = None) = isl r) verdicts items"
    by (rule list_all2_mono [OF assms(2)]) (auto simp: answers_def split: sum.splits)
  from accepted_count [OF this] have "length (List.map_filter accepted_job verdicts) = length ids"
    using assms(3) by simp
  then show ?thesis by (intro nth_equalityI) (simp_all add: into_message_def)
qed

subsection \<open>Statements of deliveries\<close>

lemma guarded_update_keeps:
  assumes "\<And>r. jr_id (g r) = jr_id r"
  shows "map jr_id (st_rows (guarded_update now i g s)) = map jr_id (st_rows s)"
    and "st_sent (guarded_update now i g s) = st_sent s"
  using assms by (simp_all add: guarded_update_rows comp_def guarded_update_def)

lemma guarded_update_explained:
  assumes "list_all (row_explained cfg fs) (st_rows s)"
    and "\<And>r. jr_id r = i \<Longrightarrow> \<not> terminal r \<Longrightarrow> row_explained cfg fs (g r)"
  shows "list_all (row_explained cfg fs) (st_rows (guarded_update now i g s))"
  using assms by (auto simp: guarded_update_rows list_all_iff)

text \<open>What one statement of a delivery does to the store, as its callers need it.\<close>

definition store_step :: "worker_config \<Rightarrow> flight set \<Rightarrow> uuid \<Rightarrow> (store \<Rightarrow> store) \<Rightarrow> store \<Rightarrow> bool" where
  "store_step cfg fs i u s =
     (table_write u \<and> map jr_id (st_rows (u s)) = map jr_id (st_rows s) \<and> st_sent (u s) = st_sent s \<and>
      list_all (row_explained cfg fs) (st_rows (u s)))"

lemma store_step_id: "list_all (row_explained cfg fs) (st_rows s) \<Longrightarrow> store_step cfg fs i (\<lambda>s. s) s"
  by (simp add: store_step_def table_write_id)

lemma running_step:
  "list_all (row_explained cfg fs) (st_rows s) \<Longrightarrow> store_step cfg fs i (set_running now i) s"
  unfolding store_step_def
  by (intro conjI running_write.table_write_axioms)
    (simp_all add: set_running_def guarded_update_keeps guarded_update_explained row_explained_def)

lemma attempt_step:
  "list_all (row_explained cfg fs) (st_rows s) \<Longrightarrow> store_step cfg fs i (record_attempt_failure now i err) s"
  unfolding store_step_def
  by (intro conjI attempt_write.table_write_axioms)
    (auto simp: record_attempt_failure_def guarded_update_keeps terminal_iff intro!: guarded_update_explained explained_open)

lemma done_step:
  "list_all (row_explained cfg fs) (st_rows s) \<Longrightarrow> f \<in> fs \<Longrightarrow> fl_job f = i \<Longrightarrow> fl_result f = Inr v \<Longrightarrow>
   store_step cfg fs i (set_done now i v) s"
  unfolding store_step_def
  by (intro conjI done_write.table_write_axioms)
    (auto simp: set_done_def guarded_update_keeps row_explained_def intro!: guarded_update_explained)

lemma failed_step:
  "list_all (row_explained cfg fs) (st_rows s) \<Longrightarrow> f \<in> fs \<Longrightarrow> fl_job f = i \<Longrightarrow>
   max_attempts cfg < qm_read_ct (fl_msg f) \<Longrightarrow>
   store_step cfg fs i (set_failed now i ''max delivery attempts exceeded'') s"
  unfolding store_step_def
  by (intro conjI failed_write.table_write_axioms)
    (auto simp: set_failed_def guarded_update_keeps row_explained_def intro!: guarded_update_explained)

lemma write_stmt:
  assumes "stmt (db_write fault u) nxt w = (ph, w')"
  shows "(w' = w \<and> ph = Ph_Over) \<or> (w' = w\<lparr>w_store := u (w_store w)\<rparr> \<and> ph \<in> {nxt, Ph_Over})"
  using assms by (cases fault) (auto simp: stmt_def db_write_def)

lemma retry_stmt:
  assumes "stmt (and_then (db_write fault u) (count_outcome what moves)) Ph_Over w = (ph, w')"
  shows "ph = Ph_Over \<and> w_archived w' = w_archived w \<and> (w_store w' = w_store w \<or> w_store w' = u (w_store w))"
  using assms by (cases fault) (auto simp: stmt_def db_write_def and_then_def count_outcome_def)

lemma archive_stmt:
  assumes "stmt (and_then (queue_archive fault m) (count_outcome what moves)) Ph_Over w = (ph, w')"
  shows "ph = Ph_Over \<and> w_store w' = w_store w \<and> set (w_archived w') \<subseteq> insert m (set (w_archived w))"
  using assms by (cases fault) (auto simp: stmt_def queue_archive_def and_then_def count_outcome_def)

lemma archived_ok_cong:
  "w_store w' = w_store w \<Longrightarrow> set (w_archived w') \<subseteq> set (w_archived w) \<Longrightarrow> archived_ok w \<Longrightarrow> archived_ok w'"
  by (auto simp: archived_ok_def)

lemma archived_ok_step:
  assumes "store_step cfg fs i u (w_store w)" and "store_inv (w_store w)" and "archived_ok w"
    and "w_store w' = u (w_store w)" and "w_archived w' = w_archived w"
  shows "archived_ok w'"
proof -
  have "archived_ok (w\<lparr>w_store := u (w_store w)\<rparr>)"
    using assms(1) archived_ok_write [OF _ assms(2), of u "[]"] assms(3) by (simp add: store_step_def)
  then show ?thesis by (rule archived_ok_cong [rotated 2]) (simp_all add: assms)
qed

lemma settled_by_update:
  assumes "table_write u" and "row_of i s = Some r" and "\<And>r. row_of i (u s) = Some r \<Longrightarrow> terminal r"
  shows "is_settled i (u s)"
proof -
  have "i \<in> jr_id ` set (st_rows (u s))"
    using table_write.keeps_rows [OF assms(1), of s] row_of_Some [OF assms(2)] by blast
  then have "row_of i (u s) \<noteq> None" by (auto simp: row_of_def find_None_iff)
  then show ?thesis using assms(3) by (auto simp: is_settled_def)
qed

lemma phase_step_facts:
  assumes step: "phase_step cfg now f w = (ph, w')"
    and inv: "store_inv (w_store w)" "archived_ok w" "flight_ok (w_store w) f"
      "list_all (row_explained cfg fs) (st_rows (w_store w))" "f\<lparr>fl_phase := Ph_Leased\<rparr> \<in> fs"
    and row: "row_of (fl_job f) (w_store w) = Some r"
  shows "\<exists>u. store_step cfg fs (fl_job f) u (w_store w) \<and> w_store w' = u (w_store w) \<and> archived_ok w' \<and>
    (case ph of Ph_Archive what moves \<Rightarrow> is_settled (fl_job f) (u (w_store w)) | _ \<Rightarrow> True)"
proof -
  let ?s = "w_store w"
  let ?i = "fl_job f"
  have same: ?thesis if "w_store w' = ?s" "archived_ok w'" "ph = Ph_Over \<or> ph = Ph_Analysed"
    using that store_step_id [OF inv(4)] by (intro exI [of _ "\<lambda>s. s"]) auto
  have wrote: ?thesis
    if u: "store_step cfg fs ?i u ?s" and w': "w_store w' = u ?s" "w_archived w' = w_archived w"
      and ph: "ph \<in> {nxt, Ph_Over}" "nxt = Ph_Run \<or> (\<forall>r. row_of ?i (u ?s) = Some r \<longrightarrow> terminal r)" for u nxt
  proof -
    have "is_settled ?i (u ?s)" if "nxt \<noteq> Ph_Run"
      using u ph(2) that by (intro settled_by_update [OF _ row]) (auto simp: store_step_def)
    then show ?thesis
      using u w' ph(1) archived_ok_step [OF u inv(1,2) w']
      by (intro exI [of _ u]) (auto split: phase.split)
  qed
  show ?thesis
  proof (cases "fl_phase f")
    case Ph_Leased
    show ?thesis
    proof (cases "max_attempts cfg < qm_read_ct (fl_msg f)")
      case True
      then have "stmt (db_write (de_failed (fl_env f)) (set_failed now ?i ''max delivery attempts exceeded''))
          (Ph_Archive ''failed'' None) w = (ph, w')"
        using step Ph_Leased by (simp add: phase_step_def Let_def)
      from write_stmt [OF this] show ?thesis
        using same inv(2) wrote [OF failed_step [OF inv(4,5)], where nxt = "Ph_Archive ''failed'' None"] True
          set_failed_terminal by auto
    next
      case False
      then have "stmt (db_write (de_running (fl_env f)) (set_running now ?i)) Ph_Run w = (ph, w')"
        using step Ph_Leased by (simp add: phase_step_def Let_def)
      from write_stmt [OF this] show ?thesis
        using same inv(2) wrote [OF running_step [OF inv(4)], where nxt = Ph_Run] by auto
    qed
  next
    case Ph_Run
    then have "ph = Ph_Analysed" "w_store w' = ?s" "w_archived w' = w_archived w"
      using step by (auto simp: phase_step_def Let_def stmt_def run_executor_def)
    then show ?thesis using same archived_ok_cong [of w' w] inv(2) by auto
  next
    case Ph_Analysed
    show ?thesis
    proof (cases "fl_result f")
      case (Inr v)
      then have "stmt (db_write (de_done (fl_env f)) (set_done now ?i v)) (Ph_Archive ''done'' (value_num_moves v)) w = (ph, w')"
        using step Ph_Analysed by (simp add: phase_step_def Let_def)
      from write_stmt [OF this] show ?thesis
        using same inv(2) wrote [OF done_step [OF inv(4,5)], where nxt = "Ph_Archive ''done'' (value_num_moves v)"] Inr
          set_done_terminal by auto
    next
      case (Inl err)
      then have "stmt (and_then (db_write (de_attempt (fl_env f)) (record_attempt_failure now ?i (error_text err)))
          (count_outcome ''retry'' None)) Ph_Over w = (ph, w')"
        using step Ph_Analysed by (simp add: phase_step_def Let_def)
      from retry_stmt [OF this] show ?thesis
        using same archived_ok_cong [of w' w] inv(2) wrote [OF attempt_step [OF inv(4)], where nxt = Ph_Run] by auto
    qed
  next
    case (Ph_Archive what moves)
    obtain k where k: "k < length (st_sent ?s)" "fl_msg f = (fl_msg f)\<lparr>qm_msg_id := int k, qm_message := st_sent ?s ! k\<rparr>"
        "is_settled ?i ?s"
      using inv(3) Ph_Archive by (auto simp: flight_ok_def)
    then have msg: "qm_msg_id (fl_msg f) = int k" "?i = jm_job_id (st_sent ?s ! k)"
      by (metis queue_message.select_convs(1) queue_message.surjective queue_message.update_convs(1,3),
          metis fl_job_def queue_message.select_convs(3) queue_message.surjective queue_message.update_convs(3))
    have "ph = Ph_Over" "w_store w' = ?s" "set (w_archived w') \<subseteq> insert (int k) (set (w_archived w))"
      using archive_stmt step Ph_Archive msg(1) by (auto simp: phase_step_def Let_def)
    moreover from this have "archived_ok w'"
      using inv(2) k(1,3) msg(2) by (fastforce simp: archived_ok_def)
    ultimately show ?thesis using same by blast
  next
    case Ph_Over
    then show ?thesis using same step inv(2) by (auto simp: phase_step_def Let_def)
  qed
qed

subsection \<open>Every step\<close>

lemma leases_step: "j < length fs \<Longrightarrow>
   map (\<lambda>f. f\<lparr>fl_phase := Ph_Leased\<rparr>) (fs[j := (fs ! j)\<lparr>fl_phase := ph\<rparr>]) = map (\<lambda>f. f\<lparr>fl_phase := Ph_Leased\<rparr>) fs"
  by (simp add: map_update list_update_same_conv)

lemma flight_row:
  assumes "store_inv s" and "map jr_id (st_rows s) = map jm_job_id (st_sent s)" and "flight_ok s f"
  obtains k r where "k < length (st_sent s)" and "qm_message (fl_msg f) = st_sent s ! k"
    and "row_of (fl_job f) s = Some r"
proof -
  obtain k where k: "k < length (st_sent s)" "fl_msg f = (fl_msg f)\<lparr>qm_msg_id := int k, qm_message := st_sent s ! k\<rparr>"
    using assms(3) by (auto simp: flight_ok_def)
  then have msg: "qm_message (fl_msg f) = st_sent s ! k"
    by (metis queue_message.select_convs(3) queue_message.surjective queue_message.update_convs(3))
  have len: "k < length (st_rows s)" using k(1) assms(2) by (metis length_map)
  then have "jr_id (st_rows s ! k) = fl_job f"
    using assms(2) k(1) msg by (metis fl_job_def nth_map)
  then have "row_of (fl_job f) s = Some (st_rows s ! k)" using row_of_mem [OF assms(1) nth_mem [OF len]] by simp
  then show ?thesis using that k(1) msg by blast
qed

lemma service_inv_begin: "service_inv cfg service_begin"
  by (simp add: service_inv_def service_begin_def Let_def empty_store_def store_inv_def archived_ok_def)

lemma service_inv_lease:
  assumes "service_inv cfg sv" and "k < length (st_sent (w_store (sv_world sv)))"
  shows "service_inv cfg (sv\<lparr>sv_flights := sv_flights sv @
     [\<lparr>fl_msg = \<lparr>qm_msg_id = int k, qm_read_ct = read_ct, qm_message = st_sent (w_store (sv_world sv)) ! k\<rparr>,
       fl_env = env, fl_exec = exec, fl_phase = Ph_Leased\<rparr>]\<rparr>)"
  using assms
  by (auto simp: service_inv_def Let_def flight_ok_def leases_def list_all_iff elim!: ballE intro: explained_mono [rotated])

lemma service_inv_flight:
  assumes inv: "service_inv cfg sv" and j: "j < length (sv_flights sv)"
    and step: "phase_step cfg now (sv_flights sv ! j) (sv_world sv) = (ph, w')"
  shows "service_inv cfg (sv\<lparr>sv_world := w', sv_flights := (sv_flights sv)[j := (sv_flights sv ! j)\<lparr>fl_phase := ph\<rparr>]\<rparr>)"
proof -
  let ?s = "w_store (sv_world sv)"
  let ?f = "sv_flights sv ! j"
  have i: "store_inv ?s" "map jr_id (st_rows ?s) = map jm_job_id (st_sent ?s)" "list_all (flight_ok ?s) (sv_flights sv)"
      "list_all (row_explained cfg (leases sv)) (st_rows ?s)" "archived_ok (sv_world sv)"
    using inv by (auto simp: service_inv_def Let_def)
  have f: "flight_ok ?s ?f" using i(3) j by (simp add: list_all_length)
  obtain r where r: "row_of (fl_job ?f) ?s = Some r" by (rule flight_row [OF i(1,2) f])
  have "?f\<lparr>fl_phase := Ph_Leased\<rparr> \<in> leases sv" using j by (simp add: leases_def)
  then obtain u where u: "store_step cfg (leases sv) (fl_job ?f) u ?s" "w_store w' = u ?s" "archived_ok w'"
      "case ph of Ph_Archive what moves \<Rightarrow> is_settled (fl_job ?f) (u ?s) | _ \<Rightarrow> True"
    using phase_step_facts [OF step i(1,5) f i(4) _ r] by blast
  have tw: "table_write u" "st_sent (u ?s) = st_sent ?s @ []" using u(1) by (auto simp: store_step_def)
  have old: "flight_ok (u ?s) g" if "flight_ok ?s g" for g using flight_ok_write [OF tw(1) i(1) tw(2) that] .
  have new: "flight_ok (u ?s) (?f\<lparr>fl_phase := ph\<rparr>)"
    using old [OF f] u(4) by (auto simp: flight_ok_def split: phase.splits)
  have "list_all (flight_ok (u ?s)) ((sv_flights sv)[j := ?f\<lparr>fl_phase := ph\<rparr>])"
    using i(3) old new set_update_subset_insert [of "sv_flights sv" j "?f\<lparr>fl_phase := ph\<rparr>"]
    by (auto simp: list_all_iff)
  moreover have "leases (sv\<lparr>sv_world := w', sv_flights := (sv_flights sv)[j := ?f\<lparr>fl_phase := ph\<rparr>]\<rparr>) = leases sv"
    by (simp add: leases_def leases_step [OF j] del: set_map)
  ultimately show ?thesis
    using inv u table_write.keeps_inv [OF tw(1) i(1)] by (simp add: service_inv_def Let_def store_step_def)
qed

lemma service_inv_step:
  assumes inv: "service_inv cfg sv"
  shows "service_inv cfg (service_step cfg go_parse mint token ev sv)"
proof (cases ev)
  case (Ev_Submit now raw body send)
  let ?s = "w_store (sv_world sv)"
  show ?thesis
  proof (cases "http_submit go_parse mint send now raw body ?s")
    case None
    then show ?thesis using inv by (simp add: Ev_Submit)
  next
    case (Some rs)
    obtain r s' where rs: "rs = (r, s')" by (cases rs)
    obtain u where u: "table_write u" "s' = u ?s" by (rule http_submit_write [OF Some [unfolded rs]])
    note exact = submit_exact [where go_parse = go_parse and mint = mint and send = send and now = now and profile = raw
      and body = body and s = ?s, unfolded Some rs option.case prod.case u(2)]
    show ?thesis
    proof (cases r)
      case (Inl e)
      then show ?thesis
        using service_inv_submission [OF inv u(1), of "[]" "[]" "[]"] exact by (simp add: Ev_Submit Some rs u(2))
    next
      case (Inr ok)
      obtain code resp where ok: "ok = (code, resp)" by (cases ok)
      obtain row p where "human_parse raw = Some (Inr p)" "st_rows (u ?s) = st_rows ?s @ [row]"
          "jr_id row = sr_job_id resp" "jr_status row = Queued"
          "st_sent (u ?s) = st_sent ?s @ [\<lparr>jm_job_id = sr_job_id resp, jm_sgf = body, jm_human_profile = p\<rparr>]"
        using exact by (auto simp: Inr ok)
      then show ?thesis
        using service_inv_submission [OF inv u(1), of "[row]" _ "[(sr_job_id resp, body, raw)]"]
        by (simp add: Ev_Submit Some rs u(2) Inr ok)
    qed
  qed
next
  case (Ev_Batch now authorization sgfs send)
  let ?s = "w_store (sv_world sv)"
  show ?thesis
  proof (cases "submit_batch go_parse mint send now token authorization sgfs ?s")
    case None
    then show ?thesis using inv by (simp add: Ev_Batch)
  next
    case (Some rs)
    obtain r s' where rs: "rs = (r, s')" by (cases rs)
    obtain u where u: "table_write u" "s' = u ?s" by (rule submit_batch_write [OF Some [unfolded rs]])
    note exact = batch_exact [where go_parse = go_parse and mint = mint and send = send and now = now and token = token
      and authorization = authorization and sgfs = sgfs and s = ?s, unfolded Some rs option.case prod.case u(2)]
    show ?thesis
    proof (cases r)
      case (Inl e)
      then show ?thesis
        using service_inv_submission [OF inv u(1), of "[]" "[]" "[]"] exact by (simp add: Ev_Batch Some rs u(2))
    next
      case (Inr ok)
      obtain code items where ok: "ok = (code, items)" by (cases ok)
      obtain verdicts rows where rows: "map (judge go_parse) sgfs = map Some verdicts"
          "st_rows (u ?s) = st_rows ?s @ rows" "list_all (\<lambda>r. jr_status r = Queued) rows"
          "List.map_filter bi_job_id items = map jr_id rows"
          "st_sent (u ?s) = st_sent ?s @ map2 into_message (List.map_filter accepted_job verdicts) (map jr_id rows)"
          "list_all2 (answers (set (zip (List.map_filter accepted_job verdicts) (map jr_id rows)))) verdicts items"
        using exact by (auto simp: Inr ok)
      have "list_all2 (\<lambda>r item. (bi_job_id item = None) = isl r) verdicts items"
        by (rule list_all2_mono [OF rows(6)]) (auto simp: answers_def split: sum.splits)
      then have receipts: "list_all2 receipt_ok (map2 into_message (List.map_filter accepted_job verdicts) (map jr_id rows))
          (batch_receipts sgfs items)"
        by (rule batch_receipts_ok [OF rows(1) _ rows(4) [symmetric]])
      show ?thesis
        using service_inv_submission [OF inv u(1) rows(2,5) _ rows(3) receipts]
          batch_ids [OF rows(1,6,4)] by (simp add: Ev_Batch Some rs u(2) Inr ok)
    qed
  qed
next
  case (Ev_Lease k read_ct env exec)
  then show ?thesis using inv service_inv_lease [OF inv] by (auto simp: get_at_def)
next
  case (Ev_Step j now)
  then show ?thesis
    using inv service_inv_flight [OF inv] by (auto simp: get_at_def split: prod.split)
qed

lemma service_reachable_inv: "service_reachable cfg go_parse mint token sv \<Longrightarrow> service_inv cfg sv"
  by (induction rule: service_reachable.induct) (auto intro: service_inv_begin service_inv_step)

section \<open>What a client reads\<close>

lemma status_served:
  assumes "fst (status read latency wait) = Inr resp"
  obtains t job where "read t = Inr (Some job)" and "resp = status_of job"
proof -
  have plain: "\<exists>t job. read t = Inr (Some job) \<and> resp = status_of job"
    if "res_bind (read 0) (\<lambda>job. case job of None \<Rightarrow> Inl NotFound | Some j \<Rightarrow> Inr (status_of j)) = Inr resp"
    using that by (cases "read 0") (auto split: option.splits)
  have waited: "\<exists>t job. read t = Inr (Some job) \<and> resp = status_of job"
    if w: "res_map status_of (fst (wait_for_job read latency d 0)) = Inr resp" for d
  proof -
    obtain t where "case read t of
        Inl e \<Rightarrow> fst (wait_for_job read latency d 0) = Inl e
      | Inr None \<Rightarrow> fst (wait_for_job read latency d 0) = Inl NotFound
      | Inr (Some job) \<Rightarrow> fst (wait_for_job read latency d 0) = Inr job \<and>
          (is_terminal (jv_status job) \<or> d \<le> t + latency t)"
      using wait_answer [of 0 0 d read latency] by blast
    then show ?thesis using w by (cases "read t") (auto split: option.splits intro!: exI [of _ t])
  qed
  have "\<exists>t job. read t = Inr (Some job) \<and> resp = status_of job"
    using assms plain waited by (auto simp: status_def Let_def case_prod_beta split: option.splits if_splits)
  then show ?thesis using that by blast
qed

lemma filter_key: "distinct (map fst xs) \<Longrightarrow> (k, v) \<in> set xs \<Longrightarrow> filter (\<lambda>e. fst e = k) xs = [(k, v)]"
  by (induction xs) (force simp: filter_empty_conv)+

lemma receipts_ids: "list_all2 receipt_ok ms receipts \<Longrightarrow> map fst receipts = map jm_job_id ms"
  by (induction rule: list_all2_induct) (auto split: prod.splits)

text \<open>A row of the table, the message sent for it and the request it comes from.\<close>

lemma row_receipt:
  assumes "service_inv cfg sv" and "r \<in> set (st_rows (w_store (sv_world sv)))"
  obtains m sgf raw where "m \<in> set (st_sent (w_store (sv_world sv)))" and "jm_job_id m = jr_id r"
    and "receipt_ok m (jr_id r, sgf, raw)" and "filter (\<lambda>e. fst e = jr_id r) (sv_log sv) = [(jr_id r, sgf, raw)]"
proof -
  let ?s = "w_store (sv_world sv)"
  have inv: "store_inv ?s" "map jr_id (st_rows ?s) = map jm_job_id (st_sent ?s)"
      "list_all2 receipt_ok (st_sent ?s) (sv_log sv)"
    using assms(1) by (auto simp: service_inv_def Let_def)
  have "jr_id r \<in> set (map jm_job_id (st_sent ?s))" using assms(2) unfolding inv(2) [symmetric] by simp
  then obtain k where k: "k < length (st_sent ?s)" "jm_job_id (st_sent ?s ! k) = jr_id r"
    by (auto simp: in_set_conv_nth)
  obtain i sgf raw where e: "sv_log sv ! k = (i, sgf, raw)" by (cases "sv_log sv ! k")
  have ok: "receipt_ok (st_sent ?s ! k) (i, sgf, raw)" "k < length (sv_log sv)"
    using inv(3) k(1) e by (auto simp: list_all2_conv_all_nth simp del: receipt_ok.simps)
  then have i: "i = jr_id r" using k(2) by simp
  have "distinct (map fst (sv_log sv))"
    using inv(1,2) receipts_ids [OF inv(3)] by (simp add: store_inv_def)
  then have "filter (\<lambda>e. fst e = jr_id r) (sv_log sv) = [(jr_id r, sgf, raw)]"
    using filter_key ok(2) e i by (metis nth_mem)
  then show ?thesis using that [of "st_sent ?s ! k" sgf raw] k ok(1) i by simp
qed

text \<open>What an answered status request rests on.\<close>

lemma served_facts:
  assumes "\<And>t. service_reachable cfg go_parse mint token (hist t)"
    and "fst (status (\<lambda>t. Inr (get_job i (w_store (sv_world (hist t))))) latency wait) = Inr resp"
  shows "\<exists>t sgf raw profile. filter (\<lambda>e. fst e = sp_id resp) (sv_log (hist t)) = [(i, sgf, raw)] \<and>
    human_parse raw = Some (Inr profile) \<and>
    (case sp_status resp of
       Done \<Rightarrow> sp_error resp = None \<and>
         (\<exists>f \<in> set (sv_flights (hist t)). \<exists>v. fl_exec f i sgf profile = Inr v \<and> sp_result resp = Some v)
     | Failed \<Rightarrow> sp_result resp = None \<and> sp_error resp = Some ''max delivery attempts exceeded'' \<and>
         (\<exists>f \<in> set (sv_flights (hist t)). fl_job f = i \<and> max_attempts cfg < qm_read_ct (fl_msg f))
     | _ \<Rightarrow> sp_result resp = None \<and> sp_error resp = None)"
proof -
  obtain t job where t: "get_job i (w_store (sv_world (hist t))) = Some job" "resp = status_of job"
    by (rule status_served [OF assms(2)]) auto
  let ?s = "w_store (sv_world (hist t))"
  obtain r where r: "row_of i ?s = Some r" "job = as_job r" using t(1) by (auto simp: get_job_def row_of_def)
  have id: "r \<in> set (st_rows ?s)" "jr_id r = i" using row_of_Some [OF r(1)] by auto
  have inv: "service_inv cfg (hist t)" using assms(1) by (rule service_reachable_inv)
  then have facts: "store_inv ?s" "row_explained cfg (leases (hist t)) r" "map jr_id (st_rows ?s) = map jm_job_id (st_sent ?s)"
    "list_all (flight_ok ?s) (sv_flights (hist t))"
    using id(1) by (auto simp: service_inv_def Let_def list_all_iff)
  obtain m sgf raw where m: "m \<in> set (st_sent ?s)" "jm_job_id m = i" "receipt_ok m (i, sgf, raw)"
      "filter (\<lambda>e. fst e = i) (sv_log (hist t)) = [(i, sgf, raw)]"
    using row_receipt [OF inv id(1)] id(2) by metis
  have result: "fl_result f = fl_exec f i sgf (jm_human_profile m)"
    if f: "f \<in> set (sv_flights (hist t))" "fl_job f = i" for f
  proof -
    have "flight_ok ?s f" using facts(4) f(1) by (simp add: list_all_iff)
    then obtain k where k: "k < length (st_sent ?s)" "qm_message (fl_msg f) = st_sent ?s ! k"
      by (rule flight_row [OF facts(1,3)])
    have "distinct (map jm_job_id (st_sent ?s))" using facts(1,3) by (simp add: store_inv_def)
    moreover have "jm_job_id (st_sent ?s ! k) = jm_job_id m" using f(2) k(2) m(2) by (simp add: fl_job_def)
    ultimately have "st_sent ?s ! k = m" using m(1) k(1) by (metis distinct_map inj_onD nth_mem)
    then show ?thesis using f(2) k(2) m(3) by (simp add: fl_result_def)
  qed
  have xor: "result_xor_error r" using facts(1) id(1) by (auto simp: store_inv_def)
  show ?thesis
    using facts(2) xor m(3,4) result id(2)
    by (intro exI [of _ t] exI [of _ sgf] exI [of _ raw] exI [of _ "jm_human_profile m"])
      (auto simp: t(2) r(2) status_of_def as_job_def row_explained_def result_xor_error_def leases_def
        split: job_status.splits)
qed

text \<open>C1. End to end, whatever is submitted, delivered, redelivered, interleaved and lost on the way, and
  whatever executors the deliveries use: if a status request is answered with a job, then exactly one
  accepted request was answered with that id, and the answer is about that request.  If it says done, it
  carries what an executor returned for exactly that request's game and profile, and no error; if it says
  failed, the job was delivered more often than allowed and there is no result; otherwise it carries
  neither.\<close>

theorem served_results_genuine:
  assumes "\<And>t. service_reachable cfg go_parse mint token (hist t)"
    and "fst (status (\<lambda>t. Inr (get_job i (w_store (sv_world (hist t))))) latency wait) = Inr resp"
  shows "\<exists>t sgf raw profile. filter (\<lambda>e. fst e = sp_id resp) (sv_log (hist t)) = [(i, sgf, raw)] \<and>
    human_parse raw = Some (Inr profile) \<and>
    (case sp_status resp of
       Done \<Rightarrow> sp_error resp = None \<and>
         (\<exists>f \<in> set (sv_flights (hist t)). \<exists>v. fl_exec f i sgf profile = Inr v \<and> sp_result resp = Some v)
     | Failed \<Rightarrow> sp_result resp = None \<and> sp_error resp = Some ''max delivery attempts exceeded'' \<and>
         (\<exists>f \<in> set (sv_flights (hist t)). fl_job f = i \<and> max_attempts cfg < qm_read_ct (fl_msg f))
     | _ \<Rightarrow> sp_result resp = None \<and> sp_error resp = None)"
  by (rule served_facts [OF assms])

definition sample_events :: "service_event list" where
  "sample_events =
     [Ev_Submit 1 (Some ''rank_5k'') ''(;)'' (\<lambda>_. None), Ev_Lease 0 1 (sample_env Io_Ok (Inl NotFound)) (\<lambda>_ _ _. Inl NotFound),
      Ev_Step 0 2, Ev_Lease 0 2 (sample_env Io_Ok (Inl NotFound)) (\<lambda>i sgf profile. Inr (J_Str sgf)),
      Ev_Step 1 3, Ev_Step 0 4, Ev_Step 1 5, Ev_Step 1 6, Ev_Step 0 7, Ev_Step 1 8]"

definition sample_service :: service where
  "sample_service = foldl (\<lambda>sv ev. service_step default_worker_config (\<lambda>_. Inr [[[]]]) id None ev sv) service_begin sample_events"

lemma sample_service_reachable: "service_reachable default_worker_config (\<lambda>_. Inr [[[]]]) id None sample_service"
proof -
  have "service_reachable default_worker_config (\<lambda>_. Inr [[[]]]) id None
      (foldl (\<lambda>sv ev. service_step default_worker_config (\<lambda>_. Inr [[[]]]) id None ev sv) sv evs)"
    if "service_reachable default_worker_config (\<lambda>_. Inr [[[]]]) id None sv" for sv evs
    using that by (induction evs arbitrary: sv) (auto intro: service_reachable.step)
  then show ?thesis unfolding sample_service_def using service_reachable.start by blast
qed

lemma sample_service_log: "sv_log sample_service = [(1, ''(;)'', Some ''rank_5k'')]" by code_simp

lemma sample_service_job:
  "get_job 1 (w_store (sv_world sample_service)) =
     Some \<lparr>jv_id = 1, jv_status = Done, jv_result = Some (J_Str ''(;)''), jv_error = None\<rparr>"
  by code_simp

theorem served_results_genuine_witness:
  "\<exists>f \<in> set (sv_flights sample_service). fl_exec f 1 ''(;)'' (Some ''rank_5k'') = Inr (J_Str ''(;)'')"
proof -
  let ?resp = "status_of \<lparr>jv_id = 1, jv_status = Done, jv_result = Some (J_Str ''(;)''), jv_error = None\<rparr>"
  have served: "fst (status (\<lambda>t. Inr (get_job 1 (w_store (sv_world sample_service)))) (\<lambda>_. 0) None) = Inr ?resp"
    unfolding sample_service_job by (simp add: status_def)
  have profile: "human_parse (Some ''rank_5k'') = Some (Inr (Some ''rank_5k''))" by code_simp
  show ?thesis
    using served_results_genuine [of _ _ _ _ "\<lambda>_. sample_service", OF sample_service_reachable served]
    by (auto simp: sample_service_log status_of_def profile)
qed

section \<open>No job is left open\<close>

lemma row_of_ids: "row_of k s \<noteq> None \<longleftrightarrow> k \<in> jr_id ` set (st_rows s)"
  unfolding row_of_def find_None_iff by blast

lemma row_there_write: "table_write u \<Longrightarrow> row_of k s \<noteq> None \<Longrightarrow> row_of k (u s) \<noteq> None"
  unfolding row_of_ids using table_write.keeps_rows [of u s] by blast

interpretation row_there: kept "\<lambda>w. row_of k (w_store w) \<noteq> None" for k
  by unfold_locales
    (simp_all add: row_there_write running_write.table_write_axioms failed_write.table_write_axioms
      done_write.table_write_axioms attempt_write.table_write_axioms del: not_None_eq)

lemma worker_loop_append:
  "Loop_Shutdown \<notin> set es \<Longrightarrow> worker_loop cfg (es @ es') w = worker_loop cfg es' (worker_loop cfg es w)"
  by (induction cfg es w rule: worker_loop.induct) (simp_all add: Let_def)

lemma poison_settles:
  assumes "row_of i (w_store w) \<noteq> None" and "i = jm_job_id (qm_message msg)"
    and "max_attempts cfg < qm_read_ct msg" and "de_failed env = Io_Ok" and "de_archive env = Io_Ok"
  shows "is_settled i (w_store (snd (handle cfg env msg w))) \<and> qm_msg_id msg \<in> set (w_archived (snd (handle cfg env msg w)))"
proof -
  obtain r where r: "row_of i (w_store w) = Some r" using assms(1) by auto
  have "is_settled i (set_failed (de_now env) i ''max delivery attempts exceeded'' (w_store w))"
    by (rule settled_by_update [OF failed_write.table_write_axioms r set_failed_terminal])
  then show ?thesis
    using assms(2-5) by (simp add: handle_def Let_def and_then_def db_write_def queue_archive_def count_outcome_def)
qed

text \<open>C13. No job is left open for good.  However the earlier deliveries went, whatever failed in them and
  whatever the executors returned, the first delivery past the allowed attempts whose two calls succeed
  ends the job and removes its message; and no later event of the loop changes the row again.\<close>

theorem jobs_settle:
  assumes "store_inv (w_store w)" and "row_of (jm_job_id (qm_message msg)) (w_store w) \<noteq> None"
    and "Loop_Shutdown \<notin> set es" and "max_attempts cfg < qm_read_ct msg"
    and "de_failed env = Io_Ok" and "de_archive env = Io_Ok"
  shows "qm_msg_id msg \<in> set (w_archived (worker_loop cfg (es @ [Delivered msg env]) w)) \<and>
    (\<exists>r. terminal r \<and>
       row_of (jm_job_id (qm_message msg)) (w_store (worker_loop cfg (es @ [Delivered msg env]) w)) = Some r \<and>
       row_of (jm_job_id (qm_message msg)) (w_store (worker_loop cfg later (worker_loop cfg (es @ [Delivered msg env]) w))) = Some r)"
proof -
  let ?i = "jm_job_id (qm_message msg)"
  define w1 where "w1 = (let w' = worker_loop cfg es w in
      if qm_read_ct msg = 1 then w'\<lparr>w_waits := w_waits w' @ [qm_msg_id msg]\<rparr> else w')"
  have run: "worker_loop cfg (es @ [Delivered msg env]) w = snd (handle cfg env msg w1)"
    by (simp add: worker_loop_append [OF assms(3)] w1_def Let_def)
  have "row_of ?i (w_store w1) \<noteq> None"
    using row_there.loop_keeps [OF assms(2), of cfg es] by (simp add: w1_def Let_def)
  from poison_settles [OF this refl assms(4-6)] obtain r where r: "row_of ?i (w_store (snd (handle cfg env msg w1))) = Some r"
      "terminal r" "qm_msg_id msg \<in> set (w_archived (snd (handle cfg env msg w1)))"
    by (auto simp: is_settled_def)
  have "store_inv (w_store w1)" using store_ok.loop_keeps [OF assms(1), of cfg es] by (simp add: w1_def Let_def)
  then have "store_inv (w_store (snd (handle cfg env msg w1)))" by (rule store_ok.handle_keeps)
  then show ?thesis using r row_kept.loop_keeps [of "snd (handle cfg env msg w1)" ?i r cfg later] unfolding run by blast
qed

definition sample_loop_open :: "loop_event list" where
  "sample_loop_open = [Delivered (sample_delivery 1) (sample_env Io_Ok (Inl NotFound)), Read_Failed ''down'',
     Delivered (sample_delivery 3) (sample_env (Io_Lost ''reset'') (Inr J_Null))]"

theorem jobs_settle_witness:
  "11 \<in> set (w_archived (worker_loop default_worker_config
     (sample_loop_open @ [Delivered (sample_delivery 4) (sample_env Io_Ok (Inl NotFound))]) sample_world))"
proof -
  have row: "row_of 1 (w_store sample_world) \<noteq> None" by code_simp
  then show ?thesis
    using jobs_settle [OF sample_world_inv, of "sample_delivery 4" sample_loop_open default_worker_config
        "sample_env Io_Ok (Inl NotFound)"]
    by (simp add: sample_delivery_def sample_env_def sample_loop_open_def default_worker_config_def)
qed

end
