(* ===== verification/Whole_Service.thy ===== *)
theory Whole_Service
  imports Service Engine Cluster
begin

text \<open>
  The service with its engines: the executors a delivery may use (\<open>LocalExecutor\<close> of \<open>src/src/worker.rs\<close>,
  \<open>RemoteExecutor\<close> of \<open>src/src/cluster/server.rs\<close>) over the analysis of \<open>src/src/engine/mod.rs\<close>, under the
  service's statements of \<^bold>\<open>Service\<close>.  The engine processes answer as they like.
\<close>

section \<open>Executors over an engine\<close>

text \<open>What the engine may make of a game and a profile, whatever its process answers.\<close>

definition engine_may ::
  "sgf_reader \<Rightarrow> (fl \<Rightarrow> fl) \<Rightarrow> engine_config \<Rightarrow> string option \<Rightarrow> string \<Rightarrow> string option \<Rightarrow> game_analysis app_result \<Rightarrow> bool" where
  "engine_may go_parse expf cfg version sgf profile r =
     (\<exists>ask. r = fst (engine_analyze go_parse expf ask cfg version sgf profile))"

text \<open>An executor that answers with nothing but encodings of the engine's analyses.\<close>

definition backed ::
  "(string \<Rightarrow> string option \<Rightarrow> game_analysis app_result \<Rightarrow> bool) \<Rightarrow> (game_analysis \<Rightarrow> string + json) \<Rightarrow> executor \<Rightarrow> bool" where
  "backed may to_value ex =
     (\<forall>i sgf profile v. ex i sgf profile = Inr v \<longrightarrow> (\<exists>a. may sgf profile (Inr a) \<and> to_value a = Inr v))"

lemma backedD:
  "backed may to_value ex \<Longrightarrow> ex i sgf profile = Inr v \<Longrightarrow> \<exists>a. may sgf profile (Inr a) \<and> to_value a = Inr v"
  by (simp add: backed_def)

text \<open>The executor in the worker's own process, with any engine calls of its own.\<close>

lemma local_backed:
  "backed (engine_may go_parse expf cfg version) to_value
     (\<lambda>i sgf profile. local_execute to_value (\<lambda>sgf profile. fst (engine_analyze go_parse expf (ask i) cfg version sgf profile))
        i sgf profile)"
  by (auto simp: backed_def local_execute_def engine_may_def res_bind_def split: sum.splits) metis

text \<open>The executor behind a worker's socket: a value it answers with is one a call of its session, for that
  game and profile, has returned.\<close>

definition remote_executor :: "session \<Rightarrow> executor \<Rightarrow> bool" where
  "remote_executor s ex =
     (\<forall>i sgf profile v. ex i sgf profile = Inr v \<longrightarrow>
        (\<exists>x \<in> set (se_calls s). rq_sgf (ca_request x) = sgf \<and> rq_human_profile (ca_request x) = profile \<and>
           ca_phase x = Returned (Inr v)))"

lemma remote_backed:
  assumes "cluster_reachable ou ccfg C" and "codec_faithful ou C" and "k < length (cl_links C)"
    and "remote_executor (ln_server (cl_links C ! k)) ex"
    and "\<And>x y. x \<in> set (se_calls (ln_server (cl_links C ! k))) \<Longrightarrow> y \<in> set (se_calls (ln_server (cl_links C ! k))) \<Longrightarrow>
      job_of y = job_of x \<Longrightarrow> rq_sgf (ca_request y) = rq_sgf (ca_request x) \<and>
      rq_human_profile (ca_request y) = rq_human_profile (ca_request x)"
  shows "backed (ou_may ou) (ou_to_value ou) ex"
  unfolding backed_def
proof (intro allI impI)
  fix i sgf profile v
  assume "ex i sgf profile = Inr v"
  then obtain x where x: "x \<in> set (se_calls (ln_server (cl_links C ! k)))" "rq_sgf (ca_request x) = sgf"
      "rq_human_profile (ca_request x) = profile" "ca_phase x = Returned (Inr v)"
    using assms(4) unfolding remote_executor_def by blast
  have same: "rq_sgf (ca_request y) = rq_sgf (ca_request x) \<and> rq_human_profile (ca_request y) = rq_human_profile (ca_request x)"
    if "y \<in> set (se_calls (ln_server (cl_links C ! k)))" "job_of y = job_of x" for y
    using assms(5) [OF x(1) that] .
  show "\<exists>a. ou_may ou sgf profile (Inr a) \<and> ou_to_value ou a = Inr v"
    using call_facts [OF assms(1-3) refl x(1,4) same] unfolding x(2,3) sum.case .
qed

section \<open>What a client reads\<close>

lemma engine_analyze_value:
  assumes "fst (engine_analyze go_parse expf ask cfg version sgf profile) = Inr a"
  shows "\<exists>game. sgf_parse go_parse sgf (default_board_size cfg) (default_komi cfg) = Inr game \<and>
    map (\<lambda>m. (ma_color m, ma_mv m)) (ga_moves a) = game_moves game \<and> ga_board_size a = board_size game \<and>
    ga_komi a = komi game \<and> ga_rules a = rules_of game \<and> ga_result a = result_text game \<and>
    gr_num_moves (ga_report a) = length (game_moves game) \<and> ei_version (ga_engine a) = version \<and>
    ga_human_profile a \<in> {None, if human_model cfg = [] then None else profile}"
proof (cases "sgf_parse go_parse sgf (default_board_size cfg) (default_komi cfg)")
  case (Inl e)
  then show ?thesis using assms by (simp add: engine_analyze_def)
next
  case (Inr game)
  define h where "h = opt_filter (\<lambda>_. human_model cfg \<noteq> []) profile"
  obtain turns tr where "analyze_turns ask cfg game h = (Inr turns, tr)"
      and a: "a = (let x = assemble expf game turns cfg h in x\<lparr>ga_engine := (ga_engine x)\<lparr>ei_version := version\<rparr>\<rparr>)"
    using assms Inr by (auto simp: engine_analyze_def Let_def h_def split: sum.splits prod.splits)
  have "h = (if human_model cfg = [] then None else profile)" by (cases profile) (simp_all add: h_def)
  moreover have "ga_human_profile (assemble expf game turns cfg h) \<in> {None, h}"
    by (cases h) (simp_all add: assemble_def Let_def)
  ultimately show ?thesis
    using assemble_moves [of expf game turns cfg h]
    by (simp add: a Let_def Inr) (simp add: assemble_def Let_def)
qed

text \<open>C2. What a client reads is about the game it sent.  In a service whose executors, in process or behind
  worker sockets, rest on engines with one configuration, a job answered as done was accepted once under
  its id, its game parses, and the result is the encoding of an analysis of that game: the same board,
  komi, rules and result, one annotation for every move, in order, and a human profile only if it is the
  one the request named and a human model is loaded.  The engine processes may answer anything.\<close>

theorem done_jobs_annotate_game:
  assumes "\<And>t. service_reachable cfg go_parse mint token (hist t)"
    and "\<And>t. \<forall>f \<in> set (sv_flights (hist t)). backed (engine_may go_parse expf ecfg version) to_value (fl_exec f)"
    and "fst (status (\<lambda>t. Inr (get_job i (w_store (sv_world (hist t))))) latency wait) = Inr resp"
    and "sp_status resp = Done"
  shows "\<exists>t sgf raw profile game a v. filter (\<lambda>e. fst e = sp_id resp) (sv_log (hist t)) = [(i, sgf, raw)] \<and>
    human_parse raw = Some (Inr profile) \<and>
    sgf_parse go_parse sgf (default_board_size ecfg) (default_komi ecfg) = Inr game \<and>
    sp_result resp = Some v \<and> to_value a = Inr v \<and>
    map (\<lambda>m. (ma_color m, ma_mv m)) (ga_moves a) = game_moves game \<and> ga_board_size a = board_size game \<and>
    ga_komi a = komi game \<and> ga_rules a = rules_of game \<and> ga_result a = result_text game \<and>
    gr_num_moves (ga_report a) = length (game_moves game) \<and> ei_version (ga_engine a) = version \<and>
    ga_human_profile a \<in> {None, if human_model ecfg = [] then None else profile}"
proof -
  obtain t sgf raw profile f v where served: "filter (\<lambda>e. fst e = sp_id resp) (sv_log (hist t)) = [(i, sgf, raw)]"
      "human_parse raw = Some (Inr profile)" "f \<in> set (sv_flights (hist t))" "fl_exec f i sgf profile = Inr v"
      "sp_result resp = Some v"
    using served_facts [OF assms(1,3)] assms(4) by auto
  obtain a where a: "engine_may go_parse expf ecfg version sgf profile (Inr a)" "to_value a = Inr v"
    using backedD [OF bspec [OF assms(2) served(3)] served(4)] by blast
  then obtain ask where "fst (engine_analyze go_parse expf ask ecfg version sgf profile) = Inr a"
    by (auto simp: engine_may_def)
  from engine_analyze_value [OF this] obtain game where
    "sgf_parse go_parse sgf (default_board_size ecfg) (default_komi ecfg) = Inr game"
    "map (\<lambda>m. (ma_color m, ma_mv m)) (ga_moves a) = game_moves game \<and> ga_board_size a = board_size game \<and>
      ga_komi a = komi game \<and> ga_rules a = rules_of game \<and> ga_result a = result_text game \<and>
      gr_num_moves (ga_report a) = length (game_moves game) \<and> ei_version (ga_engine a) = version \<and>
      ga_human_profile a \<in> {None, if human_model ecfg = [] then None else profile}"
    by blast
  with served(1,2,5) a(2) show ?thesis by (intro exI conjI) (assumption | simp)+
qed

text \<open>A request for the sample game, analysed at the second attempt: the engine was gone at the first.\<close>

definition sample_executor :: "json app_result \<Rightarrow> executor" where
  "sample_executor answer i sgf profile = (if sgf = ''(;)'' then answer else Inl NotFound)"

abbreviation sample_value :: "game_analysis \<Rightarrow> string + json" where
  "sample_value a \<equiv> Inr (J_Str (ei_model (ga_engine a)))"

definition sample_history :: service where
  "sample_history = foldl (\<lambda>sv ev. service_step default_worker_config (\<lambda>_. Inr [sample_tree]) id None ev sv) service_begin
     [Ev_Submit 1 (Some ''rank_5k'') ''(;)'' (\<lambda>_. None),
      Ev_Lease 0 1 (sample_env Io_Ok (Inl NotFound)) (sample_executor (Inl (Inference ''gone''))),
      Ev_Step 0 2, Ev_Step 0 3, Ev_Step 0 4,
      Ev_Lease 0 2 (sample_env Io_Ok (Inl NotFound)) (sample_executor (Inr (J_Str ''g170e-b10c128''))),
      Ev_Step 1 5, Ev_Step 1 6, Ev_Step 1 7, Ev_Step 1 8]"

lemma sample_history_reachable: "service_reachable default_worker_config (\<lambda>_. Inr [sample_tree]) id None sample_history"
  unfolding sample_history_def by (simp add: service_reachable.step service_reachable.start del: service_step.simps)

text \<open>The executors of the deliveries are the ones they were leased with.\<close>

fun lease_exec :: "service_event \<Rightarrow> executor option" where
  "lease_exec (Ev_Lease k read_ct env exec) = Some exec"
| "lease_exec _ = None"

lemma step_execs:
  "set (map fl_exec (sv_flights (service_step cfg go_parse mint token ev sv))) \<subseteq>
     set (map fl_exec (sv_flights sv)) \<union> set_option (lease_exec ev)"
proof (cases ev)
  case (Ev_Step j now)
  have "map fl_exec ((sv_flights sv)[j := (sv_flights sv ! j)\<lparr>fl_phase := ph\<rparr>]) = map fl_exec (sv_flights sv)"
    if "j < length (sv_flights sv)" for ph
    using that by (simp add: map_update list_update_same_conv)
  then have "map fl_exec (sv_flights (service_step cfg go_parse mint token ev sv)) = map fl_exec (sv_flights sv)"
    by (simp add: Ev_Step get_at_def split: prod.splits)
  then show ?thesis by simp
qed (auto split: option.splits)

lemma flight_execs:
  "fl_exec ` set (sv_flights (foldl (\<lambda>sv ev. service_step cfg go_parse mint token ev sv) sv evs)) \<subseteq>
     fl_exec ` set (sv_flights sv) \<union> (\<Union>ev \<in> set evs. set_option (lease_exec ev))"
proof (induction evs arbitrary: sv)
  case (Cons ev evs)
  show ?case
    using Cons.IH [of "service_step cfg go_parse mint token ev sv"] step_execs [of cfg go_parse mint token ev sv]
    by (simp del: service_step.simps) blast
qed simp

lemma sample_executor_backed:
  assumes "answer = Inl err \<or> answer = Inr (J_Str ''g170e-b10c128'')"
  shows "backed (engine_may (\<lambda>_. Inr [sample_tree]) (\<lambda>_. Fin 1) (default_engine_config None) None)
    sample_value (sample_executor answer)"
proof -
  have parse: "sgf_parse (\<lambda>_. Inr [sample_tree]) ''(;)'' 19 (Fin (15 / 2)) = Inr sample_game" by code_simp
  have model: "net_name (model_path (default_engine_config None)) = ''g170e-b10c128''" by code_simp
  have "\<exists>ask a. Inr a = fst (engine_analyze (\<lambda>_. Inr [sample_tree]) (\<lambda>_. Fin 1) ask (default_engine_config None) None ''(;)'' profile)
      \<and> ei_model (ga_engine a) = ''g170e-b10c128''" for profile
    by (intro exI [of _ "\<lambda>q n. (True, Replied (Inr []))"])
      (simp add: engine_analyze_def default_config_fields parse analyze_turns_def engine_pass_def katago_analyze_def
        analyze_outcome_def Let_def assemble_def model)
  then show ?thesis
    using assms by (auto simp: backed_def sample_executor_def engine_may_def split: if_splits) metis
qed

lemma sample_history_backed:
  "\<forall>f \<in> set (sv_flights sample_history).
     backed (engine_may (\<lambda>_. Inr [sample_tree]) (\<lambda>_. Fin 1) (default_engine_config None) None) sample_value (fl_exec f)"
proof
  fix f assume f: "f \<in> set (sv_flights sample_history)"
  have "fl_exec f \<in> {sample_executor (Inl (Inference ''gone'')), sample_executor (Inr (J_Str ''g170e-b10c128''))}"
    using subsetD [OF flight_execs imageI [OF f [unfolded sample_history_def], of fl_exec]]
    by (auto simp: service_begin_def)
  then show "backed (engine_may (\<lambda>_. Inr [sample_tree]) (\<lambda>_. Fin 1) (default_engine_config None) None) sample_value (fl_exec f)"
    using sample_executor_backed by auto
qed

lemma sample_history_facts:
  "sv_log sample_history = [(1, ''(;)'', Some ''rank_5k'')]"
  "get_job 1 (w_store (sv_world sample_history)) =
     Some \<lparr>jv_id = 1, jv_status = Done, jv_result = Some (J_Str ''g170e-b10c128''), jv_error = None\<rparr>"
  by code_simp+

theorem done_jobs_annotate_game_witness:
  "\<exists>game (a :: game_analysis). sgf_parse (\<lambda>_. Inr [sample_tree]) ''(;)'' 19 (Fin (15 / 2)) = Inr game \<and>
     map (\<lambda>m. (ma_color m, ma_mv m)) (ga_moves a) = game_moves game"
proof -
  let ?resp = "status_of \<lparr>jv_id = 1, jv_status = Done, jv_result = Some (J_Str ''g170e-b10c128''), jv_error = None\<rparr>"
  have served: "fst (status (\<lambda>t. Inr (get_job 1 (w_store (sv_world sample_history)))) (\<lambda>_. 0) None) = Inr ?resp"
    unfolding sample_history_facts by (simp add: status_def)
  have settled: "sp_status ?resp = Done" by (simp add: status_of_def)
  obtain sgf raw game and a :: game_analysis where
    "filter (\<lambda>e. fst e = sp_id ?resp) (sv_log sample_history) = [(1, sgf, raw)]"
    and parse: "sgf_parse (\<lambda>_. Inr [sample_tree]) sgf (default_board_size (default_engine_config None))
      (default_komi (default_engine_config None)) = Inr game"
    and moves: "map (\<lambda>m. (ma_color m, ma_mv m)) (ga_moves a) = game_moves game"
    using done_jobs_annotate_game [OF sample_history_reachable sample_history_backed served settled]
    by blast
  then have "sgf = ''(;)''" by (simp add: sample_history_facts status_of_def)
  with parse moves show ?thesis
    by (intro exI [of _ game] exI [of _ a]) (simp add: default_config_fields)
qed

end
