(* ===== verification/Http_Errors.thy ===== *)
theory Http_Errors
  imports Http
begin

text \<open>
  Which errors the submitting handlers answer with (\<open>src/src/http/handlers.rs\<close>), from where they arise:
  the parser (\<open>src/src/engine/sgf.rs\<close>), the profile check (\<open>src/src/engine/human.rs\<close>), the store and the
  queue (\<open>src/src/db\<close>).  The status line then tells the client's mistakes from the service's faults.
\<close>

section \<open>The errors of a computation\<close>

definition errs :: "(app_error \<Rightarrow> bool) \<Rightarrow> 'a app_result \<Rightarrow> bool" where
  "errs P r = (case r of Inl e \<Rightarrow> P e | Inr _ \<Rightarrow> True)"

lemma errs_simps [simp]: "errs P (Inl e) = P e" "errs P (Inr x) = True"
  by (simp_all add: errs_def)

lemma errs_map [simp]: "errs P (res_map f r) = errs P r"
  by (cases r) simp_all

lemma errs_bind: "errs P r \<Longrightarrow> (\<And>x. r = Inr x \<Longrightarrow> errs P (f x)) \<Longrightarrow> errs P (res_bind r f)"
  by (cases r) simp_all

lemma errs_collect: "(\<And>x. x \<in> set xs \<Longrightarrow> errs P (f x)) \<Longrightarrow> errs P (collect_res f xs)"
proof (induction xs)
  case (Cons x xs)
  then show ?case by (cases "f x") (force simp del: errs_def)+
qed simp

lemma errs_fold: "(\<And>s x. errs P (f s x)) \<Longrightarrow> errs P (fold_res f s xs)"
proof (induction xs arbitrary: s)
  case (Cons x xs)
  then show ?case using Cons.prems [of s x] by (cases "f s x") simp_all
qed simp

lemmas errs_intros = errs_bind errs_collect errs_fold

section \<open>Where they come from\<close>

text \<open>A game is refused with an SGF error and no other.\<close>

fun sgf_error :: "app_error \<Rightarrow> bool" where
  "sgf_error (Sgf m) = True"
| "sgf_error _ = False"

lemma read_prop_errs: "errs sgf_error (read_prop index s prop)"
  by (cases "(index, s, prop)" rule: read_prop.cases) (simp_all add: setup_stones_def node_play_def)

lemma sgf_parse_errs: "errs sgf_error (sgf_parse go_parse sgf default_size default_komi)"
proof -
  have point: "errs sgf_error (to_gtp p bsize)" for p bsize by (simp add: to_gtp_def Let_def)
  have mv: "errs sgf_error (move_to_gtp m bsize)" for m bsize
    using point by (simp add: move_to_gtp_def split: sgf_move.split)
  have node: "errs sgf_error (read_node a node)" for a node
    by (simp add: read_node_def case_prod_beta errs_fold read_prop_errs)
  have finish: "errs sgf_error (finish_game default_size default_komi a)" for a
    unfolding finish_game_def Let_def by (auto intro!: errs_intros simp: point mv)
  show ?thesis
    unfolding sgf_parse_def
    by (auto intro!: errs_intros simp: node finish split: sum.split list.split)
qed

lemma validate_errs: "errs sgf_error (sgf_validate go_parse sgf)"
  by (simp add: sgf_validate_def sgf_parse_errs)

lemma human_parse_errs: "human_parse profile = Some (Inl e) \<Longrightarrow> error_status e = 400"
  by (auto simp: human_parse_def human_validate_def split: option.splits if_splits bool.splits)

text \<open>The store and the queue fail with errors of their own, never with a client's.\<close>

definition fault :: "app_error \<Rightarrow> bool" where
  "fault e = (error_status e = 500)"

lemma submit_one_errs: "errs fault (fst (submit_one mint send now job s))"
  by (simp add: submit_one_def insert_default_def publish_def Let_def from_diesel_def fault_def split: option.split)

lemma submit_all_errs: "errs fault (fst (submit_all mint send now jobs s))"
proof (induction jobs arbitrary: s)
  case (Cons job jobs)
  obtain r s1 where one: "submit_one mint send now job s = (r, s1)" by fastforce
  obtain r2 s2 where rest: "submit_all mint send now jobs s1 = (r2, s2)" by fastforce
  show ?case
    using submit_one_errs [of mint send now job s] Cons.IH [of s1] by (cases r; cases r2) (simp_all add: one rest)
qed simp

lemma transaction_errs: "errs P (fst (body s)) \<Longrightarrow> errs P (fst (transaction body s))"
  by (cases "body s"; cases "fst (body s)") (auto simp: transaction_def)

lemma db_submit_errs: "errs fault (fst (db_submit mint send now job s))"
  by (simp add: db_submit_def transaction_errs submit_one_errs)

lemma submit_many_errs: "errs fault (fst (submit_many mint send now jobs s))"
  by (simp add: submit_many_def transaction_errs submit_all_errs)

section \<open>What the client is told\<close>

lemma http_submit_refused:
  assumes "http_submit go_parse mint send now profile body s = Some (Inl e, s')"
  shows "error_status e =
    (if is_ok (sgf_validate go_parse body) \<and> map_option is_ok (human_parse profile) = Some True then 500 else 400)"
proof (cases "sgf_validate go_parse body")
  case (Inl e')
  then have "sgf_error e" using validate_errs [of go_parse body] assms by (simp add: http_submit_def)
  then show ?thesis using Inl by (cases e) simp_all
next
  case (Inr u)
  then obtain v where v: "human_parse profile = Some v"
    using assms by (cases "human_parse profile") (simp_all add: http_submit_def)
  show ?thesis
  proof (cases v)
    case (Inl e')
    then show ?thesis using assms Inr v human_parse_errs [of profile e'] by (simp add: http_submit_def)
  next
    case prof: (Inr p)
    have "fst (db_submit mint send now \<lparr>nj_sgf = body, nj_human_profile = p\<rparr> s) = Inl e"
      using assms Inr v prof by (auto simp: http_submit_def Let_def case_prod_beta res_map_def split: sum.splits)
    then have "error_status e = 500"
      using db_submit_errs [of mint send now "\<lparr>nj_sgf = body, nj_human_profile = p\<rparr>" s] by (simp add: fault_def)
    then show ?thesis using Inr v prof by simp
  qed
qed

lemma submit_batch_refused:
  assumes "submit_batch go_parse mint send now token authorization sgfs s = Some (Inl e, s')"
  shows "error_status e =
    (if (case token of None \<Rightarrow> False | Some t \<Rightarrow> \<not> bearer_matches authorization t) then 401
     else if 100 < length sgfs then 400 else 500)"
proof (cases "(case token of None \<Rightarrow> False | Some t \<Rightarrow> \<not> bearer_matches authorization t) \<or> 100 < length sgfs")
  case True
  then show ?thesis using assms by (auto simp: submit_batch_def MAX_BATCH_def batch_too_large_def split: if_splits)
next
  case False
  then obtain jobs where "fst (submit_many mint send now jobs s) = Inl e"
    using assms
    by (auto simp: submit_batch_def MAX_BATCH_def Let_def case_prod_beta res_map_def split: option.splits sum.splits)
  then show ?thesis using False submit_many_errs [of mint send now jobs s] by (simp add: fault_def)
qed


end
