(* ===== verification/Telemetry.thy ===== *)
theory Telemetry
  imports Worker
begin

text \<open>
  The queue's wrappers (\<open>src/src/queue.rs\<close>), the heartbeat of a lease (\<open>src/src/worker.rs\<close>) and the
  metrics (\<open>src/src/metrics.rs\<close>).  pgmq, the pool and the two metric backends are not part of the program:
  the first two are parameters, and what is sent to the backends is recorded, to OpenTelemetry as integers
  and to Sentry as doubles.
\<close>

section \<open>Model\<close>

subsection \<open>The queue\<close>

definition POLL_INTERVAL_MS :: nat where "POLL_INTERVAL_MS = 100"

text \<open>A connection of the pool: \<open>None\<close>, or why there is none.  The backend answers with rows or an error.\<close>

definition with_conn :: "string option \<Rightarrow> string + 'a \<Rightarrow> 'a app_result" where
  "with_conn pool answer =
     (case pool of
        Some err \<Rightarrow> Inl (Queue err)
      | None \<Rightarrow> (case answer of Inl err \<Rightarrow> Inl (Queue err) | Inr x \<Rightarrow> Inr x))"

definition read_one ::
    "string option \<Rightarrow> (string \<Rightarrow> int \<Rightarrow> nat \<Rightarrow> nat \<Rightarrow> nat \<Rightarrow> string + queue_message list) \<Rightarrow> queue_kind \<Rightarrow> int \<Rightarrow> nat
       \<Rightarrow> queue_message option app_result" where
  "read_one pool pgmq queue vt_secs poll =
     res_map (\<lambda>msgs. get_at msgs 0) (with_conn pool (pgmq (queue_str queue) vt_secs 1 poll POLL_INTERVAL_MS))"

definition archive_one ::
    "string option \<Rightarrow> (string \<Rightarrow> int list \<Rightarrow> string + unit) \<Rightarrow> queue_kind \<Rightarrow> int \<Rightarrow> unit app_result" where
  "archive_one pool pgmq queue msg_id = with_conn pool (pgmq (queue_str queue) [msg_id])"

definition extend_vt ::
    "string option \<Rightarrow> (string \<Rightarrow> int list \<Rightarrow> int \<Rightarrow> string + queue_message list) \<Rightarrow> queue_kind \<Rightarrow> int \<Rightarrow> int
       \<Rightarrow> unit app_result" where
  "extend_vt pool pgmq queue msg_id vt_secs =
     res_map (\<lambda>_. ()) (with_conn pool (pgmq (queue_str queue) [msg_id] vt_secs))"

text \<open>The heartbeat: at every interval one extension, which holds the lock for the whole timeout from then
  on if it succeeds and is only logged if it does not.  Seconds; the pair is the time and the lock's end.\<close>

definition heartbeat_tick :: "int \<Rightarrow> int \<times> int \<Rightarrow> unit app_result \<Rightarrow> int \<times> int" where
  "heartbeat_tick vt_secs lease answer =
     (let now = fst lease + heartbeat_interval vt_secs
      in (now, case answer of Inr _ \<Rightarrow> now + vt_secs | Inl err \<Rightarrow> snd lease))"

definition heartbeat_run :: "int \<Rightarrow> int \<Rightarrow> unit app_result list \<Rightarrow> int \<times> int" where
  "heartbeat_run vt_secs leased answers = foldl (heartbeat_tick vt_secs) (leased, leased + vt_secs) answers"

subsection \<open>Metrics\<close>

datatype otel_point =
    Otel_Gauge string int
  | Otel_Counter string nat "(string \<times> string) list"
  | Otel_Histogram string fl "(string \<times> string) list"

datatype sentry_point =
    Sentry_Gauge string fl
  | Sentry_Counter string fl "(string \<times> string) list"
  | Sentry_Distribution string fl "(string \<times> string) list"

record telemetry =
  tm_otel :: "otel_point list"
  tm_sentry :: "sentry_point list"

definition NAME_WORKERS :: string where "NAME_WORKERS = ''katago_ws.workers.connected''"
definition NAME_WAITING :: string where "NAME_WAITING = ''katago_ws.jobs.waiting''"
definition NAME_PROCESSED :: string where "NAME_PROCESSED = ''katago_ws.jobs.processed''"
definition NAME_DURATION :: string where "NAME_DURATION = ''katago_ws.job.duration''"
definition NAME_QUEUE_WAIT :: string where "NAME_QUEUE_WAIT = ''katago_ws.job.queue_wait''"
definition NAME_MOVES :: string where "NAME_MOVES = ''katago_ws.moves.analyzed''"
definition NAME_POSITIONS :: string where "NAME_POSITIONS = ''katago_ws.positions.analyzed''"

definition emit :: "otel_point list \<Rightarrow> sentry_point list \<Rightarrow> telemetry \<Rightarrow> telemetry" where
  "emit ps qs t = t\<lparr>tm_otel := tm_otel t @ ps, tm_sentry := tm_sentry t @ qs\<rparr>"

definition as_f64 :: "int \<Rightarrow> fl" where
  "as_f64 n = rnd f64 (of_int n)"

definition set_workers_connected :: "int \<Rightarrow> telemetry \<Rightarrow> telemetry" where
  "set_workers_connected n = emit [Otel_Gauge NAME_WORKERS n] [Sentry_Gauge NAME_WORKERS (as_f64 n)]"

definition set_jobs_waiting :: "int \<Rightarrow> telemetry \<Rightarrow> telemetry" where
  "set_jobs_waiting n = emit [Otel_Gauge NAME_WAITING n] [Sentry_Gauge NAME_WAITING (as_f64 n)]"

definition job_processed :: "string \<Rightarrow> fl option \<Rightarrow> telemetry \<Rightarrow> telemetry" where
  "job_processed outcome duration t =
     (let tag = [(''outcome'', outcome)];
          t = emit [Otel_Counter NAME_PROCESSED 1 tag] [Sentry_Counter NAME_PROCESSED (Fin 1) tag] t
      in case duration of
           None \<Rightarrow> t
         | Some secs \<Rightarrow> emit [Otel_Histogram NAME_DURATION secs tag] [Sentry_Distribution NAME_DURATION secs tag] t)"

definition job_queue_wait :: "fl \<Rightarrow> telemetry \<Rightarrow> telemetry" where
  "job_queue_wait secs = emit [Otel_Histogram NAME_QUEUE_WAIT secs []] [Sentry_Distribution NAME_QUEUE_WAIT secs []]"

definition moves_analyzed :: "nat \<Rightarrow> telemetry \<Rightarrow> telemetry" where
  "moves_analyzed moves = emit [Otel_Counter NAME_MOVES moves []] [Sentry_Counter NAME_MOVES (as_f64 (int moves)) []]"

definition positions_analyzed :: "string \<Rightarrow> nat \<Rightarrow> telemetry \<Rightarrow> telemetry" where
  "positions_analyzed pass positions =
     emit [Otel_Counter NAME_POSITIONS positions [(''pass'', pass)]]
       [Sentry_Counter NAME_POSITIONS (as_f64 (int positions)) [(''pass'', pass)]]"

text \<open>The sampler's loop: a reading of the table as it is then, or the query's error, until the shutdown.\<close>

datatype sampler_event = Sampled store "app_error option" | Sampler_Shutdown

fun queue_depth_sampler :: "sampler_event list \<Rightarrow> telemetry \<Rightarrow> telemetry" where
  "queue_depth_sampler [] t = t"
| "queue_depth_sampler (Sampler_Shutdown # es) t = t"
| "queue_depth_sampler (Sampled s fault # es) t =
     queue_depth_sampler es
       (case fault of Some err \<Rightarrow> t | None \<Rightarrow> set_jobs_waiting (int (count_in_state Queued s)) t)"

text \<open>The instruments as the process builds them, once, for the meter \<open>katago-ws\<close>; what a unit or a list of
  boundaries is left to is the backend's default.\<close>

datatype instrument_kind = I64_Gauge | U64_Counter | F64_Histogram

record instrument =
  in_kind :: instrument_kind
  in_name :: string
  in_unit :: "string option"
  in_description :: string
  in_boundaries :: "rat list option"

definition metrics_instruments :: "instrument list" where
  "metrics_instruments =
     [\<lparr>in_kind = I64_Gauge, in_name = NAME_WORKERS, in_unit = None,
       in_description = ''Cluster workers with a live session to this orchestrator'', in_boundaries = None\<rparr>,
      \<lparr>in_kind = I64_Gauge, in_name = NAME_WAITING, in_unit = None,
       in_description = ''Jobs queued and waiting to be processed'', in_boundaries = None\<rparr>,
      \<lparr>in_kind = U64_Counter, in_name = NAME_PROCESSED, in_unit = None,
       in_description = ''Analysis jobs that reached a terminal state, by outcome'', in_boundaries = None\<rparr>,
      \<lparr>in_kind = F64_Histogram, in_name = NAME_DURATION, in_unit = Some ''s'',
       in_description = ''Wall-clock time to analyze one job'',
       in_boundaries = Some [1/2, 1, 5/2, 5, 10, 30, 60, 120, 300]\<rparr>,
      \<lparr>in_kind = F64_Histogram, in_name = NAME_QUEUE_WAIT, in_unit = Some ''s'',
       in_description = ''Time a job waited in the queue before its first delivery'',
       in_boundaries = Some [1/10, 1/2, 1, 5, 15, 60, 300, 900, 3600, 14400]\<rparr>,
      \<lparr>in_kind = U64_Counter, in_name = NAME_MOVES, in_unit = None,
       in_description = ''Moves in successfully analyzed games'', in_boundaries = None\<rparr>,
      \<lparr>in_kind = U64_Counter, in_name = NAME_POSITIONS, in_unit = None,
       in_description = ''Positions searched by KataGo, by pass'', in_boundaries = None\<rparr>]"

subsection \<open>Traces\<close>

text \<open>The header of the active span, given the headers it lists.\<close>

definition propagation_header :: "(string \<times> string) list option \<Rightarrow> string option" where
  "propagation_header active =
     Option.bind active (\<lambda>headers. map_option snd (List.find (\<lambda>(name, value). name = ''sentry-trace'') headers))"

text \<open>A hub carries the active span, if any.  Work is a function of the hub it runs on, which it may leave
  with another span; bound to a fork, what it leaves stays on the fork.\<close>

record trace_span =
  ts_sampled :: bool
  ts_headers :: "(string \<times> string) list"

record trace_hub =
  th_span :: "trace_span option"

definition in_new_trace :: "(trace_hub \<Rightarrow> 'a \<times> trace_hub) \<Rightarrow> trace_hub \<Rightarrow> 'a \<times> trace_hub" where
  "in_new_trace work current = (fst (work (current\<lparr>th_span := None\<rparr>)), current)"

text \<open>\<open>start\<close> is Sentry's: the span of a transaction with a name, an operation and a forced decision.\<close>

definition untraced ::
    "(string \<Rightarrow> string \<Rightarrow> bool \<Rightarrow> trace_span) \<Rightarrow> (trace_hub \<Rightarrow> 'a \<times> trace_hub) \<Rightarrow> trace_hub \<Rightarrow> 'a \<times> trace_hub" where
  "untraced start work current =
     (fst (work (current\<lparr>th_span := Some (start ''untraced'' ''untraced'' False)\<rparr>)), current)"

text \<open>The header at the current hub.\<close>

definition current_header :: "trace_hub \<Rightarrow> string option" where
  "current_header h = propagation_header (map_option ts_headers (th_span h))"

section \<open>The queue and the lease\<close>

text \<open>Every failure of the queue reaches its caller as a queue error.\<close>

lemma queue_errors:
  "read_one pool pgmq queue vt_secs poll = Inl e \<Longrightarrow> \<exists>err. e = Queue err"
  "archive_one pool pgmq' queue m = Inl e \<Longrightarrow> \<exists>err. e = Queue err"
  "extend_vt pool pgmq'' queue m vt_secs = Inl e \<Longrightarrow> \<exists>err. e = Queue err"
  by (auto simp: read_one_def archive_one_def extend_vt_def with_conn_def res_map_def split: option.splits sum.splits)

lemma heartbeat_run_snoc:
  "heartbeat_run vt leased (answers @ [a]) = heartbeat_tick vt (heartbeat_run vt leased answers) a"
  by (simp add: heartbeat_run_def)

text \<open>While the extensions succeed the lock always ends after the next one is due.\<close>

lemma heartbeat_holds:
  assumes "2 \<le> vt" and "list_all is_ok answers"
  shows "snd (heartbeat_run vt leased answers) = fst (heartbeat_run vt leased answers) + vt \<and>
    fst (heartbeat_run vt leased answers) + heartbeat_interval vt < snd (heartbeat_run vt leased answers)"
  using assms
proof (induction answers rule: rev_induct)
  case Nil
  then show ?case
    by (simp add: heartbeat_run_def heartbeat_interval_def HEARTBEAT_DIVISOR_def)
next
  case (snoc a answers)
  have "heartbeat_interval vt < vt" using snoc.prems(1)
    by (simp add: heartbeat_interval_def HEARTBEAT_DIVISOR_def)
  then show ?case using snoc by (cases a) (simp_all add: heartbeat_run_snoc heartbeat_tick_def Let_def)
qed

text \<open>One failed extension already uses the whole margin when the timeout is even: the next one is due at
  the very moment the lock ends.\<close>

lemma heartbeat_one_failure:
  assumes "2 \<le> vt" and "even vt"
  shows "fst (heartbeat_run vt leased [Inl err]) + heartbeat_interval vt = snd (heartbeat_run vt leased [Inl err])"
  using assms by (simp add: heartbeat_run_def heartbeat_tick_def heartbeat_interval_def HEARTBEAT_DIVISOR_def Let_def)

section \<open>What is counted\<close>

text \<open>The two backends receive the same instruments with the same tags, in the same order; integers up to
  the exact range of a double arrive unchanged.\<close>

fun same_point :: "otel_point \<Rightarrow> sentry_point \<Rightarrow> bool" where
  "same_point (Otel_Gauge n v) (Sentry_Gauge m x) = (n = m \<and> x = as_f64 v)"
| "same_point (Otel_Counter n v tags) (Sentry_Counter m x tags') = (n = m \<and> tags = tags' \<and> x = as_f64 (int v))"
| "same_point (Otel_Histogram n v tags) (Sentry_Distribution m x tags') = (n = m \<and> tags = tags' \<and> x = v)"
| "same_point _ _ = False"

definition backends_agree :: "telemetry \<Rightarrow> bool" where
  "backends_agree t = list_all2 same_point (tm_otel t) (tm_sentry t)"

lemma as_f64_exact: "n \<le> 2 ^ 53 \<Longrightarrow> as_f64 (int n) = Fin (of_nat n)"
  using rnd_of_nat [of n f64] by (simp add: as_f64_def)

lemma emit_agrees: "backends_agree t \<Longrightarrow> list_all2 same_point ps qs \<Longrightarrow> backends_agree (emit ps qs t)"
  by (simp add: backends_agree_def emit_def list_all2_appendI)

lemma metrics_agree:
  assumes "backends_agree t"
  shows "backends_agree (set_workers_connected n t)" and "backends_agree (set_jobs_waiting n t)"
    and "backends_agree (job_processed outcome duration t)" and "backends_agree (job_queue_wait secs t)"
    and "backends_agree (moves_analyzed moves t)" and "backends_agree (positions_analyzed pass positions t)"
  using assms as_f64_exact [of 1]
  by (auto simp: set_workers_connected_def set_jobs_waiting_def job_processed_def job_queue_wait_def
      moves_analyzed_def positions_analyzed_def Let_def intro!: emit_agrees split: option.split)

lemma sampler_agrees: "backends_agree t \<Longrightarrow> backends_agree (queue_depth_sampler es t)"
  by (induction es t rule: queue_depth_sampler.induct) (auto simp: metrics_agree split: option.split)

text \<open>Everything that is ever sent belongs to an instrument of its kind; no two instruments share a name, and
  the boundaries of the histograms ascend.\<close>

fun declared_point :: "otel_point \<Rightarrow> bool" where
  "declared_point (Otel_Gauge n v) = (\<exists>i \<in> set metrics_instruments. in_kind i = I64_Gauge \<and> in_name i = n)"
| "declared_point (Otel_Counter n v tags) = (\<exists>i \<in> set metrics_instruments. in_kind i = U64_Counter \<and> in_name i = n)"
| "declared_point (Otel_Histogram n v tags) = (\<exists>i \<in> set metrics_instruments. in_kind i = F64_Histogram \<and> in_name i = n)"

lemma instruments_distinct: "distinct (map in_name metrics_instruments)"
  by code_simp

lemma instruments_boundaries: "i \<in> set metrics_instruments \<Longrightarrow> in_boundaries i = Some bs \<Longrightarrow> sorted_wrt (<) bs"
  by (auto simp: metrics_instruments_def)

lemma emit_declared:
  "list_all declared_point (tm_otel t) \<Longrightarrow> list_all declared_point ps \<Longrightarrow> list_all declared_point (tm_otel (emit ps qs t))"
  by (simp add: emit_def)

lemma metrics_declared:
  assumes "list_all declared_point (tm_otel t)"
  shows "list_all declared_point (tm_otel (set_workers_connected n t))"
    and "list_all declared_point (tm_otel (set_jobs_waiting n t))"
    and "list_all declared_point (tm_otel (job_processed outcome duration t))"
    and "list_all declared_point (tm_otel (job_queue_wait secs t))"
    and "list_all declared_point (tm_otel (moves_analyzed moves t))"
    and "list_all declared_point (tm_otel (positions_analyzed pass positions t))"
  using assms
  by (auto simp: set_workers_connected_def set_jobs_waiting_def job_processed_def job_queue_wait_def
      moves_analyzed_def positions_analyzed_def Let_def metrics_instruments_def intro!: emit_declared split: option.split)

lemma sampler_declared:
  "list_all declared_point (tm_otel t) \<Longrightarrow> list_all declared_point (tm_otel (queue_depth_sampler es t))"
  by (induction es t rule: queue_depth_sampler.induct) (auto simp: metrics_declared split: option.split)

text \<open>A job is counted as done or failed only after its message was removed; an attempt left for another
  delivery is counted as well, though its job has not ended.\<close>

definition counted_settled :: "world \<Rightarrow> bool" where
  "counted_settled w = (length (filter (\<lambda>what. what \<noteq> ''retry'') (w_outcomes w)) \<le> length (w_archived w))"

lemma handle_counts: "counted_settled w \<Longrightarrow> counted_settled (snd (handle cfg env msg w))"
  using handle_books [of cfg env msg w] by (simp add: counted_settled_def)

lemma counted_waits [simp]: "counted_settled (w\<lparr>w_waits := ws\<rparr>) = counted_settled w"
  by (simp add: counted_settled_def)

lemma loop_counts: "counted_settled w \<Longrightarrow> counted_settled (worker_loop cfg es w)"
proof (induction cfg es w rule: worker_loop.induct)
  case (5 cfg msg env es w)
  then show ?case by (simp add: Let_def handle_counts)
qed simp_all

lemma retry_counted_open:
  "w_outcomes (snd (handle default_worker_config (sample_env Io_Ok (Inl NotFound)) (sample_delivery 1) sample_world)) = [''retry''] \<and>
   map_option jr_status (row_of 1 (w_store (snd (handle default_worker_config (sample_env Io_Ok (Inl NotFound))
     (sample_delivery 1) sample_world)))) = Some Running"
  by code_simp

section \<open>Traces\<close>

text \<open>Work in a new trace finds no span to hang on, so it carries none to another process; work that is not
  traced finds an unsampled one.  The caller's own span is as it was when either returns, whatever the work
  did to its hub.\<close>

lemma new_trace_fresh: "fst (in_new_trace (\<lambda>h. (current_header h, h)) current) = None"
  by (simp add: in_new_trace_def current_header_def propagation_header_def)

lemma untraced_unsampled:
  "(\<And>name op sampled. ts_sampled (start name op sampled) = sampled) \<Longrightarrow>
   fst (untraced start (\<lambda>h. (map_option ts_sampled (th_span h), h)) current) = Some False"
  by (simp add: untraced_def)

lemma hub_restored: "snd (in_new_trace work current) = current" "snd (untraced start work current) = current"
  by (simp_all add: in_new_trace_def untraced_def)

text \<open>Nested boundaries: the inner one decides.\<close>

lemma boundaries_nest:
  "fst (in_new_trace (in_new_trace work) current) = fst (in_new_trace work current)"
  "fst (in_new_trace (untraced start work) current) = fst (untraced start work current)"
  "fst (untraced start (in_new_trace work) current) = fst (in_new_trace work current)"
  by (simp_all add: in_new_trace_def untraced_def)

end
