(* ===== verification/Engine_Answers.thy ===== *)
theory Engine_Answers
  imports Engine Katago_Owner
begin

text \<open>
  The analysis engine over its owner task (\<open>src/src/engine/mod.rs\<close>, \<open>src/src/engine/katago.rs\<close>): what
  \<open>KataGo::analyze\<close> gets back when the queries go through the owner.  The process keeps to its
  protocol, one response for each requested turn of a query, and may die, be relaunched or stay silent
  at any moment.  The locale \<open>complete_owner\<close> is what the engine needs of the owner; the owner's runs
  provide it.
\<close>

section \<open>The process keeps to its protocol\<close>

text \<open>The turns a query still waits for: those requested, without those answered.\<close>

definition turns_left :: "analyze_cmd \<Rightarrow> turn_response list \<Rightarrow> nat multiset" where
  "turns_left c got = mset (q_analyze_turns (ac_query c)) - mset (map turn_number got)"

text \<open>A line that answers a pending query names a turn the query still waits for.\<close>

definition line_fits :: "json_reader \<Rightarrow> owner_state \<Rightarrow> string \<Rightarrow> bool" where
  "line_fits rj s line =
     (case rj line of
        Some value \<Rightarrow>
          (case (lj_error value, lj_warning value, lj_id value, lj_turn value) of
             (None, None, Some i, Some turn) \<Rightarrow>
               (case map_of (os_pending s) i of
                  Some req \<Rightarrow>
                    list_all (\<lambda>c. ac_tx c = pq_tx req \<longrightarrow> turn_number turn \<in># turns_left c (pq_got req)) (os_accepted s)
                | None \<Rightarrow> True)
           | _ \<Rightarrow> True)
      | None \<Rightarrow> True)"

text \<open>A query asks for as many responses as it has turns, at least one.\<close>

definition asks_turns :: "analyze_cmd \<Rightarrow> bool" where
  "asks_turns c = (ac_expected c = length (q_analyze_turns (ac_query c)) \<and> 1 \<le> ac_expected c)"

text \<open>What can happen: the process writes lines that fit, and every query brings a reply channel of its
  own.\<close>

fun event_fits :: "json_reader \<Rightarrow> owner_state \<Rightarrow> owner_event \<Rightarrow> bool" where
  "event_fits rj s (Stdout_Line line) = line_fits rj s line"
| "event_fits rj s (Cmd_Analyze cmd) =
     (ac_tx cmd \<notin> ac_tx ` set (os_accepted s) \<and> asks_turns cmd)"
| "event_fits rj s _ = True"

fun fitting_run :: "(nat \<Rightarrow> write_result) \<Rightarrow> json_reader \<Rightarrow> owner_state \<Rightarrow> owner_event list \<Rightarrow> owner_state option" where
  "fitting_run wr rj s [] = Some s"
| "fitting_run wr rj s (e # es) =
     (if event_fits rj s e
      then (case owner_step wr rj s e of None \<Rightarrow> None | Some s' \<Rightarrow> fitting_run wr rj s' es)
      else None)"

section \<open>The turns of a batch\<close>

definition turns_ok :: "analyze_cmd list \<Rightarrow> pending_table \<Rightarrow> reply list \<Rightarrow> bool" where
  "turns_ok cmds p rs =
     ((\<forall>(_, req) \<in> set p. \<exists>c \<in> set cmds. ac_tx c = pq_tx req \<and> ac_expected c = pq_expected req \<and>
         length (pq_got req) < pq_expected req \<and>
         mset (map turn_number (pq_got req)) \<subseteq># mset (q_analyze_turns (ac_query c))) \<and>
      (\<forall>(tx, r) \<in> set rs. \<forall>turns. r = Inr turns \<longrightarrow>
         (\<exists>c \<in> set cmds. ac_tx c = tx \<and> mset (map turn_number turns) = mset (q_analyze_turns (ac_query c)))))"

interpretation turns: reply_books turns_ok asks_turns
  by unfold_locales (fastforce simp: turns_ok_def asks_turns_def list_all_iff)+

text \<open>A response that fits keeps the batch a part of what was asked; a full batch is all of it.\<close>

lemma batch_grows:
  assumes "mset (map turn_number got) \<subseteq># mset ts" and "turn_number t \<in># mset ts - mset (map turn_number got)"
  shows "mset (map turn_number (got @ [t])) \<subseteq># mset ts"
proof -
  let ?a = "mset (map turn_number got)"
  have "?a + {# turn_number t #} \<subseteq># ?a + (mset ts - ?a)"
    using assms(2) by (intro subset_mset.add_left_mono) (simp add: single_subset_iff)
  then have "?a + {# turn_number t #} \<subseteq># mset ts"
    unfolding subset_mset.add_diff_inverse [OF assms(1)] .
  then show ?thesis by simp
qed

lemma batch_full:
  assumes "mset xs \<subseteq># mset ys" and "length ys \<le> length xs"
  shows "mset xs = mset ys"
  using assms by (metis mset_subset_size size_mset linorder_not_le subset_mset.less_le)

lemma handle_line_turns:
  assumes "handle_line rj p line = (p', rs, turn)"
  obtains (same) "p' = p" "rs = []"
  | (failed) i req err where "map_of p i = Some req" "p' = take_pending i p" "rs = [(pq_tx req, Inl err)]"
  | (answered) lv i req t where "rj line = Some lv" "lj_error lv = None" "lj_warning lv = None"
      "lj_id lv = Some i" "lj_turn lv = Some t" "map_of p i = Some req"
      "if pq_expected req \<le> Suc (length (pq_got req))
       then p' = take_pending i p \<and> rs = [(pq_tx req, Inr (pq_got req @ [t]))]
       else rs = [] \<and> p' = map (\<lambda>e. if fst e = i then (i, req\<lparr>pq_got := pq_got req @ [t]\<rparr>) else e) p"
proof (cases "rj line")
  case None
  then show ?thesis using assms same by (simp add: handle_line_def)
next
  case (Some lv)
  show ?thesis
  proof (cases "lj_error lv")
    case None
    then show ?thesis
      using assms Some same answered [of lv]
      by (auto simp: handle_line_def Let_def split: option.splits if_splits)
  next
    case (Some err)
    note lv = \<open>rj line = Some lv\<close> Some
    show ?thesis
    proof (cases "Option.bind (lj_id lv) (map_of p)")
      case None
      then have "p' = p \<and> rs = []"
        using assms lv by (cases "lj_id lv") (simp_all add: handle_line_def)
      then show ?thesis using same by blast
    next
      case (Some req)
      then obtain i where i: "lj_id lv = Some i" "map_of p i = Some req" by (cases "lj_id lv") auto
      then have "p' = take_pending i p \<and> rs = [(pq_tx req, Inl err)]"
        using assms lv by (simp add: handle_line_def)
      then show ?thesis using failed [OF i(2)] by blast
    qed
  qed
qed

lemma turns_ok_line:
  assumes ok: "turns_ok (os_accepted s) (os_pending s) (os_replies s)" and fits: "line_fits rj s line"
    and asked: "list_all asks_turns (os_accepted s)" and step: "handle_line rj (os_pending s) line = (p', rs', turn)"
  shows "turns_ok (os_accepted s) p' (os_replies s @ rs')"
  using step
proof (cases rule: handle_line_turns)
  case same
  then show ?thesis using ok by simp
next
  case (failed i req err)
  then show ?thesis using ok take_pending_sub [of i "os_pending s"] by (auto simp: turns_ok_def)
next
  case (answered lv i req t)
  have "(i, req) \<in> set (os_pending s)" using answered(6) by (rule map_of_SomeD)
  then obtain c where c: "c \<in> set (os_accepted s)" "ac_tx c = pq_tx req" "ac_expected c = pq_expected req"
      "mset (map turn_number (pq_got req)) \<subseteq># mset (q_analyze_turns (ac_query c))"
      "length (pq_got req) < pq_expected req"
    using ok by (auto simp: turns_ok_def)
  have "turn_number t \<in># turns_left c (pq_got req)"
    using fits answered(1-6) c(1,2) by (simp add: line_fits_def list_all_iff)
  then have grown: "mset (map turn_number (pq_got req @ [t])) \<subseteq># mset (q_analyze_turns (ac_query c))"
    using c(4) by (intro batch_grows) (simp_all add: turns_left_def)
  show ?thesis
  proof (cases "pq_expected req \<le> Suc (length (pq_got req))")
    case True
    have "length (q_analyze_turns (ac_query c)) = pq_expected req"
      using asked c(1,3) by (auto simp: asks_turns_def list_all_iff)
    then have "mset (map turn_number (pq_got req @ [t])) = mset (q_analyze_turns (ac_query c))"
      using grown True by (intro batch_full) simp_all
    then have "turns_ok (os_accepted s) [] [(pq_tx req, Inr (pq_got req @ [t]))]"
      using c(1,2) by (auto simp: turns_ok_def)
    then show ?thesis
      using answered(7) True ok take_pending_sub [of i "os_pending s"]
      by (auto simp: turns.append) (auto simp: turns_ok_def)
  next
    case False
    then show ?thesis
      using answered(7) ok c grown by (auto simp: turns_ok_def)
  qed
qed

section \<open>Every run keeps the books\<close>

definition answers_ok :: "owner_state \<Rightarrow> bool" where
  "answers_ok s = (books_ok turns_ok asks_turns s \<and> list_all asks_turns (os_accepted s) \<and> distinct (map ac_tx (os_accepted s)))"

lemma step_accepted:
  "owner_step wr rj s e = Some s' \<Longrightarrow>
     os_accepted s' = os_accepted s @ (case e of Cmd_Analyze cmd \<Rightarrow> [cmd] | _ \<Rightarrow> [])"
  by (cases e) (auto simp: process_exited_def stop_owner_def fail_all_def Let_def
      split: owner_phase.splits bool.splits if_splits prod.splits)

lemma answers_ok_step:
  assumes "answers_ok s" and fits: "event_fits rj s e" and step: "owner_step wr rj s e = Some s'"
  shows "answers_ok s'"
proof -
  have ok: "books_ok turns_ok asks_turns s" "list_all asks_turns (os_accepted s)" "distinct (map ac_tx (os_accepted s))"
    using assms(1) by (simp_all add: answers_ok_def)
  have "books_ok turns_ok asks_turns s'"
  proof (rule turns.step_keeps [OF ok(1) step])
    fix line p' rs turn
    assume "e = Stdout_Line line" and line: "handle_line rj (os_pending s) line = (p', rs, turn)"
    then have "line_fits rj s line" using fits by simp
    moreover have "turns_ok (os_accepted s) (os_pending s) (os_replies s)" using ok(1,2) by (simp add: books_ok_def)
    ultimately show "turns_ok (os_accepted s) p' (os_replies s @ rs)"
      using turns_ok_line ok(2) line by blast
  qed
  moreover have "list_all asks_turns (os_accepted s') \<and> distinct (map ac_tx (os_accepted s'))"
    using ok(2,3) fits by (cases e) (auto simp: step_accepted [OF step])
  ultimately show ?thesis by (simp add: answers_ok_def)
qed

lemma fitting_run_ok: "answers_ok s \<Longrightarrow> fitting_run wr rj s es = Some s' \<Longrightarrow> answers_ok s'"
  by (induction es arbitrary: s) (auto split: if_splits option.splits intro: answers_ok_step)

lemma fitting_run_owner: "fitting_run wr rj s es = Some s' \<Longrightarrow> owner_run wr rj s es = Some s'"
  by (induction es arbitrary: s) (auto split: if_splits option.splits)

lemma init_ok: "answers_ok (owner_init supervised)"
  by (simp add: answers_ok_def books_ok_def turns_ok_def owner_init_def)

section \<open>What the engine needs of the owner\<close>

text \<open>\<open>KataGo::analyze\<close> over a run of the owner: the query goes out on a channel of its own, the caller
  may time out, and an owner that is gone takes no query.\<close>

definition run_ask ::
  "(nat \<Rightarrow> write_result) \<Rightarrow> json_reader \<Rightarrow> bool \<Rightarrow> owner_event list \<Rightarrow> (analysis_query \<Rightarrow> nat) \<Rightarrow> (analysis_query \<Rightarrow> bool)
     \<Rightarrow> owner" where
  "run_ask wr rj supervised es channel late q n =
     (case fitting_run wr rj (owner_init supervised) es of
        None \<Rightarrow> (False, Reply_Dropped)
      | Some s \<Rightarrow>
          (case List.find (\<lambda>c. ac_tx c = channel q) (os_accepted s) of
             None \<Rightarrow> (False, Reply_Dropped)
           | Some c \<Rightarrow>
               (if ac_query c \<noteq> q \<or> ac_expected c \<noteq> n then (False, Reply_Dropped)
                else (True, if late q then Reply_Timeout
                            else case map_of (os_replies s) (channel q) of
                                None \<Rightarrow> Reply_Dropped
                              | Some r \<Rightarrow> Replied r))))"

text \<open>The responses the owner has handed out.\<close>

definition handed_out :: "(nat \<Rightarrow> write_result) \<Rightarrow> json_reader \<Rightarrow> bool \<Rightarrow> owner_event list \<Rightarrow> turn_response set" where
  "handed_out wr rj supervised es =
     (case fitting_run wr rj (owner_init supervised) es of
        None \<Rightarrow> {}
      | Some s \<Rightarrow> \<Union> (set ` {turns. \<exists>tx. (tx, Inr turns) \<in> set (os_replies s)}))"

locale complete_owner =
  fixes ask :: owner and answered :: "turn_response set"
  assumes complete: "ask q n = (True, Replied (Inr ts)) \<Longrightarrow>
    mset (map turn_number ts) = mset (q_analyze_turns q) \<and> set ts \<subseteq> answered"
begin

lemma katago_complete:
  assumes "katago_analyze ask game cfg turns v p h = Inr ts"
  shows "mset (map turn_number ts) = mset turns \<and> set ts \<subseteq> answered"
proof (cases "turns = []")
  case False
  obtain ok w where a: "ask (analyze_query game cfg turns v p h) (length turns) = (ok, w)" by force
  then have "ok \<and> w = Replied (Inr ts)"
    using assms False by (auto simp: katago_analyze_def Let_def analyze_outcome_def split: if_splits reply_wait.splits sum.splits)
  then show ?thesis using complete [of "analyze_query game cfg turns v p h" "length turns" ts] a
    by (simp add: analyze_query_def)
qed (use assms in \<open>simp add: katago_analyze_def\<close>)

lemma pass_complete:
  "engine_pass ask cfg pass game turns v h tr = (Inr ts, tr') \<Longrightarrow>
     mset (map turn_number ts) = mset turns \<and> set ts \<subseteq> answered"
  using katago_complete by (auto simp: engine_pass_def Let_def split: sum.splits)

lemma turns_complete:
  assumes "analyze_turns ask cfg game h = (Inr ts, tr)"
  shows "mset (map turn_number ts) = mset (all_turns game) \<and> set ts \<subseteq> answered"
proof (cases "two_pass cfg")
  case False
  then show ?thesis using assms pass_complete by (simp add: analyze_turns_def)
next
  case True
  then obtain s tr1 r tr2 where
    one: "engine_pass ask cfg Screen_Pass game (all_turns game) (screen_visits cfg) h \<lparr>et_asked = [], et_counted = []\<rparr> = (Inr s, tr1)"
    and two: "engine_pass ask cfg Refine_Pass game (turns_to_refine game s cfg) (max_visits cfg) h tr1 = (Inr r, tr2)"
    and ts: "ts = merge_turns s r"
    using assms by (auto simp: analyze_turns_def Let_def split: prod.splits sum.splits)
  have s: "mset (map turn_number s) = mset (all_turns game)" "set s \<subseteq> answered" using pass_complete [OF one] by auto
  have r: "set (map turn_number r) \<subseteq> set (all_turns game)" "set r \<subseteq> answered"
    using pass_complete [OF two] turns_to_refine_subset(1) [of game s cfg] by (metis mset_eq_setD)+
  have "set (map turn_number (s @ r)) = set (all_turns game)" using r(1) mset_eq_setD [OF s(1)] by auto
  then have "set_mset (mset (map turn_number ts)) = set_mset (mset (all_turns game))"
    by (simp add: ts merge_turns_numbers)
  moreover have "distinct (map turn_number ts)" "distinct (all_turns game)" by (simp_all add: ts merge_turns_numbers)
  ultimately have "mset (map turn_number ts) = mset (all_turns game)"
    by (metis set_eq_iff_mset_eq_distinct set_mset_mset)
  moreover have "set ts \<subseteq> set s \<union> set r"
    unfolding ts merge_turns_def Let_def using by_turn_map_Some [of "s @ r"] by (fastforce simp: List.map_filter_def)
  ultimately show ?thesis using s(2) r(2) by blast
qed

lemma every_turn_read:
  assumes "analyze_turns ask cfg game h = (Inr ts, tr)" and "i \<le> length (game_moves game)"
  shows "\<exists>t \<in> answered. by_turn_map ts i = Some t \<and> turn_number t = i"
proof -
  note c = turns_complete [OF assms(1)]
  have "i \<in> set (map turn_number ts)" using assms(2) mset_eq_setD [OF conjunct1 [OF c]] by simp
  then have "i \<in> dom (by_turn_map ts)" by (simp add: by_turn_map_dom)
  then obtain t where "by_turn_map ts i = Some t" by auto
  then show ?thesis using by_turn_map_Some [of ts i t] c by auto
qed

end

lemma run_ask_complete:
  assumes "run_ask wr rj supervised es channel late q n = (True, Replied (Inr ts))"
  shows "mset (map turn_number ts) = mset (q_analyze_turns q) \<and> set ts \<subseteq> handed_out wr rj supervised es"
proof -
  obtain s where s: "fitting_run wr rj (owner_init supervised) es = Some s"
    using assms by (cases "fitting_run wr rj (owner_init supervised) es") (auto simp: run_ask_def)
  obtain c where c: "List.find (\<lambda>c. ac_tx c = channel q) (os_accepted s) = Some c"
    using assms s by (cases "List.find (\<lambda>c. ac_tx c = channel q) (os_accepted s)") (auto simp: run_ask_def)
  then have c': "c \<in> set (os_accepted s)" "ac_tx c = channel q" by (auto simp: find_Some_iff)
  have "ac_query c = q" "map_of (os_replies s) (channel q) = Some (Inr ts)"
    using assms s c by (auto simp: run_ask_def split: if_splits option.splits)
  then have r: "(channel q, Inr ts) \<in> set (os_replies s)" by (auto dest: map_of_SomeD)
  have ok: "answers_ok s" by (rule fitting_run_ok [OF init_ok s])
  then obtain d where d: "d \<in> set (os_accepted s)" "ac_tx d = channel q"
      "mset (map turn_number ts) = mset (q_analyze_turns (ac_query d))"
    using r by (fastforce simp: answers_ok_def books_ok_def turns_ok_def)
  have "d = c" using ok d(1,2) c' by (auto simp: answers_ok_def distinct_map inj_on_def)
  then show ?thesis using d(3) \<open>ac_query c = q\<close> r s by (auto simp: handed_out_def)
qed

interpretation owner_runs: complete_owner "run_ask wr rj supervised es channel late" "handed_out wr rj supervised es"
  for wr rj supervised es channel late
  by unfold_locales (rule run_ask_complete)

section \<open>Properties\<close>

text \<open>C4. An analysis that succeeds is complete.  However the owner's run went, with deaths and relaunches of
  the process in it, one pass or two, and in whatever order its answers came: the responses an analysis
  is assembled from are one for each turn of the game, each handed out by the owner, and every move is
  judged on the responses to the positions before and after it.\<close>

theorem analysis_covers_game:
  assumes "engine_analyze go_parse expf (run_ask wr rj supervised es channel late) cfg version sgf hp = (Inr a, tr)"
  shows "\<exists>game by_turn. sgf_parse go_parse sgf (default_board_size cfg) (default_komi cfg) = Inr game \<and>
    dom by_turn = {0..length (game_moves game)} \<and>
    (\<forall>i t. by_turn i = Some t \<longrightarrow> turn_number t = i \<and> t \<in> handed_out wr rj supervised es) \<and>
    length (ga_moves a) = length (game_moves game) \<and>
    (\<forall>i < length (game_moves game). ga_moves a ! i = annotate_move game by_turn cfg i (game_moves game ! i))"
proof -
  obtain game where game: "sgf_parse go_parse sgf (default_board_size cfg) (default_komi cfg) = Inr game"
    using assms by (cases "sgf_parse go_parse sgf (default_board_size cfg) (default_komi cfg)")
      (simp_all add: engine_analyze_def)
  define h where "h = opt_filter (\<lambda>_. human_model cfg \<noteq> []) hp"
  obtain ts where turns: "analyze_turns (run_ask wr rj supervised es channel late) cfg game h = (Inr ts, tr)"
      and a: "ga_moves a = ga_moves (assemble expf game ts cfg h)"
    using assms game by (auto simp: engine_analyze_def Let_def h_def split: prod.splits sum.splits)
  note c = owner_runs.turns_complete [OF turns]
  have "dom (by_turn_map ts) = set (all_turns game)"
    using mset_eq_setD [OF conjunct1 [OF c]] by (simp add: by_turn_map_dom)
  moreover have "turn_number t = i \<and> t \<in> handed_out wr rj supervised es" if "by_turn_map ts i = Some t" for i t
    using by_turn_map_Some [OF that] c by blast
  moreover have "ga_moves a = annotations game (by_turn_map ts) cfg"
    by (simp add: a assemble_def Let_def walk_moves_eq)
  moreover have "length (annotations game (by_turn_map ts) cfg) = length (game_moves game)"
    by (simp add: annotations_def)
  ultimately show ?thesis
    using game by (intro exI [of _ game] exI [of _ "by_turn_map ts"]) (simp add: annotations_nth)
qed

text \<open>A run: the three positions of the sample game are answered out of order, after the process has died
  once and been relaunched.\<close>

definition blank_turn :: "nat \<Rightarrow> turn_response" where
  "blank_turn i = \<lparr>turn_number = i, tr_root_info = None, tr_move_infos = [], tr_ownership = None,
     tr_ownership_stdev = None, tr_policy = None, tr_human_policy = None\<rparr>"

definition turn_lines :: json_reader where
  "turn_lines line = Some \<lparr>lj_id = Some (query_id 0), lj_error = None, lj_warning = None,
     lj_turn = Some (blank_turn (length line))\<rparr>"

definition whole_game_query :: analysis_query where
  "whole_game_query = analyze_query sample_game (default_engine_config None) [0, 1, 2]
     (max_visits (default_engine_config None)) 0 None"

definition relaunched_run :: "owner_event list" where
  "relaunched_run = [Ready_Signal True, Stdout_Closed \<lparr>xr_status = ''signal: 9'', xr_stderr = []\<rparr>,
     Cmd_Analyze \<lparr>ac_query = whole_game_query, ac_expected = 3, ac_tx = 5\<rparr>, Backoff_Over True,
     Stdout_Line ''ab'', Stdout_Line [], Stdout_Line ''a'']"

lemma relaunched_answers:
  "run_ask (\<lambda>_. Written) turn_lines True relaunched_run (\<lambda>_. 5) (\<lambda>_. False) whole_game_query 3 =
     (True, Replied (Inr [blank_turn 2, blank_turn 0, blank_turn 1]))"
proof -
  have turns: "q_analyze_turns whole_game_query = [0, Suc 0, Suc (Suc 0)]"
    by (simp add: whole_game_query_def analyze_query_def)
  show ?thesis
    by (simp add: run_ask_def relaunched_run_def owner_init_def asks_turns_def turns process_exited_def fail_all_def
        Let_def start_serving_def submit_def line_fits_def turn_lines_def blank_turn_def turns_left_def
        handle_line_def take_pending_def)
qed

theorem analysis_covers_game_witness:
  "\<exists>by_turn a. dom by_turn = {0..length (game_moves sample_game)} \<and>
     (\<forall>i < length (game_moves sample_game). ga_moves (a :: game_analysis) ! i =
        annotate_move sample_game by_turn (default_engine_config None) i (game_moves sample_game ! i))"
proof -
  let ?ask = "run_ask (\<lambda>_. Written) turn_lines True relaunched_run (\<lambda>_. 5) (\<lambda>_. False)"
  let ?cfg = "default_engine_config None"
  have whole: "all_turns sample_game = [0, 1, 2]" by (simp add: all_turns_def sample_game_def upt_rec)
  have "katago_analyze ?ask sample_game ?cfg (all_turns sample_game) (max_visits ?cfg) 0 None =
      (case ?ask whole_game_query 3 of (send_ok, w) \<Rightarrow> analyze_outcome send_ok w)"
    unfolding katago_analyze_def whole whole_game_query_def by (simp add: numeral_3_eq_3)
  then have "katago_analyze ?ask sample_game ?cfg (all_turns sample_game) (max_visits ?cfg) 0 None =
      Inr [blank_turn 2, blank_turn 0, blank_turn 1]"
    unfolding relaunched_answers by (simp add: analyze_outcome_def)
  then obtain ts tr where "analyze_turns ?ask ?cfg sample_game None = (Inr ts, tr)"
    by (simp add: analyze_turns_def default_config_fields engine_pass_def)
  then obtain a tr where "engine_analyze (\<lambda>_. Inr [sample_tree]) (\<lambda>_. Fin 1) ?ask (default_engine_config None) None [] None
      = (Inr a, tr)"
    by (simp add: engine_analyze_def sample_parses default_config_fields Let_def)
  from analysis_covers_game [OF this] show ?thesis
    unfolding default_config_fields sample_parses by auto
qed

end
