(* ===== verification/Launch.thy ===== *)
theory Launch
  imports Startup Katago_Owner Worker
begin

text \<open>
  From the role to a serving process: launching KataGo and waiting for it (\<open>src/src/engine/katago.rs\<close>,
  \<open>src/src/engine/mod.rs\<close>), and what each role starts, in which order (\<open>src/src/main.rs\<close>).  Whether the
  operating system starts the binary, and how the plugins of muxa and the axum server fare, are
  parameters; so are the owner's events while startup waits for the engine.
\<close>

section \<open>Launching the engine\<close>

text \<open>\<open>Launcher::launch\<close>: \<open>spawned\<close> is the error of starting the binary, if any.\<close>

definition launcher_launch :: "string \<Rightarrow> string option \<Rightarrow> unit app_result" where
  "launcher_launch binary spawned =
     (case spawned of
        None \<Rightarrow> Inr ()
      | Some err \<Rightarrow>
          Inl (ModelLoad (''failed to launch '' @ [CHR 0x27] @ binary @ '' analysis'' @ [CHR 0x27] @ '': '' @ err @
                 '' (is katago-rs installed?)'')))"

record katago_handle =
  kh_args :: "string list"
  kh_timeout :: nat
  kh_owner :: owner_state

text \<open>\<open>KataGo::launch\<close>: the owner task is spawned with the process; a request waits at least a second.\<close>

definition katago_launch :: "engine_config \<Rightarrow> bool \<Rightarrow> string option \<Rightarrow> katago_handle app_result" where
  "katago_launch cfg supervised spawned =
     res_map (\<lambda>_. \<lparr>kh_args = engine_args cfg, kh_timeout = max (request_timeout_secs cfg) 1,
                   kh_owner = owner_init supervised\<rparr>)
       (launcher_launch (engine_binary cfg) spawned)"

text \<open>\<open>engine_version\<close>: the output of \<open><binary> version\<close>, if it ran.\<close>

definition engine_version :: "string option \<Rightarrow> string option" where
  "engine_version out = Option.bind out parse_version"

record analysis_engine =
  ae_katago :: katago_handle
  ae_cfg :: engine_config
  ae_version :: "string option"

definition engine_new :: "katago_handle \<Rightarrow> engine_config \<Rightarrow> string option \<Rightarrow> analysis_engine" where
  "engine_new katago cfg version_out =
     \<lparr>ae_katago = katago, ae_cfg = cfg, ae_version = engine_version version_out\<rparr>"

definition engine_spawn :: "bool \<Rightarrow> engine_config \<Rightarrow> string option \<Rightarrow> string option \<Rightarrow> analysis_engine app_result" where
  "engine_spawn supervised cfg spawned version_out =
     res_map (\<lambda>katago. engine_new katago cfg version_out) (katago_launch cfg supervised spawned)"

text \<open>\<open>shutdown\<close>: the command and the wait for its acknowledgement, which comes when the process is gone;
  nothing where the owner no longer listens.\<close>

definition katago_shutdown :: "(nat \<Rightarrow> write_result) \<Rightarrow> json_reader \<Rightarrow> owner_state \<Rightarrow> owner_state" where
  "katago_shutdown wr rj s = opt_else s (owner_step wr rj s Cmd_Shutdown)"

text \<open>A look at the status channel: \<open>wait_ready\<close> goes on at the first look that shows another status than
  \<open>Starting\<close>, or that the owner is gone.  \<open>None\<close>: it waits.\<close>

definition ready_verdict :: "owner_state \<Rightarrow> unit app_result option" where
  "ready_verdict s =
     (if os_status s \<noteq> Starting then Some (wait_ready (Some (os_status s)))
      else if os_phase s = Stopped then Some (wait_ready None)
      else None)"

datatype start_error = Bad_Config | Engine_Failed app_error | Step_Failed string

text \<open>\<open>KataGoEnginePlugin\<close>: read the setup, tune, spawn, wait.  \<open>spawn_err\<close> and \<open>version_out\<close> are the system's
  answers for the tuned configuration, \<open>look\<close> the owner as the wait last saw it.\<close>

definition engine_plugin_build ::
  "nat option \<Rightarrow> tuning_env \<Rightarrow> cache_entry list \<Rightarrow> layer \<Rightarrow> (engine_config \<Rightarrow> string option) \<Rightarrow>
     (engine_config \<Rightarrow> string option) \<Rightarrow> owner_state \<Rightarrow> (start_error + analysis_engine) option" where
  "engine_plugin_build parallelism env cache L spawn_err version_out look =
     (case engine_plugin parallelism env cache L of
        None \<Rightarrow> Some (Inl Bad_Config)
      | Some (cfg, cache') \<Rightarrow>
          (case engine_spawn True cfg (spawn_err cfg) (version_out cfg) of
             Inl err \<Rightarrow> Some (Inl (Engine_Failed err))
           | Inr engine \<Rightarrow>
               (case ready_verdict look of
                  None \<Rightarrow> None
                | Some (Inl err) \<Rightarrow> Some (Inl (Engine_Failed err))
                | Some (Inr ()) \<Rightarrow> Some (Inr engine))))"

section \<open>What a role starts\<close>

datatype start_step =
    Sentry_Plugin
  | Otel_Plugin
  | Diesel_Plugin
  | Pgmq_Plugin string
  | Engine_Plugin
  | Autotune_Plugin bool bool
  | Analysis_Worker
  | Depth_Sampler
  | Registry_Task
  | Cluster_Client_Task
  | Build_Router
  | Api_Plugin "route list"
  | Web_Plugin "route list"
  | Serve
  | Run_Bench
  | Probe nat

definition telemetry_steps :: "start_step list" where
  "telemetry_steps = [Sentry_Plugin, Otel_Plugin]"

definition database_steps :: "start_step list" where
  "database_steps = [Diesel_Plugin, Pgmq_Plugin (queue_str Analysis_Queue)]"

text \<open>\<open>worker::register\<close>\<close>

definition register_workers :: "worker_config \<Rightarrow> start_step list" where
  "register_workers cfg = replicate (max (concurrency cfg) 1) Analysis_Worker"

text \<open>\<open>serve_api\<close>\<close>

definition serve_api :: "api_state \<Rightarrow> bool \<Rightarrow> start_step list" where
  "serve_api api rate_limit = [Build_Router, Api_Plugin (api_router api rate_limit), Serve]"

definition run_standalone :: "layer \<Rightarrow> bool \<Rightarrow> start_step list" where
  "run_standalone L rate_limit =
     telemetry_steps @ database_steps @ [Engine_Plugin] @
     register_workers (extract_or_default default_worker_config de_worker L) @ [Depth_Sampler] @
     serve_api \<lparr>as_registry = False, as_cluster = None,
       as_client_token = api_client_token (client_token (extract_or_default default_api_config de_api L))\<rparr> rate_limit"

definition run_orchestrator :: "layer \<Rightarrow> bool \<Rightarrow> start_step list" where
  "run_orchestrator L rate_limit =
     telemetry_steps @ database_steps @ [Registry_Task, Depth_Sampler] @
     serve_api \<lparr>as_registry = True,
       as_cluster = Some (orchestrator_auth_token (extract_or_default default_orchestrator_config de_orchestrator L)),
       as_client_token = api_client_token (client_token (extract_or_default default_api_config de_api L))\<rparr> rate_limit"

definition run_worker :: "start_step list" where
  "run_worker = telemetry_steps @ [Engine_Plugin, Cluster_Client_Task, Web_Plugin health_routes, Serve]"

definition run_bench :: "start_step list" where
  "run_bench = [Engine_Plugin, Run_Bench]"

definition run_autotune :: "bool \<Rightarrow> bool \<Rightarrow> start_step list" where
  "run_autotune fast force = [Autotune_Plugin fast force]"

definition run_healthcheck :: "layer \<Rightarrow> start_step list" where
  "run_healthcheck L = [Probe (healthcheck_port L)]"

text \<open>\<open>main\<close>: the probe reads the configuration without the role's flags, which it has none of.\<close>

definition main_steps :: "layer \<Rightarrow> bool \<Rightarrow> role \<Rightarrow> start_step list" where
  "main_steps below rate_limit role =
     (let L = app_config below role in
      case role of
        Role_Healthcheck \<Rightarrow> run_healthcheck below
      | Role_Standalone e s \<Rightarrow> run_standalone L rate_limit
      | Role_Orchestrator \<Rightarrow> run_orchestrator L rate_limit
      | Role_Worker e w \<Rightarrow> run_worker
      | Role_Bench e \<Rightarrow> run_bench
      | Role_Autotune fast force e s \<Rightarrow> run_autotune fast force)"

text \<open>The steps up to the first that fails (\<open>?\<close>) or has not finished; \<open>fares\<close> says how each does.\<close>

datatype step_result = Step_Done | Step_Waits | Step_Error start_error

fun run_steps :: "(start_step \<Rightarrow> step_result) \<Rightarrow> start_step list \<Rightarrow> start_step list \<times> step_result" where
  "run_steps fares [] = ([], Step_Done)"
| "run_steps fares (st # sts) =
     (case fares st of
        Step_Done \<Rightarrow> (let (ran_steps, res) = run_steps fares sts in (st # ran_steps, res))
      | res \<Rightarrow> ([], res))"

section \<open>The verdict on the engine\<close>

text \<open>While startup waits, nobody has a handle to send the owner commands.\<close>

definition startup_event :: "owner_event \<Rightarrow> bool" where
  "startup_event e = (case e of Cmd_Analyze _ \<Rightarrow> False | Cmd_Shutdown \<Rightarrow> False | Handles_Dropped \<Rightarrow> False | _ \<Rightarrow> True)"

definition exits :: "owner_event list \<Rightarrow> exit_report list" where
  "exits es = List.map_filter (\<lambda>e. case e of Stdout_Closed r \<Rightarrow> Some r | _ \<Rightarrow> None) es"

text \<open>Before the ready announcement the owner serves its first process, or that process is gone and the
  owner with it.\<close>

definition startup_ok :: "owner_event list \<Rightarrow> owner_state \<Rightarrow> bool" where
  "startup_ok es s =
     (os_started s = (Ready_Signal True \<in> set es) \<and>
      (\<not> os_started s \<longrightarrow>
         (exits es = [] \<and> os_status s = Starting \<and> os_phase s \<in> {Serving False, Serving True}) \<or>
         (\<exists>r. exits es = [r] \<and> os_status s = Exited (exit_report_text r) \<and> os_phase s = Stopped)) \<and>
      (case os_status s of
         Exited txt \<Rightarrow> \<exists>r \<in> set (exits es). txt = exit_report_text r
       | Ready \<Rightarrow> os_started s \<and> os_phase s = Serving True
       | Starting \<Rightarrow> os_phase s \<in> {Serving False, Serving True}))"

lemma exits_simps [simp]:
  "exits [] = []" "exits (es @ es') = exits es @ exits es'"
  "exits [e] = (case e of Stdout_Closed r \<Rightarrow> [r] | _ \<Rightarrow> [])"
  by (auto simp: exits_def List.map_filter_def split: owner_event.splits)

lemma start_serving_status [simp]:
  "os_status (start_serving wr s) = os_status s" "os_started (start_serving wr s) = os_started s"
proof -
  have "os_status (submit wr cmd s) = os_status s \<and> os_started (submit wr cmd s) = os_started s" for cmd s
    by (cases "wr (os_next_id s)") (simp_all add: submit_def Let_def)
  then have "os_status (foldl (\<lambda>t cmd. submit wr cmd t) s cmds) = os_status s \<and>
      os_started (foldl (\<lambda>t cmd. submit wr cmd t) s cmds) = os_started s" for cmds s
    by (induction cmds arbitrary: s) simp_all
  then show "os_status (start_serving wr s) = os_status s" "os_started (start_serving wr s) = os_started s"
    by (simp_all add: start_serving_def)
qed

lemma process_exited_facts:
  "os_started (process_exited report s) = os_started s"
  "os_status (process_exited report s) = Exited (exit_report_text report)"
  "os_phase (process_exited report s) = (if \<not> os_supervised s \<or> \<not> os_started s then Stopped else Down)"
  by (simp_all add: process_exited_def stop_owner_def fail_all_def Let_def)

lemma startup_exit:
  assumes "startup_ok es s" and "owner_step wr rj s (Stdout_Closed report) = Some s'"
  shows "startup_ok (es @ [Stdout_Closed report]) s'"
  using assms
  by (auto simp: startup_ok_def process_exited_facts split: owner_phase.splits bool.splits engine_status.splits)

lemma startup_other:
  assumes "startup_ok es s" and "exits [e] = []" and "Ready_Signal True \<noteq> e"
    and "os_started s' = os_started s" and "os_status s' = os_status s" and "os_phase s' = os_phase s"
  shows "startup_ok (es @ [e]) s'"
proof -
  have same: "exits (es @ [e]) = exits es" "(Ready_Signal True \<in> set (es @ [e])) = (Ready_Signal True \<in> set es)"
    using assms(2,3) by (simp_all only: exits_simps(2)) auto
  show ?thesis using assms(1) unfolding startup_ok_def same assms(4-6) .
qed

lemma startup_step:
  assumes "startup_ok es s" and "startup_event e" and "owner_step wr rj s e = Some s'"
  shows "startup_ok (es @ [e]) s'"
proof (cases e)
  case (Ready_Signal ok)
  then show ?thesis using assms
    by (cases ok) (auto simp: startup_ok_def split: owner_phase.splits bool.splits engine_status.splits)
next
  case (Stdout_Line line)
  then have "os_started s' = os_started s \<and> os_status s' = os_status s \<and> os_phase s' = os_phase s"
    using assms(3) by (auto simp: Let_def split: owner_phase.splits prod.splits)
  then show ?thesis using startup_other [OF assms(1)] Stdout_Line by simp
next
  case (Stdout_Closed report)
  then show ?thesis using startup_exit assms(1,3) by simp
next
  case (Backoff_Over ok)
  then show ?thesis using assms
    by (cases "os_phase s"; cases ok) (auto simp: startup_ok_def split: engine_status.splits)
qed (use assms(2) in \<open>simp_all add: startup_event_def\<close>)

lemma startup_run:
  "startup_ok es s \<Longrightarrow> list_all startup_event es' \<Longrightarrow> owner_run wr rj s es' = Some s' \<Longrightarrow> startup_ok (es @ es') s'"
proof (induction es' arbitrary: es s)
  case (Cons e es')
  then obtain t where t: "owner_step wr rj s e = Some t" "owner_run wr rj t es' = Some s'"
    by (auto split: option.splits)
  have "startup_ok (es @ [e]) t" using Cons.prems(1,2) t(1) by (auto intro: startup_step)
  then show ?case using Cons.IH [of "es @ [e]" t] Cons.prems(2) t(2) by simp
qed simp

lemma startup_init: "startup_ok [] (owner_init supervised)"
  by (simp add: startup_ok_def owner_init_def)

text \<open>The verdict at any look.\<close>

lemma ready_verdict_startup:
  assumes "owner_run wr rj (owner_init supervised) es = Some s" and "list_all startup_event es"
  shows "(ready_verdict s = Some (Inr ()) \<longrightarrow> Ready_Signal True \<in> set es) \<and>
    (Ready_Signal True \<notin> set es \<longrightarrow>
       ready_verdict s = (case exits es of
         [] \<Rightarrow> None
       | r # rs \<Rightarrow> Some (Inl (ModelLoad (''the engine exited during startup: '' @ exit_report_text r)))))"
  using startup_run [OF startup_init assms(2,1)]
  by (auto simp: startup_ok_def ready_verdict_def wait_ready_def split: engine_status.splits list.splits)

text \<open>After a shutdown nothing is pending, every query that was gets the shutdown's error in order, and a
  second shutdown does nothing.\<close>

lemma katago_shutdown_stops:
  "os_phase (katago_shutdown wr rj s) = Stopped"
  "katago_shutdown wr rj (katago_shutdown wr rj s) = katago_shutdown wr rj s"
  by (cases "os_phase s"; simp add: katago_shutdown_def)+

lemma katago_shutdown_replies:
  assumes "os_phase s \<noteq> Stopped"
  shows "\<exists>answers. os_replies (katago_shutdown wr rj s) = os_replies s @ answers \<and>
    list_all (\<lambda>(tx, r). r = Inl shut_down_text) answers \<and>
    os_status (katago_shutdown wr rj s) = Exited shut_down_text"
  using assms
  by (cases "os_phase s") (auto simp: katago_shutdown_def stop_owner_def fail_all_def list_all_iff)

section \<open>The order of a role's steps\<close>

definition first_steps :: "start_step set" where
  "first_steps = set (telemetry_steps @ database_steps)"

fun runs_engine :: "role \<Rightarrow> bool" where
  "runs_engine (Role_Standalone e s) = True"
| "runs_engine (Role_Worker e w) = True"
| "runs_engine (Role_Bench e) = True"
| "runs_engine role = False"

lemma engine_comes_first:
  assumes "runs_engine role"
  shows "\<exists>pre post. main_steps below rate_limit role = pre @ Engine_Plugin # post \<and> set pre \<subseteq> first_steps"
  using assms
proof (cases role)
  case (Role_Standalone e s)
  show ?thesis
    by (rule exI [of _ "telemetry_steps @ database_steps"])
      (simp add: Role_Standalone main_steps_def Let_def run_standalone_def first_steps_def)
next
  case (Role_Worker e w)
  show ?thesis
    by (rule exI [of _ telemetry_steps]) (auto simp: Role_Worker main_steps_def run_worker_def first_steps_def)
next
  case (Role_Bench e)
  show ?thesis by (rule exI [of _ "[]"]) (simp add: Role_Bench main_steps_def run_bench_def)
qed simp_all

lemma run_steps_append:
  "run_steps fares (xs @ ys) =
     (case run_steps fares xs of
        (ran_steps, Step_Done) \<Rightarrow> (case run_steps fares ys of (ran_steps', res) \<Rightarrow> (ran_steps @ ran_steps', res))
      | stopped \<Rightarrow> stopped)"
  by (induction xs) (auto split: prod.splits step_result.splits)

lemma run_steps_subset: "set (fst (run_steps fares xs)) \<subseteq> set xs"
  by (induction xs) (auto split: prod.splits step_result.splits)

lemma run_steps_all_done: "(\<forall>st \<in> set xs. fares st = Step_Done) \<Longrightarrow> run_steps fares xs = (xs, Step_Done)"
  by (induction xs) auto

lemma run_steps_stop:
  assumes "fares st \<noteq> Step_Done" and "run_steps fares (pre @ st # post) = (ran_steps, res)"
  shows "res \<noteq> Step_Done \<and> set ran_steps \<subseteq> set pre \<and> ((\<forall>x \<in> set pre. fares x = Step_Done) \<longrightarrow> res = fares st)"
proof -
  have "res \<noteq> Step_Done \<and> ran_steps = fst (run_steps fares pre)"
    using assms by (auto simp: run_steps_append split: prod.splits step_result.splits)
  moreover have "res = fares st" if "\<forall>x \<in> set pre. fares x = Step_Done"
    using assms run_steps_all_done [OF that] by (auto simp: run_steps_append split: step_result.splits)
  ultimately show ?thesis using run_steps_subset by blast
qed

section \<open>Properties\<close>

definition engine_fares :: "(start_error + analysis_engine) option \<Rightarrow> step_result" where
  "engine_fares built = (case built of None \<Rightarrow> Step_Waits | Some (Inl err) \<Rightarrow> Step_Error err | Some (Inr engine) \<Rightarrow> Step_Done)"

text \<open>C34. No role works with an engine that is not there.  In every role that runs one, whatever the other
  plugins do, no worker takes a job, no client dials, nothing is served and no benchmark runs before
  KataGo has announced that it is ready; and if the process goes away without having said so, startup
  does not hang but ends with the process's own exit status and last lines, as long as the steps before
  went well.\<close>

theorem startup_waits_for_engine:
  assumes "owner_run wr rj (owner_init True) es = Some look" and "list_all startup_event es"
    and "runs_engine role" and "L = app_config below role"
    and "fares Engine_Plugin = engine_fares (engine_plugin_build parallelism env cache L spawn_err version_out look)"
    and "run_steps fares (main_steps below rate_limit role) = (ran_steps, res)"
  shows "Ready_Signal True \<in> set es \<or>
    (set ran_steps \<inter> {Analysis_Worker, Cluster_Client_Task, Run_Bench, Serve} = {} \<and> res \<noteq> Step_Done \<and>
     (case (engine_plugin parallelism env cache L, exits es) of
        (Some (cfg, cache'), r # rs) \<Rightarrow>
          spawn_err cfg = None \<and> (\<forall>st \<in> set (telemetry_steps @ database_steps). fares st = Step_Done) \<longrightarrow>
          res = Step_Error (Engine_Failed (ModelLoad (''the engine exited during startup: '' @ exit_report_text r)))
      | _ \<Rightarrow> True))"
proof (cases "Ready_Signal True \<in> set es")
  case False
  note verdict = ready_verdict_startup [OF assms(1,2)]
  obtain pre post where steps: "main_steps below rate_limit role = pre @ Engine_Plugin # post" "set pre \<subseteq> first_steps"
    using engine_comes_first [OF assms(3)] by blast
  have not_done: "fares Engine_Plugin \<noteq> Step_Done"
    unfolding assms(5) using verdict False
    by (auto simp: engine_fares_def engine_plugin_build_def split: option.splits sum.splits list.splits)
  note stop = run_steps_stop [OF not_done assms(6) [unfolded steps(1)]]
  have "set ran_steps \<inter> {Analysis_Worker, Cluster_Client_Task, Run_Bench, Serve} = {}"
    using stop steps(2) by (auto simp: first_steps_def telemetry_steps_def database_steps_def)
  moreover have "fares Engine_Plugin = Step_Error (Engine_Failed (ModelLoad (''the engine exited during startup: '' @ exit_report_text r)))"
    if "engine_plugin parallelism env cache L = Some (cfg, cache')" "exits es = r # rs" "spawn_err cfg = None" for cfg cache' r rs
    unfolding assms(5) using verdict False that
    by (simp add: engine_fares_def engine_plugin_build_def engine_spawn_def katago_launch_def launcher_launch_def)
  ultimately show ?thesis
    using stop steps(2) by (auto simp: first_steps_def split: option.splits list.splits)
qed simp

text \<open>A worker whose engine dies of a missing model while it starts.\<close>

definition plain_worker :: role where
  "plain_worker = Role_Worker no_engine_args \<lparr>arg_slots = \<lparr>arg_concurrency = None\<rparr>, arg_orchestrator_url = None, arg_name = None\<rparr>"

definition early_exit :: "owner_event list" where
  "early_exit = [Ready_Signal False, Stdout_Closed \<lparr>xr_status = ''exit status: 1'', xr_stderr = [''no such model'']\<rparr>]"

lemma plain_worker_layer: "app_config Map.empty plain_worker = Map.empty"
proof -
  have "engine_section no_engine_args = []"
    by (simp add: engine_section_def no_engine_args_def text_key_def)
  then show ?thesis
    by (simp add: app_config_def plain_worker_def layer_of_def worker_section_def slots_section_def text_key_def
        fun_eq_iff split_paired_all)
qed

lemma plain_worker_plugin: "\<exists>cfg cache'. engine_plugin None env cache Map.empty = Some (cfg, cache')"
  by (simp add: engine_plugin_def setup_read_def de_engine_def de_worker_def Let_def de_text_def de_bool_def de_nat_def
      de_int_def de_f32_def de_backend_def de_mode_def de_opt_u32_def u32_max_def TUNING_FIELDS_def)

lemma early_exit_run:
  "\<exists>look. owner_run (\<lambda>_. Written) (\<lambda>_. None) (owner_init True) early_exit = Some look \<and> ready_verdict look =
     Some (Inl (ModelLoad (''the engine exited during startup: '' @
       exit_report_text \<lparr>xr_status = ''exit status: 1'', xr_stderr = [''no such model'']\<rparr>)))"
  by (simp add: early_exit_def owner_init_def process_exited_def fail_all_def stop_owner_def Let_def ready_verdict_def
      wait_ready_def)

theorem startup_waits_for_engine_witness:
  "\<exists>built. run_steps (\<lambda>st. if st = Engine_Plugin then engine_fares built else Step_Done) (main_steps Map.empty False plain_worker) =
     ([Sentry_Plugin, Otel_Plugin], Step_Error (Engine_Failed (ModelLoad (''the engine exited during startup: '' @
        exit_report_text \<lparr>xr_status = ''exit status: 1'', xr_stderr = [''no such model'']\<rparr>))))"
proof -
  obtain look where look: "owner_run (\<lambda>_. Written) (\<lambda>_. None) (owner_init True) early_exit = Some look"
    using early_exit_run by blast
  let ?built = "engine_plugin_build None example_env [] (app_config Map.empty plain_worker) (\<lambda>_. None) (\<lambda>_. None) look"
  let ?fares = "\<lambda>st. if st = Engine_Plugin then engine_fares ?built else Step_Done"
  obtain ran_steps res where run: "run_steps ?fares (main_steps Map.empty False plain_worker) = (ran_steps, res)" by force
  have startup: "list_all startup_event early_exit" "runs_engine plain_worker" "Ready_Signal True \<notin> set early_exit"
    "exits early_exit = [\<lparr>xr_status = ''exit status: 1'', xr_stderr = [''no such model'']\<rparr>]"
    by (simp_all add: early_exit_def startup_event_def plain_worker_def exits_def List.map_filter_def)
  have fares: "?fares Engine_Plugin = engine_fares ?built" by simp
  obtain cfg cache' where plugin: "engine_plugin None example_env [] Map.empty = Some (cfg, cache')"
    using plain_worker_plugin by blast
  have res: "res = Step_Error (Engine_Failed (ModelLoad (''the engine exited during startup: '' @
      exit_report_text \<lparr>xr_status = ''exit status: 1'', xr_stderr = [''no such model'']\<rparr>)))"
    using startup_waits_for_engine [OF look startup(1,2) refl fares run] startup(3,4)
    by (simp add: plain_worker_layer plugin telemetry_steps_def database_steps_def)
  have "main_steps Map.empty False plain_worker =
      [Sentry_Plugin, Otel_Plugin, Engine_Plugin, Cluster_Client_Task, Web_Plugin health_routes, Serve]"
    by (simp add: main_steps_def plain_worker_def run_worker_def telemetry_steps_def)
  then have "ran_steps = [Sentry_Plugin, Otel_Plugin]"
    using run res by (auto split: step_result.splits)
  then show ?thesis using run res by blast
qed

end
